(* ===== verification/Prelude.thy ===== *)
theory Prelude
  imports Main "HOL-Library.Word" "HOL-Library.AList"
begin

text \<open>
  Shared vocabulary of the development: the widths of Go's unsigned integers, Go strings as
  character lists, Go maps that are iterated over as association lists, and the generic facts
  on words, association lists and folds that the component theories use.

  The collection \<open>word_nat\<close> turns a question about machine words into one about natural
  numbers; \<open>gomap\<close> holds the lookup laws of association lists.
\<close>

unbundle bit_operations_syntax

type_synonym u8 = "8 word"
type_synonym u16 = "16 word"
type_synonym u32 = "32 word"
type_synonym u64 = "64 word"
type_synonym bytes = "8 word list"

named_theorems word_nat \<open>words as natural numbers\<close>
named_theorems gomap \<open>lookup laws of association lists\<close>

section \<open>Strings and bytes\<close>

definition str_bytes :: "string \<Rightarrow> bytes" where
  "str_bytes s = map of_char s"

definition bytes_str :: "bytes \<Rightarrow> string" where
  "bytes_str bs = map (\<lambda>b. char_of (unat b)) bs"

text \<open>The lower case form of an ASCII character, as \<open>strings.ToLower\<close> computes it for ASCII.\<close>

definition lower_char :: "char \<Rightarrow> char" where
  "lower_char c = (let n = of_char c :: nat in if 65 \<le> n \<and> n \<le> 90 then char_of (n + 32) else c)"

definition to_lower :: "string \<Rightarrow> string" where
  "to_lower s = map lower_char s"

section \<open>Big-endian words\<close>

definition be16 :: "u16 \<Rightarrow> bytes" where
  "be16 w = [ucast (drop_bit 8 w), ucast w]"

definition be32 :: "u32 \<Rightarrow> bytes" where
  "be32 w = [ucast (drop_bit 24 w), ucast (drop_bit 16 w), ucast (drop_bit 8 w), ucast w]"

definition be64 :: "u64 \<Rightarrow> bytes" where
  "be64 w = be32 (ucast (drop_bit 32 w)) @ be32 (ucast w)"

fun of_be16 :: "bytes \<Rightarrow> u16" where
  "of_be16 [a, b] = push_bit 8 (ucast a) OR ucast b"
| "of_be16 _ = 0"

fun of_be32 :: "bytes \<Rightarrow> u32" where
  "of_be32 [a, b, c, d] =
     push_bit 24 (ucast a) OR push_bit 16 (ucast b) OR push_bit 8 (ucast c) OR ucast d"
| "of_be32 _ = 0"

definition of_be64 :: "bytes \<Rightarrow> u64" where
  "of_be64 bs = push_bit 32 (ucast (of_be32 (take 4 bs))) OR ucast (of_be32 (drop 4 bs))"

section \<open>Go maps as association lists\<close>

lemmas gomap_lookup [gomap, simp] = update_conv' delete_conv'

section \<open>Facts on strings\<close>

lemma bytes_str_str_bytes [simp]: "bytes_str (str_bytes s) = s"
proof -
  have "char_of (unat (of_char c :: u8)) = c" for c
  proof -
    have "unat (word_of_nat (of_char c) :: u8) = of_char c mod 256"
      by (simp only: unat_of_nat) simp
    then show ?thesis by (simp only: of_nat_of_char of_char_mod_256 char_of_char)
  qed
  then show ?thesis
    by (simp add: bytes_str_def str_bytes_def comp_def)
qed

lemma length_str_bytes [simp]: "length (str_bytes s) = length s"
  by (simp add: str_bytes_def)

lemma lower_char_idem [simp]: "lower_char (lower_char c) = lower_char c"
  by (auto simp: lower_char_def Let_def)

lemma to_lower_idem [simp]: "to_lower (to_lower s) = to_lower s"
  by (simp add: to_lower_def comp_def)

lemma to_lower_Nil_iff [simp]: "to_lower s = [] \<longleftrightarrow> s = []"
  by (simp add: to_lower_def)

section \<open>Facts on big-endian words\<close>

lemma length_be [simp]: "length (be16 x) = 2" "length (be32 y) = 4" "length (be64 z) = 8"
  by (simp_all add: be16_def be32_def be64_def)

lemma be_not_Nil [simp]: "be16 x \<noteq> []" "be32 y \<noteq> []" "be64 z \<noteq> []"
  by (simp_all add: be16_def be32_def be64_def)

lemma of_be16_be16 [simp]: "of_be16 (be16 w) = w"
  unfolding be16_def of_be16.simps
  by (rule bit_word_eqI) (auto simp: bit_simps)

lemma of_be32_be32 [simp]: "of_be32 (be32 w) = w"
  unfolding be32_def of_be32.simps
proof (rule bit_word_eqI)
  fix n :: nat
  assume "n < LENGTH(32)"
  then consider "n < 8" | "8 \<le> n" "n < 16" | "16 \<le> n" "n < 24" | "24 \<le> n" "n < 32"
    by force
  then show "bit (push_bit 24 (ucast (ucast (drop_bit 24 w) :: u8)) OR
      push_bit 16 (ucast (ucast (drop_bit 16 w) :: u8)) OR
      push_bit 8 (ucast (ucast (drop_bit 8 w) :: u8)) OR ucast (ucast w :: u8) :: u32) n = bit w n"
    by cases (auto simp: bit_simps)
qed

lemma of_be64_be64 [simp]: "of_be64 (be64 w) = w"
proof -
  have "take 4 (be64 w) = be32 (ucast (drop_bit 32 w))" "drop 4 (be64 w) = be32 (ucast w)"
    by (simp_all add: be64_def be32_def)
  then show ?thesis
    by (auto simp: of_be64_def bit_simps intro!: bit_word_eqI)
qed

section \<open>Facts on words\<close>

lemma u32_bound: "unat (x :: u32) < 4294967296"
  using unsigned_less [of x, where ?'a = nat] by simp

lemma u64_bound: "unat (x :: u64) < 18446744073709551616"
  using unsigned_less [of x, where ?'a = nat] by simp

lemma unat_pos_iff [word_nat]: "0 < unat x \<longleftrightarrow> x \<noteq> 0" for x :: "'a::len word"
  by (simp add: unat_gt_0)

lemma unat_of_nat_u32: "n < 4294967296 \<Longrightarrow> unat (word_of_nat n :: u32) = n"
  by (simp add: unat_of_nat)

lemma unat_of_nat_u64: "n < 18446744073709551616 \<Longrightarrow> unat (word_of_nat n :: u64) = n"
  by (simp add: unat_of_nat)

lemma unat_ucast_u64 [simp]: "unat (ucast (x :: u32) :: u64) = unat x"
  using u32_bound [of x] by (simp add: unsigned_ucast_eq take_bit_nat_eq_self)

lemmas [word_nat] = word_less_nat_alt word_le_nat_alt unat_sub unat_word_ariths

lemma unat_inc_u32: "unat x < 4294967295 \<Longrightarrow> unat (x + 1 :: u32) = unat x + 1"
  by (simp add: unat_word_ariths)

lemma unat_dec: "0 < x \<Longrightarrow> unat (x - 1) = unat x - 1" for x :: "'a::len word"
  by (subst unat_sub) (auto simp: word_le_nat_alt word_less_nat_alt)

lemma unat_push_bit_1: "n < LENGTH('a) \<Longrightarrow> unat (push_bit n (1 :: 'a::len word)) = 2 ^ n"
  by (simp only: unsigned_push_bit_eq) (simp add: push_bit_of_1 take_bit_nat_eq_self)

lemma word_less_inc: "x + 1 \<noteq> 0 \<Longrightarrow> x < x + 1" for x :: "'a::len word"
  by (simp add: word_less_nat_alt unatSuc add.commute [of _ 1])

lemma bit_beyond: "LENGTH('a::len) \<le> n \<Longrightarrow> \<not> bit (w :: 'a word) n"
  using bit_imp_le_length by (metis not_le)

lemma be32_of_be32: "length bs = 4 \<Longrightarrow> be32 (of_be32 bs) = bs"
proof -
  assume "length bs = 4"
  then obtain a b c d where bs: "bs = [a, b, c, d]" by (auto simp: length_Suc_conv numeral_eq_Suc)
  show ?thesis unfolding bs be32_def of_be32.simps
    by (auto simp: bit_simps bit_beyond intro!: bit_word_eqI)
qed

lemma be64_of_be64: "length bs = 8 \<Longrightarrow> be64 (of_be64 bs) = bs"
proof -
  assume l: "length bs = 8"
  have "ucast (drop_bit 32 (of_be64 bs)) = of_be32 (take 4 bs)" "ucast (of_be64 bs) = of_be32 (drop 4 bs)"
    unfolding of_be64_def by (auto simp: bit_simps bit_beyond intro!: bit_word_eqI)
  then show ?thesis using l by (simp add: be64_def be32_of_be32)
qed

end
