(* ===== verification/Netip.thy ===== *)
theory Netip
  imports Prelude
begin

text \<open>
  The part of Go's \<open>net/netip\<close> that the modelled code uses: addresses, prefixes, masking,
  membership, and the binary forms of \<open>MarshalBinary\<close> and \<open>AsSlice\<close>.
  An IPv6 address is the pair of its upper and lower 64 bits, as \<open>netip\<close> keeps it, and its
  zone. The zero \<open>netip.Addr\<close> is \<open>NoAddr\<close>, the zero (invalid) \<open>netip.Prefix\<close> is
  \<open>None\<close>.
\<close>

datatype addr = NoAddr | Addr4 u32 | Addr6 u64 u64 string

record prefix =
  pfx_addr :: addr
  pfx_bits :: nat

fun addr_valid :: "addr \<Rightarrow> bool" where
  "addr_valid NoAddr = False"
| "addr_valid _ = True"

fun is4 :: "addr \<Rightarrow> bool" where
  "is4 (Addr4 _) = True"
| "is4 _ = False"

fun bit_len :: "addr \<Rightarrow> nat" where
  "bit_len NoAddr = 0"
| "bit_len (Addr4 _) = 32"
| "bit_len (Addr6 _ _ _) = 128"

text \<open>The two halves of \<open>mask6\<close>: the upper \<open>n\<close> of 128 bits set.\<close>

definition mask_hi :: "nat \<Rightarrow> u64" where
  "mask_hi n = NOT (drop_bit n (- 1))"

definition mask_lo :: "nat \<Rightarrow> u64" where
  "mask_lo n = push_bit (128 - n) (- 1)"

fun mask_addr :: "addr \<Rightarrow> nat \<Rightarrow> addr" where
  "mask_addr NoAddr _ = NoAddr"
| "mask_addr (Addr4 a) n = Addr4 (a AND push_bit (32 - n) (- 1))"
| "mask_addr (Addr6 h l _) n = Addr6 (h AND mask_hi n) (l AND mask_lo n) []"

definition masked :: "prefix \<Rightarrow> prefix" where
  "masked p = p\<lparr>pfx_addr := mask_addr (pfx_addr p) (pfx_bits p)\<rparr>"

text \<open>A prefix \<open>netip.PrefixFrom\<close> makes: a valid address without a zone, bits within its length.\<close>

fun prefix_valid :: "prefix \<Rightarrow> bool" where
  "prefix_valid p = (case pfx_addr p of
       NoAddr \<Rightarrow> False
     | Addr4 _ \<Rightarrow> pfx_bits p \<le> 32
     | Addr6 _ _ z \<Rightarrow> pfx_bits p \<le> 128 \<and> z = [])"

declare prefix_valid.simps [simp del]

fun contains_addr :: "addr \<Rightarrow> nat \<Rightarrow> addr \<Rightarrow> bool" where
  "contains_addr (Addr4 b) n (Addr4 a) = (drop_bit (32 - n) (a XOR b) = 0)"
| "contains_addr (Addr6 bh bl _) n (Addr6 h l z) =
     (z = [] \<and> (h XOR bh) AND mask_hi n = 0 \<and> (l XOR bl) AND mask_lo n = 0)"
| "contains_addr _ _ _ = False"

definition contains :: "prefix \<Rightarrow> addr \<Rightarrow> bool" where
  "contains p a = contains_addr (pfx_addr p) (pfx_bits p) a"

section \<open>Binary forms\<close>

fun as_slice :: "addr \<Rightarrow> bytes" where
  "as_slice NoAddr = []"
| "as_slice (Addr4 a) = be32 a"
| "as_slice (Addr6 h l _) = be64 h @ be64 l"

definition addr_from_slice :: "bytes \<Rightarrow> addr" where
  "addr_from_slice bs =
     (if length bs = 4 then Addr4 (of_be32 bs)
      else if length bs = 16 then Addr6 (of_be64 (take 8 bs)) (of_be64 (drop 8 bs)) []
      else NoAddr)"

fun addr_marshal :: "addr \<Rightarrow> bytes" where
  "addr_marshal (Addr6 h l z) = be64 h @ be64 l @ str_bytes z"
| "addr_marshal a = as_slice a"

definition addr_unmarshal :: "bytes \<Rightarrow> addr option" where
  "addr_unmarshal bs =
     (if bs = [] then Some NoAddr
      else if length bs = 4 then Some (Addr4 (of_be32 bs))
      else if length bs \<ge> 16
      then Some (Addr6 (of_be64 (take 8 bs)) (of_be64 (take 8 (drop 8 bs))) (bytes_str (drop 16 bs)))
      else None)"

fun without_zone :: "addr \<Rightarrow> addr" where
  "without_zone (Addr6 h l _) = Addr6 h l []"
| "without_zone a = a"

definition prefix_from :: "addr \<Rightarrow> nat \<Rightarrow> prefix option" where
  "prefix_from a n =
     (if addr_valid a \<and> n \<le> bit_len a
      then Some \<lparr>pfx_addr = without_zone a, pfx_bits = n\<rparr> else None)"

fun prefix_marshal :: "prefix option \<Rightarrow> bytes" where
  "prefix_marshal None = [255]"
| "prefix_marshal (Some p) = as_slice (pfx_addr p) @ [word_of_nat (pfx_bits p)]"

definition prefix_unmarshal :: "bytes \<Rightarrow> prefix option option" where
  "prefix_unmarshal bs =
     (if bs = [] then None
      else (case addr_unmarshal (butlast bs) of
              None \<Rightarrow> None
            | Some a \<Rightarrow> Some (prefix_from a (unat (last bs)))))"

section \<open>Facts\<close>

lemma addr_from_slice_as_slice [simp]:
  "addr_from_slice (as_slice a) = without_zone a"
  by (cases a) (simp_all add: addr_from_slice_def)

lemma as_slice_inj:
  "as_slice a = as_slice b \<Longrightarrow> without_zone a = without_zone b"
  by (metis addr_from_slice_as_slice)

lemma addr_unmarshal_marshal [simp]: "addr_unmarshal (addr_marshal a) = Some a"
  by (cases a) (auto simp: addr_unmarshal_def)

lemma length_addr_marshal_6: "length (addr_marshal (Addr6 h l z)) = 16 + length z"
  by simp

lemma prefix_unmarshal_marshal [simp]:
  assumes "\<And>p. q = Some p \<Longrightarrow> prefix_valid p"
  shows "prefix_unmarshal (prefix_marshal q) = Some q"
proof (cases q)
  case None
  then show ?thesis by (simp add: prefix_unmarshal_def addr_unmarshal_def prefix_from_def)
next
  case (Some p)
  obtain a n where p: "p = \<lparr>pfx_addr = a, pfx_bits = n\<rparr>" by (cases p) auto
  have valid: "prefix_valid p" using assms Some by simp
  have "n \<le> 128" using valid p by (auto simp: prefix_valid.simps split: addr.splits)
  then have n: "unat (word_of_nat n :: u8) = n" by (simp add: unat_of_nat)
  have "addr_unmarshal (as_slice a) = Some a" "without_zone a = a" "addr_valid a" "n \<le> bit_len a"
    using valid p by (auto split: addr.splits simp: prefix_valid.simps addr_unmarshal_def bytes_str_def)
  then show ?thesis using Some p n by (simp add: prefix_unmarshal_def prefix_from_def)
qed

lemma contains_valid: "contains p a \<Longrightarrow> addr_valid a \<and> without_zone a = a"
  by (cases a; cases "pfx_addr p") (auto simp: contains_def)

lemma contains_is4: "contains p a \<Longrightarrow> is4 a = is4 (pfx_addr p)"
  by (cases a; cases "pfx_addr p") (auto simp: contains_def)

subsection \<open>Adding an offset below the host bits\<close>

text \<open>
  A word whose low \<open>h\<close> bits are clear absorbs an addend below \<open>2 ^ h\<close> without a carry:
  the sum and the word differ exactly in the bits of the addend.
\<close>

lemma drop_bit_small:
  fixes x :: "'a::len word"
  assumes "unat x < 2 ^ h"
  shows "drop_bit h x = 0"
proof -
  have "unat (drop_bit h x) = unat x div 2 ^ h" by (subst unat_drop_bit_eq) (rule drop_bit_eq_div)
  also have "\<dots> = 0" using assms by simp
  finally show ?thesis by (simp only: unat_eq_zero)
qed

lemma add_xor_low:
  fixes b x :: "'a::len word"
  assumes "take_bit h b = 0" and "unat x < 2 ^ h"
  shows "(b + x) XOR b = x"
proof -
  have b: "\<not> bit b n" if "n < h" for n
  proof -
    have "\<not> bit (take_bit h b) n" by (simp add: assms(1))
    with that show ?thesis by (simp add: bit_take_bit_iff)
  qed
  have x: "\<not> bit x n" if "n \<ge> h" for n
  proof -
    have "drop_bit h x = 0" using assms(2) by (rule drop_bit_small)
    then have "\<not> bit (drop_bit h x) (n - h)" by simp
    with that show ?thesis by (simp add: bit_drop_bit_eq)
  qed
  have disj: "\<not> (bit b n \<and> bit x n)" for n
    using b [of n] x [of n] by (cases "n < h") auto
  then have "b + x = b OR x"
    by (intro disjunctive_add_eq_or bit_word_eqI) (simp add: bit_and_iff)
  then show ?thesis
    using disj by (auto intro!: bit_word_eqI simp: bit_or_iff bit_xor_iff)
qed

end
