(* ===== verification/FakeIP_Pool.thy ===== *)
theory FakeIP_Pool
  imports Netip
begin

text \<open>
  One FakeIP address range: \<open>pool\<close> of \<open>dns/transport/fakeip/store.go\<close>, with its records.

  The Go code shares \<open>*record\<close> pointers between the index of domains, the table of offsets
  and the lists of pending changes, and compares them by identity. The model keeps the records
  of a pool in a heap (\<open>p_heap\<close>, indexed by pointers of type \<open>rid\<close>; \<open>p_fresh\<close> is
  the next unused pointer) and the tables hold pointers. \<open>byName\<close> is a map; \<open>byOffset\<close>,
  which the code iterates over, is an association list whose order stands for the unspecified
  iteration order of a Go map.
\<close>

type_synonym rid = nat

record rec =
  r_domain :: string
  r_offset :: u32
  r_lastUse :: u64
  r_dirty :: bool
  r_removing :: bool

record pool =
  p_prefix :: prefix
  p_base :: addr
  p_first :: u32
  p_end :: u32
  p_heap :: "rid \<Rightarrow> rec"
  p_fresh :: rid
  p_byName :: "string \<rightharpoonup> rid"
  p_byOffset :: "(u32 \<times> rid) list"
  p_next :: u32
  p_advanced :: u64
  p_step :: u32
  p_budget :: u32
  p_reserved :: bool
  p_reserveLast :: u32
  p_dirty :: "rid list"
  p_expired :: "(rid \<times> u64) list"
  p_forgotten :: "u32 list"
  p_limit :: nat
  p_max :: u32

definition held :: "rec \<Rightarrow> bool" where
  "held r = (r_domain r = [])"

definition useTick :: "u64 \<Rightarrow> u32" where
  "useTick lastUse = ucast (drop_bit 32 lastUse)"

definition since :: "u32 \<Rightarrow> u64 \<Rightarrow> u32" where
  "since now lastUse = (if useTick lastUse < now then now - useTick lastUse else 0)"

section \<open>The range\<close>

definition firstOffset :: u32 where "firstOffset = 2"
definition reserveStep :: u32 where "reserveStep = 1024"
definition recordLimit :: u32 where "recordLimit = 65536"

definition blank_rec :: rec where
  "blank_rec = \<lparr>r_domain = [], r_offset = 0, r_lastUse = 0, r_dirty = False, r_removing = False\<rparr>"

definition usable :: "pool \<Rightarrow> u32" where
  "usable p = (if p_end p \<le> p_first p then 0 else p_end p - p_first p)"

definition pool_end :: "prefix \<Rightarrow> u32" where
  "pool_end pre =
     (let hostBits = bit_len (pfx_addr pre) - pfx_bits pre in
      if hostBits < 32 then push_bit hostBits 1 - 1 else - 1)"

definition newPool :: "prefix \<Rightarrow> pool" where
  "newPool prefix0 =
     (let pre = masked prefix0;
          p = \<lparr>p_prefix = pre, p_base = pfx_addr pre, p_first = firstOffset, p_end = pool_end pre,
               p_heap = (\<lambda>_. blank_rec), p_fresh = 0, p_byName = Map.empty, p_byOffset = [],
               p_next = firstOffset, p_advanced = 0, p_step = 0, p_budget = 0, p_reserved = False,
               p_reserveLast = 0, p_dirty = [], p_expired = [], p_forgotten = [], p_limit = 0,
               p_max = 0\<rparr>;
          u = usable p in
      if u = 0 then p
      else
        let limit = unat (min (max (u div 4) (min u 256)) recordLimit) in
        p\<lparr>p_step := min reserveStep (max (u div 4) 1),
          p_limit := limit,
          p_max := (if limit * 2 < unat u then word_of_nat limit * 2 else u)\<rparr>)"

definition full :: "pool \<Rightarrow> bool" where
  "full p = (p_max p \<le> word_of_nat (length (p_byOffset p)))"

definition room :: "pool \<Rightarrow> u32" where
  "room p = max (word_of_nat (length (p_byOffset p)) div 16) 1"

definition address :: "pool \<Rightarrow> u32 \<Rightarrow> addr" where
  "address p offset =
     (case p_base p of
        Addr4 b \<Rightarrow> Addr4 (b + offset)
      | Addr6 h l _ \<Rightarrow> Addr6 h (l + ucast offset) []
      | NoAddr \<Rightarrow> Addr6 0 (ucast offset) [])"

definition in_range :: "pool \<Rightarrow> u64 \<Rightarrow> u32 option" where
  "in_range p off = (if ucast (p_end p) \<le> off then None else Some (ucast off))"

definition offset_of :: "pool \<Rightarrow> addr \<Rightarrow> u32 option" where
  "offset_of p a =
     (if \<not> contains (p_prefix p) a then None
      else
        (case (p_base p, a) of
           (Addr4 b, Addr4 x) \<Rightarrow> in_range p (ucast (x - b))
         | (Addr6 bh bl _, Addr6 h l _) \<Rightarrow> if h \<noteq> bh then None else in_range p (l - bl)
         | _ \<Rightarrow> None))"

definition after :: "pool \<Rightarrow> u32 \<Rightarrow> u32" where
  "after p offset =
     (if offset < p_first p \<or> p_end p - 1 \<le> offset then p_first p else offset + 1)"

definition ahead :: "pool \<Rightarrow> u32 \<Rightarrow> u32 \<Rightarrow> u32" where
  "ahead p offset count =
     p_first p + ucast ((ucast (offset - p_first p) + ucast count :: u64) mod ucast (usable p))"

section \<open>Records\<close>

abbreviation rec_at :: "pool \<Rightarrow> u32 \<Rightarrow> rid option" where
  "rec_at p \<equiv> map_of (p_byOffset p)"

definition upd_rec :: "rid \<Rightarrow> (rec \<Rightarrow> rec) \<Rightarrow> pool \<Rightarrow> pool" where
  "upd_rec i f p = p\<lparr>p_heap := (p_heap p)(i := f (p_heap p i))\<rparr>"

text \<open>A new record, stored in the table of offsets: \<open>p.byOffset[offset] = &record{...}\<close>.\<close>

definition put_rec :: "rec \<Rightarrow> pool \<Rightarrow> pool" where
  "put_rec r p =
     p\<lparr>p_heap := (p_heap p)(p_fresh p := r), p_fresh := Suc (p_fresh p),
       p_byOffset := AList.update (r_offset r) (p_fresh p) (p_byOffset p)\<rparr>"

definition pool_remove :: "rid \<Rightarrow> pool \<Rightarrow> pool" where
  "pool_remove i p =
     (let r = p_heap p i; p' = p\<lparr>p_byOffset := AList.delete (r_offset r) (p_byOffset p)\<rparr> in
      if \<not> held r \<and> p_byName p (r_domain r) = Some i
      then p'\<lparr>p_byName := (p_byName p)(r_domain r := None)\<rparr> else p')"

text \<open>How many addresses ago the address of a record was given out (\<open>age\<close> of \<open>restore\<close>).\<close>

definition age :: "pool \<Rightarrow> rid \<Rightarrow> u64" where
  "age p i =
     (ucast (p_next p - p_first p) + ucast (usable p) - 1
        - ucast (r_offset (p_heap p i) - p_first p)) mod ucast (usable p)"

definition restore_rec :: "u32 \<Rightarrow> rid \<Rightarrow> pool \<Rightarrow> pool" where
  "restore_rec tick i p =
     (let p1 = upd_rec i (\<lambda>r. r\<lparr>r_lastUse :=
            push_bit 32 (ucast tick) OR
            ucast (ucast (ucast (usable p) - 1 - age p i) :: u32)\<rparr>) p;
          d = r_domain (p_heap p i) in
      case p_byName p d of
        None \<Rightarrow> p1\<lparr>p_byName := (p_byName p)(d \<mapsto> i)\<rparr>
      | Some other \<Rightarrow>
          if age p i < age p other then p1\<lparr>p_byName := (p_byName p)(d \<mapsto> i)\<rparr> else p1)"

definition restore_next :: "pool \<Rightarrow> addr \<Rightarrow> pool \<times> u32 option" where
  "restore_next p current =
     (let last = (if addr_valid current then offset_of p current else None) in
      case last of
        Some l \<Rightarrow> (p\<lparr>p_next := after p l\<rparr>, last)
      | None \<Rightarrow>
          if p_byOffset p \<noteq> []
          then (p\<lparr>p_next := after p (fold (\<lambda>(o', _) h. max h o') (p_byOffset p) 0)\<rparr>, None)
          else (p\<lparr>p_next := p_first p\<rparr>, None))"

definition restore :: "pool \<Rightarrow> addr \<Rightarrow> u32 \<Rightarrow> pool \<times> u32 option" where
  "restore p current tick =
     (let (p1, last) = restore_next p current in
      (fold (\<lambda>(_, i). restore_rec tick i) (p_byOffset p1) p1, last))"

definition hold_one :: "u32 \<Rightarrow> u64 \<Rightarrow> u32 \<Rightarrow> pool \<Rightarrow> pool" where
  "hold_one l lastUse back p =
     (let offset = ahead p l (usable p - back) in
      if rec_at p offset = None
      then put_rec \<lparr>r_domain = [], r_offset = offset, r_lastUse = lastUse, r_dirty = False,
                    r_removing = False\<rparr> p
      else p)"

definition hold :: "u32 \<Rightarrow> u64 \<Rightarrow> pool \<Rightarrow> pool" where
  "hold l lastUse p =
     (if l < p_first p then p
      else fold (hold_one l lastUse) (map word_of_nat [0..<unat (p_step p)]) p)"

definition oldest :: "pool \<Rightarrow> u32 \<Rightarrow> u32 \<Rightarrow> u32 \<Rightarrow> (rid \<times> u64) list" where
  "oldest p count protect tick =
     (let all = map (\<lambda>(_, i). (i, r_lastUse (p_heap p i))) (p_byOffset p);
          live = filter (\<lambda>(i, _). \<not> r_removing (p_heap p i)) all;
          heldBack = filter (\<lambda>(i, _). held (p_heap p i)) live;
          used = filter (\<lambda>(i, lastUse). \<not> held (p_heap p i) \<and> protect \<le> since tick lastUse) live;
          candidates = (if used = [] \<and> protect = 0 then heldBack else used);
          sorted = sort_key snd candidates in
      if count < word_of_nat (length sorted) then take (unat count) sorted else sorted)"

section \<open>Allocation\<close>

text \<open>
  The loop of \<open>allocate\<close>: step over offsets in use. The result is the offset found, or
  \<open>None\<close> inside \<open>Some\<close> when the saved reserve is used up; no result at all stands for a
  loop that does not end.
\<close>

definition alloc_step :: "bool \<Rightarrow> pool \<Rightarrow> pool" where
  "alloc_step saved p =
     p\<lparr>p_next := after p (p_next p), p_advanced := p_advanced p + 1,
       p_budget := (if saved \<and> 0 < p_budget p then p_budget p - 1 else p_budget p)\<rparr>"

partial_function (option) alloc_loop :: "bool \<Rightarrow> bool \<Rightarrow> pool \<Rightarrow> (pool \<times> u32 option) option" where
  "alloc_loop saved failed p =
     (if saved \<and> p_budget p = 0 \<and> \<not> failed then Some (p, None)
      else if rec_at p (p_next p) \<noteq> None then alloc_loop saved failed (alloc_step saved p)
      else Some (alloc_step saved p, Some (p_next p)))"

declare alloc_loop.simps [code]

section \<open>The fixed part of a range\<close>

definition pool_static :: "pool \<Rightarrow> bool" where
  "pool_static p \<longleftrightarrow>
     prefix_valid (p_prefix p) \<and> masked (p_prefix p) = p_prefix p \<and>
     p_base p = pfx_addr (p_prefix p) \<and> p_first p = firstOffset \<and>
     p_end p = pool_end (p_prefix p) \<and> p_first p < p_end p \<and>
     0 < p_step p \<and> p_step p \<le> usable p \<and> 0 < p_max p \<and> p_max p \<le> usable p"

definition in_ring :: "pool \<Rightarrow> u32 \<Rightarrow> bool" where
  "in_ring p o' \<longleftrightarrow> p_first p \<le> o' \<and> o' < p_end p"

text \<open>The place of an offset in the ring, counted from the first offset.\<close>

definition pos :: "pool \<Rightarrow> u32 \<Rightarrow> nat" where
  "pos p o' = unat o' - unat (p_first p)"

lemma mask_addr_idem: "mask_addr (mask_addr a n) n = mask_addr a n"
  by (cases a) (auto simp: and.assoc)

lemma masked_masked [simp]: "masked (masked pre) = masked pre"
  by (simp add: masked_def mask_addr_idem)

lemma prefix_valid_masked: "prefix_valid pre \<Longrightarrow> prefix_valid (masked pre)"
  by (auto simp: masked_def prefix_valid.simps split: addr.splits)

lemma min_step_bounds:
  fixes u :: u32
  assumes "u \<noteq> 0"
  shows "0 < min reserveStep (max (u div 4) 1)" "min reserveStep (max (u div 4) 1) \<le> u"
proof -
  have "unat (u div 4) \<le> unat u" by (simp add: unat_div)
  then have "u div 4 \<le> u" by (simp add: word_le_nat_alt)
  moreover have "1 \<le> u" using assms by (simp add: word_le_nat_alt Suc_le_eq unat_gt_0)
  ultimately show "min reserveStep (max (u div 4) 1) \<le> u" by (auto simp: min_le_iff_disj)
  show "0 < min reserveStep (max (u div 4) 1)"
    by (auto simp: reserveStep_def less_max_iff_disj)
qed

lemma newPool_static:
  assumes "prefix_valid pre" and "usable (newPool pre) \<noteq> 0"
  shows "pool_static (newPool pre)"
proof -
  define q where "q = (newPool pre)\<lparr>p_step := 0, p_limit := 0, p_max := 0\<rparr>"
  define u where "u = usable (newPool pre)"
  define limit where "limit = unat (min (max (u div 4) (min u 256)) recordLimit)"
  have u: "u \<noteq> 0" using assms(2) by (simp add: u_def)
  have fields: "p_prefix (newPool pre) = masked pre" "p_base (newPool pre) = pfx_addr (masked pre)"
    "p_first (newPool pre) = firstOffset" "p_end (newPool pre) = pool_end (masked pre)"
    by (simp_all add: newPool_def Let_def)
  have usable: "u = (if pool_end (masked pre) \<le> firstOffset then 0 else pool_end (masked pre) - firstOffset)"
    by (simp add: u_def usable_def fields)
  with u have lt: "firstOffset < pool_end (masked pre)" by (auto split: if_splits)
  have step: "p_step (newPool pre) = min reserveStep (max (u div 4) 1)"
    and max: "p_max (newPool pre) = (if limit * 2 < unat u then word_of_nat limit * 2 else u)"
    using u lt by (auto simp: newPool_def Let_def usable_def usable limit_def)
  have "u div 4 \<le> u" by (simp add: word_le_nat_alt unat_div)
  have lim0: "0 < limit"
  proof -
    have "0 < min u 256" using u by (simp add: word_neq_0_conv min_def)
    then have "0 < min (max (u div 4) (min u 256)) recordLimit"
      by (simp add: recordLimit_def less_max_iff_disj)
    then show ?thesis by (simp add: limit_def unat_gt_0 word_neq_0_conv)
  qed
  have "0 < p_max (newPool pre) \<and> p_max (newPool pre) \<le> u"
  proof (cases "limit * 2 < unat u")
    case True
    have "limit * 2 < 2 ^ 32" using True u32_bound [of u] by simp
    then have "unat (word_of_nat limit * 2 :: u32) = limit * 2"
      using unat_of_nat [of "limit * 2", where ?'a = 32] by simp
    then show ?thesis using True lim0 max by (simp add: word_less_nat_alt word_le_nat_alt)
  next
    case False
    then show ?thesis using max u by (simp add: word_neq_0_conv)
  qed
  then show ?thesis
    using assms(1) min_step_bounds [OF u] lt
    by (auto simp: pool_static_def fields step prefix_valid_masked u_def)
qed

lemma pool_staticD:
  assumes "pool_static p"
  shows "p_first p = 2" "unat (p_first p) = 2" "p_first p < p_end p"
    "unat (usable p) = unat (p_end p) - 2" "0 < unat (usable p)"
    "0 < unat (p_step p)" "unat (p_step p) \<le> unat (usable p)"
    "0 < unat (p_max p)" "unat (p_max p) \<le> unat (usable p)"
proof -
  have f: "p_first p = 2" and lt: "p_first p < p_end p"
    using assms by (auto simp: pool_static_def firstOffset_def)
  then show "p_first p = 2" "p_first p < p_end p" "unat (p_first p) = 2" by simp_all
  have "usable p = p_end p - 2" using f lt by (auto simp: usable_def)
  moreover have "(2::u32) \<le> p_end p" using f lt by simp
  ultimately show u: "unat (usable p) = unat (p_end p) - 2"
    by (simp add: unat_sub)
  have "2 < unat (p_end p)" using f lt by (simp add: word_less_nat_alt)
  with u show "0 < unat (usable p)" by simp
  show "0 < unat (p_step p)" "unat (p_step p) \<le> unat (usable p)"
    "0 < unat (p_max p)" "unat (p_max p) \<le> unat (usable p)"
    using assms by (auto simp: pool_static_def word_less_nat_alt word_le_nat_alt)
qed

lemma pool_end_less_max: "unat (p_end p) \<le> 4294967295"
  using u32_bound [of "p_end p"] by simp

section \<open>The ring\<close>

lemma pos_less: "pool_static p \<Longrightarrow> in_ring p o' \<Longrightarrow> pos p o' < unat (usable p)"
  by (auto simp: pos_def in_ring_def pool_staticD word_nat)

lemma unat_pos: "pool_static p \<Longrightarrow> in_ring p o' \<Longrightarrow> unat o' = pos p o' + 2"
  by (auto simp: pos_def in_ring_def pool_staticD word_nat)

lemma pos_inj:
  assumes "pool_static p" "in_ring p a" "in_ring p b" "pos p a = pos p b"
  shows "a = b"
  using assms unat_pos [of p a] unat_pos [of p b] by (simp add: word_unat_eq_iff)

lemma in_ring_of_pos:
  assumes "pool_static p" "k < unat (usable p)"
  shows "in_ring p (word_of_nat (k + 2))" "pos p (word_of_nat (k + 2)) = k"
proof -
  have "k + 2 < unat (p_end p)" using assms pool_staticD(4) [OF assms(1)] by simp
  then have "unat (word_of_nat (k + 2) :: u32) = k + 2"
    using u32_bound [of "p_end p"] by (intro unat_of_nat_u32) simp
  with assms \<open>k + 2 < unat (p_end p)\<close> show "in_ring p (word_of_nat (k + 2))"
    "pos p (word_of_nat (k + 2)) = k"
    by (simp_all add: in_ring_def pos_def pool_staticD word_le_nat_alt word_less_nat_alt)
qed

lemma after_cases:
  assumes "pool_static p" "in_ring p o'"
  shows "pos p o' + 1 < unat (usable p) \<and> after p o' = o' + 1 \<and> unat (o' + 1) = unat o' + 1 \<or>
    pos p o' + 1 = unat (usable p) \<and> after p o' = p_first p"
proof -
  have e: "0 < p_end p" using pool_staticD(1,3) [OF assms(1)] by (simp add: word_less_nat_alt)
  have lt: "unat o' < unat (p_end p)" using assms(2) by (simp add: in_ring_def word_less_nat_alt)
  have ge: "\<not> o' < p_first p" using assms(2) by (simp add: in_ring_def not_less)
  note pos = unat_pos [OF assms]
  show ?thesis
  proof (cases "p_end p - 1 \<le> o'")
    case True
    then have "unat o' + 1 = unat (p_end p)" using lt by (simp add: word_le_nat_alt unat_dec [OF e])
    then have "pos p o' + 1 = unat (usable p)" using pos pool_staticD(4) [OF assms(1)] by linarith
    with True show ?thesis by (simp add: after_def)
  next
    case False
    then have "unat o' + 1 < unat (p_end p)"
      using lt by (simp add: word_le_nat_alt unat_dec [OF e])
    then have "pos p o' + 1 < unat (usable p)" "unat (o' + 1) = unat o' + 1"
      using pos pool_staticD(4) [OF assms(1)] u32_bound [of "p_end p"]
      by (linarith, intro unat_inc_u32, linarith)
    with False ge show ?thesis by (simp add: after_def)
  qed
qed

lemma in_ring_after: "pool_static p \<Longrightarrow> in_ring p (after p o')"
proof -
  assume st: "pool_static p"
  have f: "in_ring p (p_first p)" using pool_staticD(3) [OF st] by (simp add: in_ring_def)
  show ?thesis
  proof (cases "in_ring p o'")
    case True
    from after_cases [OF st True] show ?thesis
    proof
      assume "pos p o' + 1 < unat (usable p) \<and> after p o' = o' + 1 \<and> unat (o' + 1) = unat o' + 1"
      then have "after p o' = o' + 1" "2 \<le> unat (o' + 1)" "unat (o' + 1) < unat (p_end p)"
        using unat_pos [OF st True] pool_staticD(4) [OF st] by linarith+
      then show ?thesis
        by (simp add: in_ring_def word_le_nat_alt word_less_nat_alt pool_staticD(2) [OF st])
    qed (simp add: f)
  next
    case False
    have "p_end p - 1 \<le> o'" if "\<not> o' < p_first p"
    proof -
      have "0 < p_end p" using pool_staticD(1,3) [OF st] by (simp add: word_less_nat_alt)
      with False that show ?thesis by (auto simp: in_ring_def word_le_nat_alt word_less_nat_alt unat_dec)
    qed
    then show ?thesis using f by (auto simp: after_def)
  qed
qed

lemma pos_after:
  assumes "pool_static p" "in_ring p o'"
  shows "pos p (after p o') = (pos p o' + 1) mod unat (usable p)"
proof (cases "pos p o' + 1 < unat (usable p)")
  case True
  then have a: "after p o' = o' + 1" "unat (o' + 1) = unat o' + 1"
    using after_cases [OF assms] by linarith+
  have "unat o' = pos p o' + 2" by (rule unat_pos [OF assms])
  then have "pos p (after p o') = pos p o' + 1"
    unfolding a(1) pos_def [of p "o' + 1"] a(2) pool_staticD(2) [OF assms(1)] by linarith
  then show ?thesis using True by (metis mod_less)
next
  case False
  then have "pos p o' + 1 = unat (usable p)" "after p o' = p_first p"
    using after_cases [OF assms] by linarith+
  moreover have "pos p (p_first p) = 0" by (simp add: pos_def)
  ultimately show ?thesis by (metis mod_self)
qed

lemma ahead_ring:
  assumes "pool_static p" "in_ring p o'"
  shows "in_ring p (ahead p o' c)"
    and "pos p (ahead p o' c) = (pos p o' + unat c) mod unat (usable p)"
proof -
  let ?u = "unat (usable p)"
  have sub: "unat (o' - p_first p) = pos p o'"
    using assms(2) by (simp add: in_ring_def pos_def unat_sub)
  have "pos p o' < ?u" using pos_less [OF assms] .
  then have "unat (ucast (o' - p_first p) + ucast c :: u64) = pos p o' + unat c"
    using u32_bound [of "usable p"] u32_bound [of c] by (simp add: unat_word_ariths sub)
  then have m: "unat ((ucast (o' - p_first p) + ucast c :: u64) mod ucast (usable p))
      = (pos p o' + unat c) mod ?u" (is "unat ?m = ?k")
    by (simp add: unat_mod)
  have k: "?k < ?u" using pool_staticD(5) [OF assms(1)] by simp
  have "unat (ucast ?m :: u32) = ?k"
    using k u32_bound [of "usable p"]
    by (simp only: unsigned_ucast_eq m) (simp add: take_bit_nat_eq_self)
  moreover have end_: "?k + 2 < unat (p_end p)" using k pool_staticD(4) [OF assms(1)] by linarith
  moreover have "?k + 2 < 4294967296" using end_ u32_bound [of "p_end p"] by linarith
  ultimately have a: "unat (ahead p o' c) = ?k + 2"
    using pool_staticD(2) [OF assms(1)] by (simp only: ahead_def unat_word_ariths) simp
  then show "in_ring p (ahead p o' c)" "pos p (ahead p o' c) = ?k"
    using end_ pool_staticD(2) [OF assms(1)]
    by (simp_all only: in_ring_def pos_def word_le_nat_alt word_less_nat_alt) simp_all
qed

lemmas in_ring_ahead = ahead_ring(1)
lemmas pos_ahead = ahead_ring(2)

section \<open>Addresses and offsets\<close>

text \<open>The host bits of a masked prefix are clear, and every offset below \<open>p_end\<close> fits in them.\<close>

lemma unat_pool_end_less:
  fixes o' :: u32
  assumes "bit_len (pfx_addr pre) - pfx_bits pre = h" "unat o' < unat (pool_end pre)"
  shows "unat o' < 2 ^ h"
proof (cases "h < 32")
  case True
  then have "unat (push_bit h (1 :: u32)) = 2 ^ h"
    by (intro unat_push_bit_1) simp
  then have "unat (push_bit h (1 :: u32) - 1) = 2 ^ h - 1"
    by (subst unat_sub) (simp_all add: word_le_nat_alt)
  with True assms show ?thesis by (simp add: pool_end_def Let_def)
next
  case False
  then have "(2::nat) ^ 32 \<le> 2 ^ h" by (intro power_increasing) auto
  then show ?thesis using u32_bound [of o'] by simp
qed

lemma take_bit_masked4: "take_bit (32 - n) (a AND push_bit (32 - n) (- 1) :: u32) = 0"
  by (rule bit_word_eqI) (auto simp: bit_simps)

lemma take_bit_masked_lo: "take_bit (128 - n) (a AND mask_lo n) = 0"
  by (rule bit_word_eqI) (auto simp: bit_simps mask_lo_def)

lemma xor_mask_lo_zero:
  assumes "unat x < 2 ^ (128 - n)"
  shows "x AND mask_lo n = 0"
proof (rule bit_word_eqI)
  fix k :: nat
  have "drop_bit (128 - n) x = 0" using assms by (rule drop_bit_small)
  then have "\<not> bit x k" if "128 - n \<le> k"
    using that bit_drop_bit_eq [of "128 - n" x] by (auto simp: fun_eq_iff dest: spec [of _ "k - (128 - n)"])
  then show "bit (x AND mask_lo n) k = bit 0 k"
    by (cases "128 - n \<le> k") (simp_all add: bit_simps mask_lo_def)
qed

lemma contains_address:
  assumes "pool_static p" "o' < p_end p"
  shows "contains (p_prefix p) (address p o')"
proof -
  let ?pre = "p_prefix p"
  have base: "p_base p = pfx_addr ?pre" and valid: "prefix_valid ?pre"
    and e: "p_end p = pool_end ?pre" and "masked ?pre = ?pre"
    using assms(1) by (simp_all add: pool_static_def)
  then have "pfx_addr (masked ?pre) = pfx_addr ?pre" by simp
  then have m: "mask_addr (pfx_addr ?pre) (pfx_bits ?pre) = pfx_addr ?pre" by (simp add: masked_def)
  have small: "unat o' < 2 ^ (bit_len (pfx_addr ?pre) - pfx_bits ?pre)"
    using assms(2) e by (intro unat_pool_end_less) (simp_all add: word_less_nat_alt)
  show ?thesis
  proof (cases "pfx_addr ?pre")
    case NoAddr
    then show ?thesis using valid by (simp add: prefix_valid.simps)
  next
    case (Addr4 b)
    then have "take_bit (32 - pfx_bits ?pre) b = 0"
      using m take_bit_masked4 [of "pfx_bits ?pre" b] by simp
    then have "(b + o') XOR b = o'" using small Addr4 by (intro add_xor_low) auto
    then show ?thesis using small Addr4
      by (simp add: contains_def address_def base drop_bit_small)
  next
    case (Addr6 h l z)
    then have "take_bit (128 - pfx_bits ?pre) l = 0"
      using m take_bit_masked_lo [of "pfx_bits ?pre" l] by simp
    then have "(l + ucast o') XOR l = ucast o'" using small Addr6 by (intro add_xor_low) auto
    then show ?thesis using small Addr6
      by (simp add: contains_def address_def base xor_mask_lo_zero)
  qed
qed

lemma offset_of_address:
  assumes "pool_static p" "o' < p_end p"
  shows "offset_of p (address p o') = Some o'"
proof -
  have "unat o' < unat (p_end p)" using assms(2) by (simp add: word_less_nat_alt)
  then have r: "in_range p (ucast o') = Some o'"
    by (simp add: in_range_def word_le_nat_alt not_le ucast_down_ucast_id is_down)
  have "prefix_valid (p_prefix p)" "p_base p = pfx_addr (p_prefix p)"
    using assms(1) by (auto simp: pool_static_def)
  then show ?thesis
    using contains_address [OF assms] r
    by (auto simp: offset_of_def address_def prefix_valid.simps split: addr.splits)
qed

lemma address_inj:
  assumes "pool_static p" "a < p_end p" "b < p_end p" "address p a = address p b"
  shows "a = b"
proof -
  have "Some a = Some b"
    using offset_of_address [OF assms(1,2)] offset_of_address [OF assms(1,3)]
    by (simp only: assms(4))
  then show ?thesis by (rule option.inject [THEN iffD1])
qed

lemma address_of_offset:
  assumes "pool_static p" "offset_of p a = Some o'"
  shows "address p o' = a \<and> o' < p_end p"
proof -
  have "ucast (ucast off :: u32) = off \<and> (ucast off :: u32) < p_end p"
    if "in_range p off = Some o'" for off :: u64
  proof -
    have "unat off < unat (p_end p)"
      using that by (auto simp: in_range_def word_le_nat_alt not_le split: if_splits)
    then have "unat (ucast off :: u32) = unat off"
      using u32_bound [of "p_end p"] by (simp add: unsigned_ucast_eq take_bit_nat_eq_self)
    then show ?thesis using \<open>unat off < unat (p_end p)\<close>
      by (simp add: word_unat_eq_iff word_less_nat_alt)
  qed
  moreover have "ucast (ucast (x - b) :: u64) = x - b" for x b :: u32
    by (simp add: ucast_down_ucast_id is_down)
  ultimately show ?thesis
    using assms(2) contains_valid [of "p_prefix p" a]
    by (fastforce simp: offset_of_def address_def in_range_def split: addr.splits if_splits)
qed

end
