(* ===== verification/FakeIP_Alloc.thy ===== *)
theory FakeIP_Alloc
  imports FakeIP_Pool
begin

text \<open>
  The table of one FakeIP range: the invariant that ties the index of domains, the table of
  offsets and the records together, that every operation on the range keeps it, and the
  behaviour of the allocation loop.
\<close>

section \<open>Operations leave the range alone\<close>

text \<open>The geometry of a range depends on its fixed fields only.\<close>

lemma usable_upd [simp]:
  "usable (p\<lparr>p_heap := x_heap\<rparr>) = usable p"
  "usable (p\<lparr>p_fresh := x_fresh\<rparr>) = usable p"
  "usable (p\<lparr>p_byName := x_byName\<rparr>) = usable p"
  "usable (p\<lparr>p_byOffset := x_byOffset\<rparr>) = usable p"
  "usable (p\<lparr>p_next := x_next\<rparr>) = usable p"
  "usable (p\<lparr>p_advanced := x_advanced\<rparr>) = usable p"
  "usable (p\<lparr>p_budget := x_budget\<rparr>) = usable p"
  "usable (p\<lparr>p_reserved := x_reserved\<rparr>) = usable p"
  "usable (p\<lparr>p_reserveLast := x_reserveLast\<rparr>) = usable p"
  "usable (p\<lparr>p_dirty := x_dirty\<rparr>) = usable p"
  "usable (p\<lparr>p_expired := x_expired\<rparr>) = usable p"
  "usable (p\<lparr>p_forgotten := x_forgotten\<rparr>) = usable p"
  by (simp_all add: usable_def)

lemma address_upd [simp]:
  "address (p\<lparr>p_heap := x_heap\<rparr>) = address p"
  "address (p\<lparr>p_fresh := x_fresh\<rparr>) = address p"
  "address (p\<lparr>p_byName := x_byName\<rparr>) = address p"
  "address (p\<lparr>p_byOffset := x_byOffset\<rparr>) = address p"
  "address (p\<lparr>p_next := x_next\<rparr>) = address p"
  "address (p\<lparr>p_advanced := x_advanced\<rparr>) = address p"
  "address (p\<lparr>p_budget := x_budget\<rparr>) = address p"
  "address (p\<lparr>p_reserved := x_reserved\<rparr>) = address p"
  "address (p\<lparr>p_reserveLast := x_reserveLast\<rparr>) = address p"
  "address (p\<lparr>p_dirty := x_dirty\<rparr>) = address p"
  "address (p\<lparr>p_expired := x_expired\<rparr>) = address p"
  "address (p\<lparr>p_forgotten := x_forgotten\<rparr>) = address p"
  by (simp_all add: address_def fun_eq_iff)

lemma offset_of_upd [simp]:
  "offset_of (p\<lparr>p_heap := x_heap\<rparr>) = offset_of p"
  "offset_of (p\<lparr>p_fresh := x_fresh\<rparr>) = offset_of p"
  "offset_of (p\<lparr>p_byName := x_byName\<rparr>) = offset_of p"
  "offset_of (p\<lparr>p_byOffset := x_byOffset\<rparr>) = offset_of p"
  "offset_of (p\<lparr>p_next := x_next\<rparr>) = offset_of p"
  "offset_of (p\<lparr>p_advanced := x_advanced\<rparr>) = offset_of p"
  "offset_of (p\<lparr>p_budget := x_budget\<rparr>) = offset_of p"
  "offset_of (p\<lparr>p_reserved := x_reserved\<rparr>) = offset_of p"
  "offset_of (p\<lparr>p_reserveLast := x_reserveLast\<rparr>) = offset_of p"
  "offset_of (p\<lparr>p_dirty := x_dirty\<rparr>) = offset_of p"
  "offset_of (p\<lparr>p_expired := x_expired\<rparr>) = offset_of p"
  "offset_of (p\<lparr>p_forgotten := x_forgotten\<rparr>) = offset_of p"
  by (simp_all add: offset_of_def in_range_def fun_eq_iff split: addr.splits)

lemma after_upd [simp]:
  "after (p\<lparr>p_heap := x_heap\<rparr>) = after p"
  "after (p\<lparr>p_fresh := x_fresh\<rparr>) = after p"
  "after (p\<lparr>p_byName := x_byName\<rparr>) = after p"
  "after (p\<lparr>p_byOffset := x_byOffset\<rparr>) = after p"
  "after (p\<lparr>p_next := x_next\<rparr>) = after p"
  "after (p\<lparr>p_advanced := x_advanced\<rparr>) = after p"
  "after (p\<lparr>p_budget := x_budget\<rparr>) = after p"
  "after (p\<lparr>p_reserved := x_reserved\<rparr>) = after p"
  "after (p\<lparr>p_reserveLast := x_reserveLast\<rparr>) = after p"
  "after (p\<lparr>p_dirty := x_dirty\<rparr>) = after p"
  "after (p\<lparr>p_expired := x_expired\<rparr>) = after p"
  "after (p\<lparr>p_forgotten := x_forgotten\<rparr>) = after p"
  by (simp_all add: after_def fun_eq_iff)

lemma ahead_upd [simp]:
  "ahead (p\<lparr>p_heap := x_heap\<rparr>) = ahead p"
  "ahead (p\<lparr>p_fresh := x_fresh\<rparr>) = ahead p"
  "ahead (p\<lparr>p_byName := x_byName\<rparr>) = ahead p"
  "ahead (p\<lparr>p_byOffset := x_byOffset\<rparr>) = ahead p"
  "ahead (p\<lparr>p_next := x_next\<rparr>) = ahead p"
  "ahead (p\<lparr>p_advanced := x_advanced\<rparr>) = ahead p"
  "ahead (p\<lparr>p_budget := x_budget\<rparr>) = ahead p"
  "ahead (p\<lparr>p_reserved := x_reserved\<rparr>) = ahead p"
  "ahead (p\<lparr>p_reserveLast := x_reserveLast\<rparr>) = ahead p"
  "ahead (p\<lparr>p_dirty := x_dirty\<rparr>) = ahead p"
  "ahead (p\<lparr>p_expired := x_expired\<rparr>) = ahead p"
  "ahead (p\<lparr>p_forgotten := x_forgotten\<rparr>) = ahead p"
  by (simp_all add: ahead_def usable_def fun_eq_iff)

lemma in_ring_upd [simp]:
  "in_ring (p\<lparr>p_heap := x_heap\<rparr>) = in_ring p"
  "in_ring (p\<lparr>p_fresh := x_fresh\<rparr>) = in_ring p"
  "in_ring (p\<lparr>p_byName := x_byName\<rparr>) = in_ring p"
  "in_ring (p\<lparr>p_byOffset := x_byOffset\<rparr>) = in_ring p"
  "in_ring (p\<lparr>p_next := x_next\<rparr>) = in_ring p"
  "in_ring (p\<lparr>p_advanced := x_advanced\<rparr>) = in_ring p"
  "in_ring (p\<lparr>p_budget := x_budget\<rparr>) = in_ring p"
  "in_ring (p\<lparr>p_reserved := x_reserved\<rparr>) = in_ring p"
  "in_ring (p\<lparr>p_reserveLast := x_reserveLast\<rparr>) = in_ring p"
  "in_ring (p\<lparr>p_dirty := x_dirty\<rparr>) = in_ring p"
  "in_ring (p\<lparr>p_expired := x_expired\<rparr>) = in_ring p"
  "in_ring (p\<lparr>p_forgotten := x_forgotten\<rparr>) = in_ring p"
  by (simp_all add: in_ring_def fun_eq_iff)

lemma pos_upd [simp]:
  "pos (p\<lparr>p_heap := x_heap\<rparr>) = pos p"
  "pos (p\<lparr>p_fresh := x_fresh\<rparr>) = pos p"
  "pos (p\<lparr>p_byName := x_byName\<rparr>) = pos p"
  "pos (p\<lparr>p_byOffset := x_byOffset\<rparr>) = pos p"
  "pos (p\<lparr>p_next := x_next\<rparr>) = pos p"
  "pos (p\<lparr>p_advanced := x_advanced\<rparr>) = pos p"
  "pos (p\<lparr>p_budget := x_budget\<rparr>) = pos p"
  "pos (p\<lparr>p_reserved := x_reserved\<rparr>) = pos p"
  "pos (p\<lparr>p_reserveLast := x_reserveLast\<rparr>) = pos p"
  "pos (p\<lparr>p_dirty := x_dirty\<rparr>) = pos p"
  "pos (p\<lparr>p_expired := x_expired\<rparr>) = pos p"
  "pos (p\<lparr>p_forgotten := x_forgotten\<rparr>) = pos p"
  by (simp_all add: pos_def fun_eq_iff)

lemma pool_static_upd [simp]:
  "pool_static (p\<lparr>p_heap := x_heap\<rparr>) = pool_static p"
  "pool_static (p\<lparr>p_fresh := x_fresh\<rparr>) = pool_static p"
  "pool_static (p\<lparr>p_byName := x_byName\<rparr>) = pool_static p"
  "pool_static (p\<lparr>p_byOffset := x_byOffset\<rparr>) = pool_static p"
  "pool_static (p\<lparr>p_next := x_next\<rparr>) = pool_static p"
  "pool_static (p\<lparr>p_advanced := x_advanced\<rparr>) = pool_static p"
  "pool_static (p\<lparr>p_budget := x_budget\<rparr>) = pool_static p"
  "pool_static (p\<lparr>p_reserved := x_reserved\<rparr>) = pool_static p"
  "pool_static (p\<lparr>p_reserveLast := x_reserveLast\<rparr>) = pool_static p"
  "pool_static (p\<lparr>p_dirty := x_dirty\<rparr>) = pool_static p"
  "pool_static (p\<lparr>p_expired := x_expired\<rparr>) = pool_static p"
  "pool_static (p\<lparr>p_forgotten := x_forgotten\<rparr>) = pool_static p"
  by (simp_all add: pool_static_def usable_def)

lemma full_upd [simp]:
  "full (p\<lparr>p_heap := h\<rparr>) = full p" "full (p\<lparr>p_next := n\<rparr>) = full p"
  "full (p\<lparr>p_byName := m\<rparr>) = full p" "full (p\<lparr>p_budget := b\<rparr>) = full p"
  by (simp_all add: full_def)

section \<open>The invariant of the table\<close>

definition table_ok :: "pool \<Rightarrow> bool" where
  "table_ok p \<longleftrightarrow>
     distinct (map fst (p_byOffset p)) \<and>
     (\<forall>o' i. rec_at p o' = Some i \<longrightarrow> in_ring p o' \<and> r_offset (p_heap p i) = o' \<and> i < p_fresh p) \<and>
     (\<forall>d i. p_byName p d = Some i \<longrightarrow>
        d \<noteq> [] \<and> r_domain (p_heap p i) = d \<and> rec_at p (r_offset (p_heap p i)) = Some i)"

definition pool_inv :: "pool \<Rightarrow> bool" where
  "pool_inv p \<longleftrightarrow> pool_static p \<and> table_ok p \<and> in_ring p (p_next p)"

lemma table_okI:
  assumes "distinct (map fst (p_byOffset p))"
    and "\<And>o' i. rec_at p o' = Some i \<Longrightarrow> in_ring p o' \<and> r_offset (p_heap p i) = o' \<and> i < p_fresh p"
    and "\<And>d i. p_byName p d = Some i \<Longrightarrow>
        d \<noteq> [] \<and> r_domain (p_heap p i) = d \<and> rec_at p (r_offset (p_heap p i)) = Some i"
  shows "table_ok p"
  using assms by (auto simp: table_ok_def)

lemma table_ok_rec:
  assumes "table_ok p" "rec_at p o' = Some i"
  shows "in_ring p o'" "r_offset (p_heap p i) = o'" "i < p_fresh p"
  using assms by (auto simp: table_ok_def)

lemma table_ok_name:
  assumes "table_ok p" "p_byName p d = Some i"
  shows "d \<noteq> []" "r_domain (p_heap p i) = d" "rec_at p (r_offset (p_heap p i)) = Some i"
  using assms by (auto simp: table_ok_def)

lemma table_ok_distinct: "table_ok p \<Longrightarrow> distinct (map fst (p_byOffset p))"
  by (simp add: table_ok_def)

lemma table_ok_inj:
  "table_ok p \<Longrightarrow> rec_at p a = Some i \<Longrightarrow> rec_at p b = Some i \<Longrightarrow> a = b"
  using table_ok_rec(2) by metis

lemma pool_inv_rec:
  assumes "pool_inv p" "rec_at p o' = Some i"
  shows "in_ring p o'" "r_offset (p_heap p i) = o'" "i < p_fresh p"
  using assms table_ok_rec by (auto simp: pool_inv_def)

lemma pool_inv_name:
  assumes "pool_inv p" "p_byName p d = Some i"
  shows "d \<noteq> []" "r_domain (p_heap p i) = d" "rec_at p (r_offset (p_heap p i)) = Some i"
  using assms table_ok_name by (auto simp: pool_inv_def)

lemma pool_inv_newPool:
  assumes "prefix_valid pre" "usable (newPool pre) \<noteq> 0"
  shows "pool_inv (newPool pre)"
proof -
  have st: "pool_static (newPool pre)" using assms by (rule newPool_static)
  have "p_byOffset (newPool pre) = []" "p_byName (newPool pre) = Map.empty"
    "p_next (newPool pre) = firstOffset" "p_first (newPool pre) = firstOffset"
    by (simp_all add: newPool_def Let_def)
  then show ?thesis
    using st pool_staticD(3) [OF st] by (simp add: pool_inv_def table_ok_def in_ring_def)
qed

subsection \<open>Fields no entry of the table depends on\<close>

lemma table_ok_frame [simp]:
  "table_ok (p\<lparr>p_next := v1\<rparr>) = table_ok p" "table_ok (p\<lparr>p_advanced := v2\<rparr>) = table_ok p"
  "table_ok (p\<lparr>p_budget := v3\<rparr>) = table_ok p" "table_ok (p\<lparr>p_reserved := v4\<rparr>) = table_ok p"
  "table_ok (p\<lparr>p_reserveLast := v5\<rparr>) = table_ok p" "table_ok (p\<lparr>p_dirty := v6\<rparr>) = table_ok p"
  "table_ok (p\<lparr>p_expired := v7\<rparr>) = table_ok p" "table_ok (p\<lparr>p_forgotten := v8\<rparr>) = table_ok p"
  by (simp_all add: table_ok_def)

lemma pool_inv_frame [simp]:
  "pool_inv (p\<lparr>p_advanced := v2\<rparr>) = pool_inv p"
  "pool_inv (p\<lparr>p_budget := v3\<rparr>) = pool_inv p" "pool_inv (p\<lparr>p_reserved := v4\<rparr>) = pool_inv p"
  "pool_inv (p\<lparr>p_reserveLast := v5\<rparr>) = pool_inv p" "pool_inv (p\<lparr>p_dirty := v6\<rparr>) = pool_inv p"
  "pool_inv (p\<lparr>p_expired := v7\<rparr>) = pool_inv p" "pool_inv (p\<lparr>p_forgotten := v8\<rparr>) = pool_inv p"
  by (simp_all add: pool_inv_def)

text \<open>Writing a record keeps the table as long as its domain and its offset stay.\<close>

definition keeps_identity :: "(rec \<Rightarrow> rec) \<Rightarrow> bool" where
  "keeps_identity f \<longleftrightarrow> (\<forall>r. r_domain (f r) = r_domain r \<and> r_offset (f r) = r_offset r)"

lemma keeps_identity_fields [simp]:
  "keeps_identity (\<lambda>r. r\<lparr>r_lastUse := u r\<rparr>)" "keeps_identity (\<lambda>r. r\<lparr>r_dirty := b r\<rparr>)"
  "keeps_identity (\<lambda>r. r\<lparr>r_removing := b r\<rparr>)"
  by (simp_all add: keeps_identity_def)

lemma upd_rec_fields [simp]:
  "p_prefix (upd_rec i f p) = p_prefix p" "p_byName (upd_rec i f p) = p_byName p"
  "p_byOffset (upd_rec i f p) = p_byOffset p" "p_next (upd_rec i f p) = p_next p"
  "p_fresh (upd_rec i f p) = p_fresh p" "p_dirty (upd_rec i f p) = p_dirty p"
  "p_budget (upd_rec i f p) = p_budget p" "p_reserved (upd_rec i f p) = p_reserved p"
  "p_reserveLast (upd_rec i f p) = p_reserveLast p" "p_forgotten (upd_rec i f p) = p_forgotten p"
  "p_expired (upd_rec i f p) = p_expired p" "p_step (upd_rec i f p) = p_step p"
  "p_advanced (upd_rec i f p) = p_advanced p" "p_max (upd_rec i f p) = p_max p"
  "p_limit (upd_rec i f p) = p_limit p" "p_first (upd_rec i f p) = p_first p"
  "p_end (upd_rec i f p) = p_end p"
  "p_heap (upd_rec i f p) = (p_heap p)(i := f (p_heap p i))"
  "pool_static (upd_rec i f p) = pool_static p" "in_ring (upd_rec i f p) = in_ring p"
  "address (upd_rec i f p) = address p" "offset_of (upd_rec i f p) = offset_of p"
  "usable (upd_rec i f p) = usable p" "full (upd_rec i f p) = full p"
  "ahead (upd_rec i f p) = ahead p" "after (upd_rec i f p) = after p"
  by (simp_all add: upd_rec_def)

lemma identity_upd:
  assumes "keeps_identity f"
  shows "r_domain (((p_heap p)(i := f (p_heap p i))) j) = r_domain (p_heap p j)"
    "r_offset (((p_heap p)(i := f (p_heap p i))) j) = r_offset (p_heap p j)"
  using assms by (auto simp: keeps_identity_def)

lemma table_ok_upd_rec:
  "keeps_identity f \<Longrightarrow> table_ok (upd_rec i f p) = table_ok p"
  by (simp add: table_ok_def identity_upd del: fun_upd_apply)

lemma pool_inv_upd_rec:
  "keeps_identity f \<Longrightarrow> pool_inv (upd_rec i f p) = pool_inv p"
  by (simp add: pool_inv_def table_ok_upd_rec)

subsection \<open>Storing and removing a record\<close>

lemma put_rec_fields [simp]:
  "p_byName (put_rec r p) = p_byName p" "p_next (put_rec r p) = p_next p"
  "p_heap (put_rec r p) = (p_heap p)(p_fresh p := r)" "p_fresh (put_rec r p) = Suc (p_fresh p)"
  "p_byOffset (put_rec r p) = AList.update (r_offset r) (p_fresh p) (p_byOffset p)"
  "pool_static (put_rec r p) = pool_static p" "in_ring (put_rec r p) = in_ring p"
  "address (put_rec r p) = address p" "offset_of (put_rec r p) = offset_of p"
  "usable (put_rec r p) = usable p" "ahead (put_rec r p) = ahead p" "p_step (put_rec r p) = p_step p"
  "p_dirty (put_rec r p) = p_dirty p" "p_budget (put_rec r p) = p_budget p"
  "p_expired (put_rec r p) = p_expired p" "p_forgotten (put_rec r p) = p_forgotten p"
  "p_reserved (put_rec r p) = p_reserved p" "p_reserveLast (put_rec r p) = p_reserveLast p"
  "p_advanced (put_rec r p) = p_advanced p" "p_first (put_rec r p) = p_first p"
  by (simp_all add: put_rec_def)

lemma table_ok_put_rec:
  assumes "table_ok p" "in_ring p (r_offset r)" "rec_at p (r_offset r) = None"
  shows "table_ok (put_rec r p)"
proof (rule table_okI)
  show "distinct (map fst (p_byOffset (put_rec r p)))"
    using table_ok_distinct [OF assms(1)] by (simp add: distinct_update)
next
  fix o' i assume "rec_at (put_rec r p) o' = Some i"
  then show "in_ring (put_rec r p) o' \<and> r_offset (p_heap (put_rec r p) i) = o' \<and> i < p_fresh (put_rec r p)"
    using assms(2) table_ok_rec [OF assms(1), of o' i] by (auto split: if_splits)
next
  fix d i assume "p_byName (put_rec r p) d = Some i"
  then have d: "p_byName p d = Some i" by simp
  note n = table_ok_name [OF assms(1) d]
  have "i \<noteq> p_fresh p" using table_ok_rec(3) [OF assms(1) n(3)] by simp
  moreover have "r_offset (p_heap p i) \<noteq> r_offset r" using n(3) assms(3) by auto
  ultimately show "d \<noteq> [] \<and> r_domain (p_heap (put_rec r p) i) = d \<and>
      rec_at (put_rec r p) (r_offset (p_heap (put_rec r p) i)) = Some i"
    using n by simp
qed

lemma pool_inv_put_rec:
  assumes "pool_inv p" "in_ring p (r_offset r)" "rec_at p (r_offset r) = None"
  shows "pool_inv (put_rec r p)"
  using assms table_ok_put_rec by (simp add: pool_inv_def)

lemma pool_remove_fields [simp]:
  "p_heap (pool_remove i p) = p_heap p" "p_fresh (pool_remove i p) = p_fresh p"
  "p_next (pool_remove i p) = p_next p" "in_ring (pool_remove i p) = in_ring p"
  "p_byOffset (pool_remove i p) = AList.delete (r_offset (p_heap p i)) (p_byOffset p)"
  "pool_static (pool_remove i p) = pool_static p" "address (pool_remove i p) = address p"
  "offset_of (pool_remove i p) = offset_of p" "usable (pool_remove i p) = usable p"
  "p_dirty (pool_remove i p) = p_dirty p" "p_budget (pool_remove i p) = p_budget p"
  "p_expired (pool_remove i p) = p_expired p" "p_forgotten (pool_remove i p) = p_forgotten p"
  "p_reserved (pool_remove i p) = p_reserved p" "p_reserveLast (pool_remove i p) = p_reserveLast p"
  "p_advanced (pool_remove i p) = p_advanced p" "p_step (pool_remove i p) = p_step p"
  "p_max (pool_remove i p) = p_max p" "p_first (pool_remove i p) = p_first p"
  by (simp_all add: pool_remove_def Let_def)

lemma pool_remove_name:
  "p_byName (pool_remove i p) d =
     (if \<not> held (p_heap p i) \<and> d = r_domain (p_heap p i) \<and> p_byName p d = Some i then None
      else p_byName p d)"
  by (auto simp: pool_remove_def Let_def)

text \<open>
  A record is only removed while it is the one its offset leads to; then the name that is left
  behind, if any, belongs to another record.
\<close>

lemma table_ok_pool_remove:
  assumes "table_ok p" "rec_at p (r_offset (p_heap p i)) = Some i"
  shows "table_ok (pool_remove i p)"
proof (rule table_okI)
  show "distinct (map fst (p_byOffset (pool_remove i p)))"
    using table_ok_distinct [OF assms(1)] by (simp add: distinct_delete)
next
  fix o' j assume "rec_at (pool_remove i p) o' = Some j"
  then show "in_ring (pool_remove i p) o' \<and> r_offset (p_heap (pool_remove i p) j) = o' \<and>
      j < p_fresh (pool_remove i p)"
    using table_ok_rec [OF assms(1), of o' j] by (auto split: if_splits)
next
  fix d j assume n: "p_byName (pool_remove i p) d = Some j"
  then have d: "p_byName p d = Some j" by (simp add: pool_remove_name split: if_splits)
  note t = table_ok_name [OF assms(1) d]
  have "j \<noteq> i" using n d t by (auto simp: pool_remove_name held_def)
  then have "r_offset (p_heap p j) \<noteq> r_offset (p_heap p i)" using t(3) assms(2) by auto
  then show "d \<noteq> [] \<and> r_domain (p_heap (pool_remove i p) j) = d \<and>
      rec_at (pool_remove i p) (r_offset (p_heap (pool_remove i p) j)) = Some j"
    using t by simp
qed

lemma pool_inv_pool_remove:
  assumes "pool_inv p" "rec_at p (r_offset (p_heap p i)) = Some i"
  shows "pool_inv (pool_remove i p)"
  using assms table_ok_pool_remove by (simp add: pool_inv_def)

section \<open>Allocation\<close>

lemma funpow_after_ring:
  assumes "pool_static p" "in_ring p o'"
  shows "in_ring p ((after p ^^ k) o') \<and>
    pos p ((after p ^^ k) o') = (pos p o' + k) mod unat (usable p)"
proof (induction k)
  case 0
  then show ?case using assms pos_less by simp
next
  case (Suc k)
  then show ?case
    using in_ring_after [OF assms(1)] pos_after [OF assms(1)] by (simp add: mod_Suc_eq)
qed

lemma funpow_alloc_step:
  "(alloc_step saved ^^ k) p =
     p\<lparr>p_next := (after p ^^ k) (p_next p), p_advanced := p_advanced p + word_of_nat k,
       p_budget := (if saved then word_of_nat (unat (p_budget p) - k) else p_budget p)\<rparr>"
proof (induction k)
  case 0
  then show ?case by simp
next
  case (Suc k)
  have b: "(word_of_nat (unat b - k) :: u32) \<noteq> 0 \<longleftrightarrow> k < unat b" for b :: u32
  proof -
    have "unat (word_of_nat (unat b - k) :: u32) = unat b - k"
      using u32_bound [of b] by (intro unat_of_nat_u32) linarith
    then show ?thesis by (simp add: unat_gt_0 [symmetric])
  qed
  have "(word_of_nat (unat b - k) :: u32) - 1 = word_of_nat (unat b - Suc k)" if "k < unat b" for b :: u32
  proof -
    have "unat b - k = Suc (unat b - Suc k)" using that by linarith
    then show ?thesis by (simp only: of_nat_Suc) simp
  qed
  then have "(if 0 < (word_of_nat (unat b - k) :: u32) then word_of_nat (unat b - k) - 1
      else word_of_nat (unat b - k)) = (word_of_nat (unat b - Suc k) :: u32)" for b :: u32
    using b [of b] by (cases "k < unat b") (simp_all only: word_neq_0_conv simp_thms if_True if_False, simp)
  note budget = this [of "p_budget p"]
  have "0 < (word_of_nat (unat (p_budget p) - k) :: u32) \<longrightarrow>
      (word_of_nat (unat (p_budget p) - k) :: u32) - 1 = word_of_nat (unat (p_budget p) - Suc k)"
    "\<not> 0 < (word_of_nat (unat (p_budget p) - k) :: u32) \<longrightarrow>
      (word_of_nat (unat (p_budget p) - k) :: u32) = word_of_nat (unat (p_budget p) - Suc k)"
    using budget by (auto split: if_splits)
  then show ?case
    by (simp only: funpow.simps comp_apply Suc) (simp add: alloc_step_def add.assoc add.commute [of 1])
qed

text \<open>The offset the loop looks at in its \<open>k\<close>-th round, and whether the reserve ends there.\<close>

definition tried :: "pool \<Rightarrow> nat \<Rightarrow> u32" where
  "tried p k = (after p ^^ k) (p_next p)"

definition reserve_ends :: "bool \<Rightarrow> bool \<Rightarrow> pool \<Rightarrow> nat \<Rightarrow> bool" where
  "reserve_ends saved failed p k \<longleftrightarrow> saved \<and> \<not> failed \<and> unat (p_budget p) \<le> k"

lemma tried_ring:
  assumes "pool_inv p"
  shows "in_ring p (tried p k)" "pos p (tried p k) = (pos p (p_next p) + k) mod unat (usable p)"
  using assms funpow_after_ring by (auto simp: tried_def pool_inv_def)

lemma alloc_loop_at:
  "alloc_loop saved failed ((alloc_step saved ^^ k) p) =
     (if reserve_ends saved failed p k then Some ((alloc_step saved ^^ k) p, None)
      else if rec_at p (tried p k) \<noteq> None then alloc_loop saved failed ((alloc_step saved ^^ Suc k) p)
      else Some ((alloc_step saved ^^ Suc k) p, Some (tried p k)))"
proof -
  have b: "(word_of_nat (unat (p_budget p) - k) :: u32) = 0 \<longleftrightarrow> unat (p_budget p) \<le> k"
  proof -
    have "unat (word_of_nat (unat (p_budget p) - k) :: u32) = unat (p_budget p) - k"
      using u32_bound [of "p_budget p"] by (intro unat_of_nat_u32) linarith
    then show ?thesis by (simp add: unat_eq_zero [symmetric])
  qed
  show ?thesis
    by (subst alloc_loop.simps)
      (auto simp: funpow_alloc_step reserve_ends_def tried_def b alloc_step_def)
qed

lemma alloc_loop_skips:
  assumes "\<And>j. j < k \<Longrightarrow> \<not> reserve_ends saved failed p j \<and> rec_at p (tried p j) \<noteq> None"
  shows "alloc_loop saved failed p = alloc_loop saved failed ((alloc_step saved ^^ k) p)"
  using assms
proof (induction k)
  case 0
  then show ?case by simp
next
  case (Suc k)
  then have "\<not> reserve_ends saved failed p k" "rec_at p (tried p k) \<noteq> None" by blast+
  with Suc alloc_loop_at [of saved failed k p] show ?case by auto
qed

text \<open>
  While an offset of the range is free the loop ends, after fewer rounds than the range has
  offsets: it stops at the first offset that is free, or earlier where the saved reserve is
  used up.
\<close>

lemma alloc_loop_ends:
  assumes inv: "pool_inv p" and free: "in_ring p f" "rec_at p f = None"
  obtains k where "k < unat (usable p)"
    and "\<And>j. j < k \<Longrightarrow> \<not> reserve_ends saved failed p j \<and> rec_at p (tried p j) \<noteq> None"
    and "reserve_ends saved failed p k \<and>
           alloc_loop saved failed p = Some ((alloc_step saved ^^ k) p, None) \<or>
         \<not> reserve_ends saved failed p k \<and> rec_at p (tried p k) = None \<and>
           alloc_loop saved failed p = Some ((alloc_step saved ^^ Suc k) p, Some (tried p k))"
proof -
  let ?u = "unat (usable p)" and ?n = "pos p (p_next p)"
  let ?stop = "\<lambda>k. reserve_ends saved failed p k \<or> rec_at p (tried p k) = None"
  have st: "pool_static p" using inv by (simp add: pool_inv_def)
  have u: "0 < ?u" using st by (rule pool_staticD)
  have n: "?n < ?u" using inv pos_less by (simp add: pool_inv_def)
  have f: "pos p f < ?u" using st free(1) by (rule pos_less)
  define d where "d = (pos p f + ?u - ?n) mod ?u"
  have "(?n + d) mod ?u = pos p f"
  proof -
    have "(?n + d) mod ?u = (?n + (pos p f + ?u - ?n)) mod ?u" by (simp add: d_def mod_add_right_eq)
    also have "?n + (pos p f + ?u - ?n) = pos p f + ?u" using n by simp
    finally show ?thesis using f by simp
  qed
  then have "tried p d = f" using pos_inj [OF st] tried_ring [OF inv] free(1) by simp
  then have stop: "?stop d" using free(2) by simp
  have d: "d < ?u" using u by (simp add: d_def)
  define k where "k = (LEAST k. ?stop k)"
  have k: "?stop k" and kd: "k \<le> d" unfolding k_def using stop by (rule LeastI, rule Least_le)
  have before: "\<not> reserve_ends saved failed p j \<and> rec_at p (tried p j) \<noteq> None" if "j < k" for j
    using not_less_Least [of j ?stop] that unfolding k_def by blast
  note loop = alloc_loop_skips [OF before] alloc_loop_at [of saved failed k p]
  show ?thesis
  proof (rule that)
    show "k < ?u" using kd d by simp
    show "reserve_ends saved failed p k \<and>
           alloc_loop saved failed p = Some ((alloc_step saved ^^ k) p, None) \<or>
         \<not> reserve_ends saved failed p k \<and> rec_at p (tried p k) = None \<and>
           alloc_loop saved failed p = Some ((alloc_step saved ^^ Suc k) p, Some (tried p k))"
      using k loop by (cases "reserve_ends saved failed p k") auto
  qed (fact before)
qed

lemma free_offset:
  assumes inv: "pool_inv p" and len: "length (p_byOffset p) < unat (usable p)"
  obtains f where "in_ring p f" "rec_at p f = None"
proof -
  have st: "pool_static p" using inv by (simp add: pool_inv_def)
  let ?used = "pos p ` fst ` set (p_byOffset p)"
  have "card ?used \<le> card (set (p_byOffset p))"
    unfolding image_image by (rule card_image_le) simp
  also have "\<dots> \<le> length (p_byOffset p)" by (rule card_length)
  finally have "card ?used < card {..< unat (usable p)}" using len by simp
  then have "\<not> {..< unat (usable p)} \<subseteq> ?used"
    using card_mono [of ?used "{..< unat (usable p)}"] by (auto simp del: card_lessThan)
  then obtain k where k: "k < unat (usable p)" "k \<notin> ?used" by auto
  let ?f = "word_of_nat (k + 2) :: u32"
  have "?f \<notin> fst ` set (p_byOffset p)" using k(2) in_ring_of_pos(2) [OF st k(1)] by force
  then have "rec_at p ?f = None" by (simp add: map_of_eq_None_iff)
  with in_ring_of_pos(1) [OF st k(1)] show ?thesis by (rule that)
qed

lemma length_byOffset:
  assumes "pool_inv p"
  shows "length (p_byOffset p) \<le> unat (usable p)"
proof -
  have st: "pool_static p" and d: "distinct (map fst (p_byOffset p))"
    using assms by (auto simp: pool_inv_def table_ok_def)
  have ring: "in_ring p o'" if "o' \<in> fst ` set (p_byOffset p)" for o'
    using that d pool_inv_rec(1) [OF assms] by (fastforce simp: map_of_eq_Some_iff)
  have "inj_on (pos p) (fst ` set (p_byOffset p))"
    using pos_inj [OF st] ring by (intro inj_onI) blast
  moreover have "pos p ` fst ` set (p_byOffset p) \<subseteq> {..< unat (usable p)}"
    using pos_less [OF st] ring by blast
  ultimately have "card (fst ` set (p_byOffset p)) \<le> card {..< unat (usable p)}"
    by (rule card_inj_on_le) simp
  then show ?thesis using distinct_card [OF d] by (simp only: card_lessThan length_map set_map)
qed

lemma full_iff:
  assumes "pool_inv p"
  shows "full p \<longleftrightarrow> unat (p_max p) \<le> length (p_byOffset p)"
proof -
  have "unat (word_of_nat (length (p_byOffset p)) :: u32) = length (p_byOffset p)"
    using length_byOffset [OF assms] u32_bound [of "usable p"] by (intro unat_of_nat_u32) linarith
  then show ?thesis by (simp add: full_def word_le_nat_alt)
qed

lemma not_full_free:
  assumes "pool_inv p" "\<not> full p"
  obtains f where "in_ring p f" "rec_at p f = None"
proof -
  have "pool_static p" using assms(1) by (simp add: pool_inv_def)
  from pool_staticD(9) [OF this] have "length (p_byOffset p) < unat (usable p)"
    using assms(2) full_iff [OF assms(1)] by linarith
  from free_offset [OF assms(1) this] that show ?thesis .
qed

end
