(* ===== verification/Cache_FakeIP.thy ===== *)
theory Cache_FakeIP
  imports Netip
begin

text \<open>
  The FakeIP part of the cache file: \<open>experimental/cachefile/fakeip.go\<close>, the transaction
  wrappers \<open>view\<close>, \<open>update\<close> and \<open>batch\<close> and \<open>resetDB\<close> of
  \<open>experimental/cachefile/cache.go\<close>, and \<open>FakeIPMetadata\<close> of \<open>adapter/fakeip.go\<close>.

  The database library (bbolt) is not part of the repository. What it does to a transaction is
  the argument \<open>tx\<close> of each operation: the transaction commits, it fails and leaves the file
  as it was, or it panics on a damaged page, which makes \<open>resetDB\<close> recreate the file (or, when
  the new file cannot be opened, leaves the closed database in place). A bucket is an association
  list of byte strings with distinct keys, in the order in which the library iterates over it; a
  missing bucket is \<open>None\<close>.
\<close>

section \<open>The saved allocation position\<close>

record metadata =
  m_inet4Range :: "prefix option"
  m_inet6Range :: "prefix option"
  m_inet4Current :: addr
  m_inet6Current :: addr

definition element :: "bytes \<Rightarrow> bytes" where
  "element d = be16 (word_of_nat (length d)) @ d"

definition MarshalBinary :: "metadata \<Rightarrow> bytes" where
  "MarshalBinary m =
     element (prefix_marshal (m_inet4Range m)) @ element (prefix_marshal (m_inet6Range m)) @
     element (addr_marshal (m_inet4Current m)) @ element (addr_marshal (m_inet6Current m))"

text \<open>
  Reading one element. \<open>binary.Read\<close> of the length inside \<open>common.Must\<close> panics on a short
  input (\<open>Inl True\<close>); a short element is an error (\<open>Inl False\<close>).
\<close>

definition read_element :: "bytes \<Rightarrow> bool + (bytes \<times> bytes)" where
  "read_element bs =
     (if length bs < 2 then Inl True
      else
        let n = unat (of_be16 (take 2 bs)); rest = drop 2 bs in
        if length rest < n then Inl False else Inr (take n rest, drop n rest))"

definition read_prefix :: "bytes \<Rightarrow> bool + (prefix option \<times> bytes)" where
  "read_prefix bs =
     (case read_element bs of
        Inl e \<Rightarrow> Inl e
      | Inr (d, rest) \<Rightarrow>
          (case prefix_unmarshal d of None \<Rightarrow> Inl False | Some q \<Rightarrow> Inr (q, rest)))"

definition read_addr :: "bytes \<Rightarrow> bool + (addr \<times> bytes)" where
  "read_addr bs =
     (case read_element bs of
        Inl e \<Rightarrow> Inl e
      | Inr (d, rest) \<Rightarrow>
          (case addr_unmarshal d of None \<Rightarrow> Inl False | Some a \<Rightarrow> Inr (a, rest)))"

definition UnmarshalBinary :: "bytes \<Rightarrow> bool + metadata" where
  "UnmarshalBinary bs =
     (case read_prefix bs of Inl e \<Rightarrow> Inl e | Inr (r4, bs) \<Rightarrow>
     (case read_prefix bs of Inl e \<Rightarrow> Inl e | Inr (r6, bs) \<Rightarrow>
     (case read_addr bs of Inl e \<Rightarrow> Inl e | Inr (c4, bs) \<Rightarrow>
     (case read_addr bs of Inl e \<Rightarrow> Inl e | Inr (c6, _) \<Rightarrow>
        Inr \<lparr>m_inet4Range = r4, m_inet6Range = r6, m_inet4Current = c4, m_inet6Current = c6\<rparr>))))"

section \<open>The database\<close>

type_synonym bucket = "(bytes \<times> bytes) list"

record db =
  bucketFakeIP :: "bucket option"
  bucketFakeIPDomain4 :: "bucket option"
  bucketFakeIPDomain6 :: "bucket option"
  bucketFakeIPCursor :: "bucket option"

definition empty_db :: db where
  "empty_db = \<lparr>bucketFakeIP = None, bucketFakeIPDomain4 = None, bucketFakeIPDomain6 = None,
     bucketFakeIPCursor = None\<rparr>"

record cachefile =
  c_db :: db
  c_open :: bool \<comment> \<open>the database is open: \<open>resetDB\<close> closes it and may fail to reopen it\<close>
  c_generation :: u64

definition keyMetadata :: bytes where
  "keyMetadata = str_bytes ''fakeip_metadata''"

text \<open>
  What the library does with a transaction, and whether the file can be reopened after a reset.
  \<open>resetDB\<close> removes the file in either case.
\<close>

datatype outcome = Commit | Fail | Panic

type_synonym tx = "outcome \<times> bool"

definition resetDB :: "bool \<Rightarrow> cachefile \<Rightarrow> cachefile" where
  "resetDB reopened c =
     c\<lparr>c_generation := c_generation c + 1, c_open := reopened, c_db := empty_db\<rparr>"

text \<open>
  \<open>c.update(fn)\<close> and \<open>c.batch(fn)\<close>: the changes of \<open>fn\<close> reach the file when the
  transaction commits. The second component is \<open>True\<close> on success (\<open>err == nil\<close>). A closed
  database refuses every transaction.
\<close>

definition update_tx :: "tx \<Rightarrow> (db \<Rightarrow> db) \<Rightarrow> cachefile \<Rightarrow> cachefile \<times> bool" where
  "update_tx t fn c =
     (if \<not> c_open c then (c, False)
      else (case fst t of
              Commit \<Rightarrow> (c\<lparr>c_db := fn (c_db c)\<rparr>, True)
            | Fail \<Rightarrow> (c, False)
            | Panic \<Rightarrow> (resetDB (snd t) c, False)))"

section \<open>The table of addresses\<close>

definition bucket_of :: "bucket option \<Rightarrow> bucket" where
  "bucket_of b = (case b of None \<Rightarrow> [] | Some l \<Rightarrow> l)"

text \<open>
  What the read transaction of \<open>FakeIPLoadTable\<close> finds: the position and whether a clean stop
  wrote it. \<open>None\<close>: reading the position panics.
\<close>

definition bucket_get :: "bytes \<Rightarrow> bucket option \<Rightarrow> bytes" where
  "bucket_get key b =
     (case b of None \<Rightarrow> [] | Some l \<Rightarrow> (case map_of l key of None \<Rightarrow> [] | Some v \<Rightarrow> v))"

definition load_position :: "db \<Rightarrow> (metadata option \<times> bool) option" where
  "load_position d =
     (let clean = (bucket_get keyMetadata (bucketFakeIP d) \<noteq> []);
          binary = (if clean then bucket_get keyMetadata (bucketFakeIP d)
                    else bucket_get keyMetadata (bucketFakeIPCursor d)) in
      if binary = [] then Some (None, clean)
      else (case UnmarshalBinary binary of
              Inr m \<Rightarrow> Some (Some m, clean)
            | Inl panics \<Rightarrow> if panics then None else Some (None, False)))"

text \<open>The records of the table handed to \<open>load\<close> one after another; the refused keys are kept.\<close>

fun load_records ::
  "('s \<Rightarrow> addr \<Rightarrow> string \<Rightarrow> 's \<times> bool) \<Rightarrow> bucket \<Rightarrow> 's \<Rightarrow> bytes list \<Rightarrow> 's \<times> bytes list" where
  "load_records load [] s refused = (s, refused)"
| "load_records load ((key, value) # rest) s refused =
     (if key = keyMetadata then load_records load rest s refused
      else if addr_from_slice key = NoAddr then load_records load rest s (refused @ [key])
      else
        let (s', ok) = load s (addr_from_slice key) (bytes_str value) in
        load_records load rest s' (if ok then refused else refused @ [key]))"

definition delete_keys :: "bytes list \<Rightarrow> bucket \<Rightarrow> bucket" where
  "delete_keys keys b = fold AList.delete keys b"

text \<open>
  \<open>t1\<close> is the fate of the read transaction and \<open>nread\<close> the number of records read before it
  panics; \<open>t2\<close> that of the write transaction. The result: the file, the state of the reader,
  the position, whether a clean stop wrote it, and whether there was no error.
\<close>

definition FakeIPLoadTable ::
  "tx \<Rightarrow> nat \<Rightarrow> tx \<Rightarrow> ('s \<Rightarrow> addr \<Rightarrow> string \<Rightarrow> 's \<times> bool) \<Rightarrow> 's \<Rightarrow> cachefile
    \<Rightarrow> cachefile \<times> 's \<times> metadata option \<times> bool \<times> bool" where
  "FakeIPLoadTable t1 nread t2 load s c =
     (let d = c_db c; table = bucket_of (bucketFakeIP d) in
      if \<not> c_open c \<or> fst t1 = Fail then (c, s, None, False, False)
      else (case load_position d of
        None \<Rightarrow> (resetDB (snd t1) c, s, None, False, False)
      | Some (m, clean) \<Rightarrow>
          if fst t1 = Panic
          then (resetDB (snd t1) c, fst (load_records load (take nread table) s []), None, False, False)
          else
            let (s', refused) = load_records load table s [];
                (c2, ok) = update_tx t2 (\<lambda>d. d\<lparr>
                   bucketFakeIPDomain4 := None, bucketFakeIPDomain6 := None,
                   bucketFakeIP := map_option (delete_keys (refused @ [keyMetadata])) (bucketFakeIP d)\<rparr>) c
            in (c2, s', m, clean, ok)))"

definition put_all :: "(addr \<times> string) list \<Rightarrow> bucket \<Rightarrow> bucket" where
  "put_all puts b = fold (\<lambda>(a, d). AList.update (as_slice a) (str_bytes d)) puts b"

definition save_changes ::
  "(addr \<times> string) list \<Rightarrow> addr list \<Rightarrow> metadata \<Rightarrow> bool \<Rightarrow> db \<Rightarrow> db" where
  "save_changes puts deletes m clean d =
     (let b1 = delete_keys (map as_slice deletes) (bucket_of (bucketFakeIP d));
          b2 = put_all puts b1;
          b3 = (if clean then AList.update keyMetadata (MarshalBinary m) b2
                else AList.delete keyMetadata b2) in
      d\<lparr>bucketFakeIP := Some b3,
        bucketFakeIPCursor :=
          Some (AList.update keyMetadata (MarshalBinary m) (bucket_of (bucketFakeIPCursor d)))\<rparr>)"

definition FakeIPSaveChanges ::
  "tx \<Rightarrow> (addr \<times> string) list \<Rightarrow> addr list \<Rightarrow> metadata \<Rightarrow> bool \<Rightarrow> cachefile \<Rightarrow> cachefile \<times> bool" where
  "FakeIPSaveChanges t puts deletes m clean c = update_tx t (save_changes puts deletes m clean) c"

definition FakeIPGeneration :: "cachefile \<Rightarrow> u64" where
  "FakeIPGeneration c = c_generation c"

definition FakeIPReset :: "tx \<Rightarrow> cachefile \<Rightarrow> cachefile \<times> bool" where
  "FakeIPReset t c = update_tx t (\<lambda>d. d\<lparr>bucketFakeIP := None, bucketFakeIPDomain4 := None,
     bucketFakeIPDomain6 := None\<rparr>) c"

section \<open>What the table holds\<close>

text \<open>The saved domain of an address, the abstraction of the address bucket.\<close>

definition saved_table :: "cachefile \<Rightarrow> addr \<rightharpoonup> string" where
  "saved_table c a =
     (if addr_valid a then map_option bytes_str (map_of (bucket_of (bucketFakeIP (c_db c))) (as_slice a))
      else None)"

section \<open>Round trip of the position\<close>

lemma read_element_element:
  "length d < 65536 \<Longrightarrow> read_element (element d @ rest) = Inr (d, rest)"
proof -
  assume "length d < 65536"
  then have "unat (word_of_nat (length d) :: u16) = length d"
    by (simp add: unat_of_nat)
  then show ?thesis by (simp add: read_element_def element_def Let_def length_be)
qed

lemma length_addr_marshal: "addr_valid a \<longrightarrow> without_zone a = a \<Longrightarrow> length (addr_marshal a) \<le> 16"
  by (cases a) (simp_all add: length_be)

lemma read_addr_element:
  "addr_valid a \<longrightarrow> without_zone a = a \<Longrightarrow> read_addr (element (addr_marshal a) @ rest) = Inr (a, rest)"
  using length_addr_marshal [of a] by (simp add: read_addr_def read_element_element)

lemma length_prefix_marshal: "length (prefix_marshal q) \<le> 17"
proof (cases q)
  case (Some p)
  have "length (as_slice (pfx_addr p)) \<le> 16" by (cases "pfx_addr p") (simp_all add: length_be)
  then show ?thesis by (simp add: Some)
qed simp

lemma read_prefix_element:
  assumes "\<forall>p. q = Some p \<longrightarrow> prefix_valid p"
  shows "read_prefix (element (prefix_marshal q) @ rest) = Inr (q, rest)"
proof -
  have "length (prefix_marshal q) < 65536" using length_prefix_marshal [of q] by linarith
  then show ?thesis
    using assms prefix_unmarshal_marshal [of q] by (simp add: read_prefix_def read_element_element)
qed

text \<open>The ranges and the positions of a store: valid prefixes, addresses without a zone.\<close>

definition metadata_ok :: "metadata \<Rightarrow> bool" where
  "metadata_ok m \<longleftrightarrow>
     (\<forall>p. m_inet4Range m = Some p \<longrightarrow> prefix_valid p) \<and> (\<forall>p. m_inet6Range m = Some p \<longrightarrow> prefix_valid p) \<and>
     without_zone (m_inet4Current m) = m_inet4Current m \<and> without_zone (m_inet6Current m) = m_inet6Current m"

lemma UnmarshalBinary_MarshalBinary:
  assumes "metadata_ok m"
  shows "UnmarshalBinary (MarshalBinary m) = Inr m"
  using assms read_addr_element [of "m_inet6Current m" "[]"]
  by (simp add: UnmarshalBinary_def MarshalBinary_def metadata_ok_def read_prefix_element read_addr_element)

lemma MarshalBinary_not_empty: "MarshalBinary m \<noteq> []"
  by (simp add: MarshalBinary_def element_def be_not_Nil)

section \<open>The storage as the store sees it\<close>

text \<open>An address of a range: an address without a zone.\<close>

definition plain :: "addr \<Rightarrow> bool" where
  "plain a \<longleftrightarrow> addr_valid a \<and> without_zone a = a"

lemma as_slice_plain: "plain a \<Longrightarrow> plain b \<Longrightarrow> as_slice a = as_slice b \<longleftrightarrow> a = b"
  using as_slice_inj unfolding plain_def by metis

lemma as_slice_keyMetadata: "as_slice a \<noteq> keyMetadata"
proof
  assume "as_slice a = keyMetadata"
  then have "length (as_slice a) = length keyMetadata" by simp
  then show False by (cases a) (simp_all add: keyMetadata_def length_str_bytes length_be)
qed

lemma map_of_delete_keys: "map_of (delete_keys ks b) k = (if k \<in> set ks then None else map_of b k)"
  unfolding delete_keys_def by (induction ks arbitrary: b) auto

lemma map_of_put_all:
  assumes "\<forall>x \<in> fst ` set puts. plain x" "distinct (map fst puts)" "plain a"
  shows "map_of (put_all puts b) (as_slice a) =
    (case map_of puts a of Some d \<Rightarrow> Some (str_bytes d) | None \<Rightarrow> map_of b (as_slice a))"
  using assms(1,2)
proof (induction puts arbitrary: b)
  case (Cons x puts)
  obtain a' d where x: "x = (a', d)" by (cases x)
  have "plain a'" using Cons.prems(1) by (simp add: x)
  then have s: "as_slice a = as_slice a' \<longleftrightarrow> a = a'" using assms(3) as_slice_plain by simp
  have "map_of puts a' = None" using Cons.prems(2) by (simp add: x map_of_eq_None_iff)
  then show ?case using Cons s by (auto simp: x put_all_def split: option.split)
qed (simp add: put_all_def)

text \<open>The position a restart finds: what the cursor bucket holds.\<close>

definition saved_position :: "cachefile \<Rightarrow> metadata option" where
  "saved_position c =
     (case UnmarshalBinary (bucket_get keyMetadata (bucketFakeIPCursor (c_db c))) of
        Inr m \<Rightarrow> Some m | Inl _ \<Rightarrow> None)"

lemma saved_table_save:
  assumes "FakeIPSaveChanges t puts deletes m clean c = (c', True)"
    "\<forall>x \<in> fst ` set puts. plain x" "distinct (map fst puts)" "\<forall>x \<in> set deletes. plain x" "plain a"
  shows "saved_table c' a =
    (case map_of puts a of Some d \<Rightarrow> Some d | None \<Rightarrow> if a \<in> set deletes then None else saved_table c a)"
proof -
  have c': "c' = c\<lparr>c_db := save_changes puts deletes m clean (c_db c)\<rparr>"
    using assms(1) by (auto simp: FakeIPSaveChanges_def update_tx_def split: if_splits outcome.splits)
  have v: "addr_valid a" using assms(5) by (simp add: plain_def)
  have "as_slice a \<in> as_slice ` set deletes \<longleftrightarrow> a \<in> set deletes"
    using assms(4,5) as_slice_plain by (metis image_iff)
  then show ?thesis
    using map_of_put_all [OF assms(2,3,5)] as_slice_keyMetadata [of a] v
    by (auto simp: saved_table_def c' save_changes_def Let_def bucket_of_def map_of_delete_keys
        split: option.split)
qed

lemma saved_position_save:
  "FakeIPSaveChanges t puts deletes m clean c = (c', True) \<Longrightarrow> metadata_ok m \<Longrightarrow> saved_position c' = Some m"
  by (auto simp: FakeIPSaveChanges_def update_tx_def save_changes_def Let_def saved_position_def
      bucket_get_def UnmarshalBinary_MarshalBinary split: if_splits outcome.splits)

lemma FakeIPSaveChanges_cases:
  assumes "FakeIPSaveChanges t puts deletes m clean c = (c', ok)"
  obtains (ok) "ok" "c_generation c' = c_generation c"
    | (kept) "\<not> ok" "c' = c"
    | (lost) "\<not> ok" "c_generation c' = c_generation c + 1"
  using assms that
  by (auto simp: FakeIPSaveChanges_def update_tx_def resetDB_def split: if_splits outcome.splits)

end
