(* ===== verification/FakeIP_Store.thy ===== *)
theory FakeIP_Store
  imports FakeIP_Alloc Cache_FakeIP
begin

text \<open>
  \<open>Store\<close> of \<open>dns/transport/fakeip/store.go\<close>: the two ranges and the operations on them,
  each one the part of a Go function that runs under the lock \<open>Store.access\<close>. The clock
  (\<open>Store.now\<close>) and the generation of the storage are read from outside and are arguments.
  A save is cut where the code gives up the lock to write: \<open>save_collect\<close> gathers the changes
  into a \<open>job\<close>, \<open>save_commit\<close> runs after the write. The theory \<open>FakeIP_System\<close> puts the
  pieces together with the cache file.

  Log lines, the counters that only feed them, \<open>pool.fullWarned\<close> (which only limits how often
  a warning is logged) and the hooks of the tests are left out.
\<close>

datatype pid = P4 | P6

record store =
  s_inet4Range :: "prefix option"
  s_inet6Range :: "prefix option"
  s_pool4 :: "pool option"
  s_pool6 :: "pool option"
  s_uses :: u32
  s_startTick :: u32
  s_idleTicks :: u32
  s_protectTicks :: u32
  s_closed :: bool
  s_storage :: bool \<comment> \<open>\<open>storage != nil\<close>\<close>
  s_generation :: u64
  s_storageFailed :: bool
  s_wake :: bool \<comment> \<open>a token is in the channel \<open>wake\<close>\<close>

datatype store_error =
    MissingRange4
  | MissingRange6
  | StoreClosed
  | NoAddressToGive prefix

text \<open>24 hours and one hour in units of 100 milliseconds.\<close>

definition idleTimeout_ticks :: u32 where "idleTimeout_ticks = 864000"
definition protectTime_ticks :: u32 where "protectTime_ticks = 36000"

definition NewStore :: "prefix option \<Rightarrow> prefix option \<Rightarrow> store" where
  "NewStore inet4Range inet6Range =
     \<lparr>s_inet4Range = inet4Range, s_inet6Range = inet6Range,
      s_pool4 = map_option newPool inet4Range, s_pool6 = map_option newPool inet6Range,
      s_uses = 0, s_startTick = idleTimeout_ticks + 2, s_idleTicks = idleTimeout_ticks,
      s_protectTicks = protectTime_ticks, s_closed = False, s_storage = False, s_generation = 0,
      s_storageFailed = False, s_wake = False\<rparr>"

fun pool_at :: "store \<Rightarrow> pid \<Rightarrow> pool option" where
  "pool_at s P4 = s_pool4 s"
| "pool_at s P6 = s_pool6 s"

fun set_pool :: "pid \<Rightarrow> pool \<Rightarrow> store \<Rightarrow> store" where
  "set_pool P4 p s = s\<lparr>s_pool4 := Some p\<rparr>"
| "set_pool P6 p s = s\<lparr>s_pool6 := Some p\<rparr>"

definition on_pool :: "pid \<Rightarrow> (pool \<Rightarrow> pool) \<Rightarrow> store \<Rightarrow> store" where
  "on_pool k f s = (case pool_at s k of None \<Rightarrow> s | Some p \<Rightarrow> set_pool k (f p) s)"

definition pools :: "store \<Rightarrow> pid list" where
  "pools s = (if s_pool4 s = None then [] else [P4]) @ (if s_pool6 s = None then [] else [P6])"

definition poolOf :: "store \<Rightarrow> addr \<Rightarrow> pid option" where
  "poolOf s a =
     (case s_pool4 s of
        Some p \<Rightarrow> if contains (p_prefix p) a then Some P4
                  else (case s_pool6 s of
                          Some q \<Rightarrow> if contains (p_prefix q) a then Some P6 else None
                        | None \<Rightarrow> None)
      | None \<Rightarrow> (case s_pool6 s of
                   Some q \<Rightarrow> if contains (p_prefix q) a then Some P6 else None
                 | None \<Rightarrow> None))"

definition store_contains :: "store \<Rightarrow> addr \<Rightarrow> bool" where
  "store_contains s a =
     ((case s_inet4Range s of None \<Rightarrow> False | Some r \<Rightarrow> contains r a) \<or>
      (case s_inet6Range s of None \<Rightarrow> False | Some r \<Rightarrow> contains r a))"

section \<open>Queries and connections\<close>

definition stamp :: "u32 \<Rightarrow> store \<Rightarrow> store \<times> u64" where
  "stamp now s =
     (let uses = s_uses s + 1 in
      (s\<lparr>s_uses := uses\<rparr>, push_bit 32 (ucast now) OR ucast uses))"

definition touch :: "u32 \<Rightarrow> pid \<Rightarrow> rid \<Rightarrow> store \<Rightarrow> store" where
  "touch now k i s =
     (let (s', u) = stamp now s in on_pool k (upd_rec i (\<lambda>r. r\<lparr>r_lastUse := u\<rparr>)) s')"

definition signal :: "store \<Rightarrow> store" where
  "signal s = s\<lparr>s_wake := True\<rparr>"

text \<open>The part of \<open>Create\<close> under the read lock: a known domain.\<close>

definition find_domain :: "u32 \<Rightarrow> pid \<Rightarrow> string \<Rightarrow> store \<Rightarrow> store \<times> addr option" where
  "find_domain now k domain s =
     (case pool_at s k of
        None \<Rightarrow> (s, None)
      | Some p \<Rightarrow>
          (case p_byName p domain of
             None \<Rightarrow> (s, None)
           | Some i \<Rightarrow> (touch now k i s, Some (address p (r_offset (p_heap p i))))))"

datatype need = needNothing | needReserve | needRoom

text \<open>The record \<open>allocate\<close> makes for an offset it found.\<close>

definition give_out :: "u32 \<Rightarrow> pid \<Rightarrow> string \<Rightarrow> u32 \<Rightarrow> pool \<Rightarrow> store \<Rightarrow> store" where
  "give_out now k domain offset p s =
     (let saved = s_storage s; i = p_fresh p; (s1, u) = stamp now s;
          p1 = put_rec \<lparr>r_domain = domain, r_offset = offset, r_lastUse = u, r_dirty = saved,
                        r_removing = False\<rparr> p;
          p2 = p1\<lparr>p_byName := (p_byName p1)(domain \<mapsto> i)\<rparr> in
      if saved then signal (set_pool k (p2\<lparr>p_dirty := p_dirty p2 @ [i]\<rparr>) s1)
      else set_pool k p2 s1)"

definition allocate ::
  "u32 \<Rightarrow> u64 \<Rightarrow> pid \<Rightarrow> string \<Rightarrow> store \<Rightarrow> (store \<times> need \<times> (store_error + addr)) option" where
  "allocate now gen k domain s =
     (case pool_at s k of
        None \<Rightarrow> Some (s, needNothing, Inl (if k = P6 then MissingRange6 else MissingRange4))
      | Some p \<Rightarrow>
          (case p_byName p domain of
             Some i \<Rightarrow> Some (touch now k i s, needNothing, Inr (address p (r_offset (p_heap p i))))
           | None \<Rightarrow>
               if s_closed s then Some (s, needNothing, Inl StoreClosed)
               else if full p then Some (s, needRoom, Inr NoAddr)
               else if s_storage s \<and> gen \<noteq> s_generation s then Some (s, needReserve, Inr NoAddr)
               else
                 (case alloc_loop (s_storage s) (s_storageFailed s) p of
                    None \<Rightarrow> None
                  | Some (p', None) \<Rightarrow> Some (set_pool k p' s, needReserve, Inr NoAddr)
                  | Some (p', Some offset) \<Rightarrow>
                      Some (give_out now k domain offset p' s, needNothing, Inr (address p offset)))))"

text \<open>\<open>release\<close>, and \<open>makeRoom\<close> of a store without a storage.\<close>

definition release :: "pid \<Rightarrow> rid \<Rightarrow> store \<Rightarrow> store" where
  "release k i s = on_pool k (pool_remove i) s"

definition makeRoom_memory :: "u32 \<Rightarrow> pid \<Rightarrow> store \<Rightarrow> store" where
  "makeRoom_memory now k s =
     (case pool_at s k of
        None \<Rightarrow> s
      | Some p \<Rightarrow>
          if full p then fold (\<lambda>(i, _). release k i) (oldest p (room p) 0 now) s else s)"

definition Lookup :: "u32 \<Rightarrow> addr \<Rightarrow> store \<Rightarrow> store \<times> string option" where
  "Lookup now a s =
     (case poolOf s a of
        None \<Rightarrow> (s, None)
      | Some k \<Rightarrow>
          (case pool_at s k of
             None \<Rightarrow> (s, None)
           | Some p \<Rightarrow>
               (case offset_of p a of
                  None \<Rightarrow> (s, None)
                | Some offset \<Rightarrow>
                    (case rec_at p offset of
                       None \<Rightarrow> (s, None)
                     | Some i \<Rightarrow>
                         if held (p_heap p i) then (s, None)
                         else (touch now k i s, Some (r_domain (p_heap p i)))))))"

definition reset_pool :: "pool \<Rightarrow> pool" where
  "reset_pool p =
     p\<lparr>p_byName := Map.empty, p_byOffset := [], p_dirty := [], p_expired := [], p_forgotten := []\<rparr>"

text \<open>\<open>Reset\<close> once the storage is reset.\<close>

definition reset_pools :: "store \<Rightarrow> store" where
  "reset_pools s = fold (\<lambda>k. on_pool k reset_pool) (pools s) s"

section \<open>Saving\<close>

record saveRequest =
  q_clean :: bool
  q_reserve :: bool
  q_room :: "pid option"

record job =
  j_puts :: "(addr \<times> string) list"
  j_written :: "(pid \<times> rid) list"
  j_deletes :: "addr list"
  j_removals :: "(pid \<times> rid \<times> u64) list"
  j_reserves :: "(pid \<times> u64 \<times> u32) list"
  j_changed :: bool
  j_metadata :: metadata
  j_clean :: bool
  j_room :: "pid option"

text \<open>The storage was recreated: all records and the reserve have to go there again.\<close>

definition resave_pool :: "pool \<Rightarrow> pool" where
  "resave_pool p =
     (let ids = filter (\<lambda>i. \<not> held (p_heap p i)) (map snd (p_byOffset p)) in
      (fold (\<lambda>i. upd_rec i (\<lambda>r. r\<lparr>r_dirty := True\<rparr>)) ids p)
        \<lparr>p_reserved := False, p_budget := 0, p_forgotten := [], p_dirty := ids\<rparr>)"

definition save_generation :: "u64 \<Rightarrow> store \<Rightarrow> store" where
  "save_generation gen s =
     (if gen = s_generation s then s
      else fold (\<lambda>k. on_pool k resave_pool) (pools s) (s\<lparr>s_generation := gen\<rparr>))"

definition save_needed :: "saveRequest \<Rightarrow> store \<Rightarrow> bool" where
  "save_needed q s =
     ((case q_room q of None \<Rightarrow> False | Some k \<Rightarrow>
         (case pool_at s k of None \<Rightarrow> False | Some p \<Rightarrow> full p)) \<or>
      list_ex (\<lambda>k. case pool_at s k of None \<Rightarrow> False
                 | Some p \<Rightarrow> \<not> p_reserved p \<or> p_budget p = 0) (pools s))"

text \<open>The candidates of one range that are still unused become removals.\<close>

definition removable :: "saveRequest \<Rightarrow> pool \<Rightarrow> rid \<times> u64 \<Rightarrow> bool" where
  "removable q p c =
     (case c of (i, lastUse) \<Rightarrow>
        \<not> (q_clean q \<or> r_removing (p_heap p i) \<or> rec_at p (r_offset (p_heap p i)) \<noteq> Some i \<or>
            r_lastUse (p_heap p i) \<noteq> lastUse))"

fun collect_expired ::
  "saveRequest \<Rightarrow> (rid \<times> u64) list \<Rightarrow> pool \<Rightarrow> pool \<times> (rid \<times> u64) list" where
  "collect_expired q [] p = (p, [])"
| "collect_expired q (c # cs) p =
     (if removable q p c
      then
        let (p', rs) = collect_expired q cs (upd_rec (fst c) (\<lambda>r. r\<lparr>r_removing := True\<rparr>) p) in (p', c # rs)
      else collect_expired q cs p)"

text \<open>Of the records not saved yet, the ones being removed wait and the others are written.\<close>

definition pending_dirty :: "pool \<Rightarrow> rid list" where
  "pending_dirty p =
     filter (\<lambda>i. r_dirty (p_heap p i) \<and> rec_at p (r_offset (p_heap p i)) = Some i) (p_dirty p)"

definition reserve_position :: "saveRequest \<Rightarrow> pool \<Rightarrow> u32 \<times> bool" where
  "reserve_position q p =
     (if q_clean q \<and> p_next p = p_first p then (p_first p - 1, False)
      else if q_clean q then (ahead p (p_next p) (usable p - 1), False)
      else if \<not> p_reserved p \<or> p_budget p = 0 \<or> p_budget p < p_step p div 2
      then (ahead p (p_next p) (p_step p - 1), True)
      else (p_reserveLast p, False))"

fun set_current :: "pid \<Rightarrow> addr \<Rightarrow> metadata \<Rightarrow> metadata" where
  "set_current P4 a m = m\<lparr>m_inet4Current := a\<rparr>"
| "set_current P6 a m = m\<lparr>m_inet6Current := a\<rparr>"

definition put_address :: "addr \<Rightarrow> string \<Rightarrow> (addr \<times> string) list \<Rightarrow> (addr \<times> string) list" where
  "put_address a d puts = AList.update a d puts"

definition collect_pool :: "saveRequest \<Rightarrow> u32 \<Rightarrow> pid \<Rightarrow> pool \<Rightarrow> job \<Rightarrow> pool \<times> job" where
  "collect_pool q now k p j =
     (let expired = p_expired p @
            (if q_room q = Some k \<and> full p then oldest p (room p) 0 now else []);
          (p1, removals) = collect_expired q expired p;
          gone = filter (\<lambda>o'. rec_at p1 o' = None) (p_forgotten p1);
          pending = pending_dirty p1;
          later = filter (\<lambda>i. r_removing (p_heap p1 i)) pending;
          written = filter (\<lambda>i. \<not> r_removing (p_heap p1 i)) pending;
          p2 = p1\<lparr>p_expired := [], p_dirty := later\<rparr>;
          (lst, reserve) = reserve_position q p2 in
      (p2,
       j\<lparr>j_deletes := j_deletes j @ map (\<lambda>(i, _). address p (r_offset (p_heap p i))) removals
            @ map (address p) gone,
         j_removals := j_removals j @ map (\<lambda>(i, u). (k, i, u)) removals,
         j_puts := fold (\<lambda>i. put_address (address p (r_offset (p_heap p1 i))) (r_domain (p_heap p1 i)))
            written (j_puts j),
         j_written := j_written j @ map (Pair k) written,
         j_reserves := j_reserves j @ (if reserve then [(k, p_advanced p, lst)] else []),
         j_changed := j_changed j \<or> reserve,
         j_metadata := set_current k (address p lst) (j_metadata j)\<rparr>))"

definition empty_job :: "saveRequest \<Rightarrow> store \<Rightarrow> job" where
  "empty_job q s =
     \<lparr>j_puts = [], j_written = [], j_deletes = [], j_removals = [], j_reserves = [],
      j_changed = q_clean q,
      j_metadata = \<lparr>m_inet4Range = s_inet4Range s, m_inet6Range = s_inet6Range s,
        m_inet4Current = NoAddr, m_inet6Current = NoAddr\<rparr>,
      j_clean = q_clean q, j_room = q_room q\<rparr>"

definition collect_at :: "saveRequest \<Rightarrow> u32 \<Rightarrow> pid \<Rightarrow> store \<times> job \<Rightarrow> store \<times> job" where
  "collect_at q now k sj =
     (case pool_at (fst sj) k of
        None \<Rightarrow> sj
      | Some p \<Rightarrow> let (p', j') = collect_pool q now k p (snd sj) in (set_pool k p' (fst sj), j'))"

datatype collected = SaveNothing | SaveRefused | SaveWrite job

definition save_collect :: "u64 \<Rightarrow> saveRequest \<Rightarrow> u32 \<Rightarrow> store \<Rightarrow> store \<times> collected" where
  "save_collect gen q now s =
     (if \<not> s_storage s then (s, SaveNothing)
      else if s_closed s \<and> \<not> q_clean q then (s, SaveRefused)
      else
        let s1 = save_generation gen s in
        if (q_reserve q \<or> q_room q \<noteq> None) \<and> \<not> save_needed q s1 then (s1, SaveNothing)
        else
          let (s2, j) = fold (collect_at q now) (pools s1) (s1, empty_job q s1) in
          if j_puts j = [] \<and> j_deletes j = [] \<and> \<not> j_changed j then (s2, SaveNothing)
          else (s2, SaveWrite j))"

text \<open>After a write that failed.\<close>

definition undo_write :: "pid \<times> rid \<Rightarrow> store \<Rightarrow> store" where
  "undo_write w s = on_pool (fst w) (\<lambda>p. p\<lparr>p_dirty := p_dirty p @ [snd w]\<rparr>) s"

definition undo_removal :: "pid \<times> rid \<times> u64 \<Rightarrow> store \<Rightarrow> store" where
  "undo_removal c s = (case c of (k, i, _) \<Rightarrow> on_pool k (upd_rec i (\<lambda>r. r\<lparr>r_removing := False\<rparr>)) s)"

definition forget :: "rid \<Rightarrow> u64 \<Rightarrow> pool \<Rightarrow> pool" where
  "forget i lastUse p =
     (let r = p_heap p i in
      if rec_at p (r_offset r) \<noteq> Some i \<or> r_lastUse r \<noteq> lastUse then p
      else
        let p' = pool_remove i p in
        if r_dirty r then p' else p'\<lparr>p_forgotten := p_forgotten p' @ [r_offset r]\<rparr>)"

definition forget_removal :: "pid \<Rightarrow> pid \<times> rid \<times> u64 \<Rightarrow> store \<Rightarrow> store" where
  "forget_removal full_pool c s =
     (case c of (k, i, lastUse) \<Rightarrow> if k \<noteq> full_pool then s else on_pool k (forget i lastUse) s)"

definition commit_failed :: "job \<Rightarrow> store \<Rightarrow> store" where
  "commit_failed j s =
     (let s1 = fold undo_removal (j_removals j)
                 (fold undo_write (j_written j) (s\<lparr>s_storageFailed := True\<rparr>)) in
      case j_room j of
        None \<Rightarrow> s1
      | Some k \<Rightarrow>
          (case pool_at s1 k of
             None \<Rightarrow> s1
           | Some p \<Rightarrow> if full p then fold (forget_removal k) (j_removals j) s1 else s1))"

text \<open>After a write that succeeded.\<close>

definition commit_write :: "pid \<times> rid \<Rightarrow> store \<Rightarrow> store" where
  "commit_write w s = on_pool (fst w) (upd_rec (snd w) (\<lambda>r. r\<lparr>r_dirty := False\<rparr>)) s"

definition remove_saved :: "rid \<Rightarrow> u64 \<Rightarrow> pool \<Rightarrow> pool" where
  "remove_saved i lastUse p =
     (let p1 = upd_rec i (\<lambda>r. r\<lparr>r_removing := False\<rparr>) p; r = p_heap p i in
      if rec_at p1 (r_offset r) \<noteq> Some i then p1
      else if r_lastUse r \<noteq> lastUse
      then (if r_dirty r then p1
            else (upd_rec i (\<lambda>r. r\<lparr>r_dirty := True\<rparr>) p1)\<lparr>p_dirty := p_dirty p1 @ [i]\<rparr>)
      else pool_remove i p1)"

definition commit_removal :: "pid \<times> rid \<times> u64 \<Rightarrow> store \<Rightarrow> store" where
  "commit_removal c s = (case c of (k, i, lastUse) \<Rightarrow> on_pool k (remove_saved i lastUse) s)"

definition commit_reserve :: "pid \<times> u64 \<times> u32 \<Rightarrow> store \<Rightarrow> store" where
  "commit_reserve c s =
     (case c of (k, advanced, lst) \<Rightarrow>
        on_pool k (\<lambda>p. p\<lparr>p_reserved := True, p_reserveLast := lst,
          p_budget := p_step p - ucast (min (p_advanced p - advanced) (ucast (p_step p)))\<rparr>) s)"

definition commit_saved :: "job \<Rightarrow> store \<Rightarrow> store" where
  "commit_saved j s =
     (let s1 = fold commit_write (j_written j) (s\<lparr>s_storageFailed := False\<rparr>);
          s2 = fold (\<lambda>k. on_pool k (\<lambda>p. p\<lparr>p_forgotten := []\<rparr>)) (pools s1) s1;
          s3 = fold commit_removal (j_removals j) s2 in
      fold commit_reserve (j_reserves j) s3)"

definition save_commit :: "bool \<Rightarrow> job \<Rightarrow> store \<Rightarrow> store" where
  "save_commit ok j s = (if ok then commit_saved j s else commit_failed j s)"

section \<open>Looking for unused records\<close>

definition sweep_pool :: "u32 \<Rightarrow> store \<Rightarrow> pool \<Rightarrow> (rid \<times> u64) list" where
  "sweep_pool tick s p =
     (let expired = filter (\<lambda>(i, lastUse).
            \<not> r_removing (p_heap p i) \<and> s_idleTicks s \<le> since tick lastUse)
            (map (\<lambda>(_, i). (i, r_lastUse (p_heap p i))) (p_byOffset p)) in
      if p_limit p < length (p_byOffset p) - length expired
      then oldest p (word_of_nat (length (p_byOffset p) - (p_limit p - p_limit p div 8)))
             (s_protectTicks s) tick
      else expired)"

definition sweep_find :: "u32 \<Rightarrow> store \<Rightarrow> (pid \<times> rid \<times> u64) list" where
  "sweep_find tick s =
     concat (map (\<lambda>k. case pool_at s k of None \<Rightarrow> []
                    | Some p \<Rightarrow> map (\<lambda>(i, u). (k, i, u)) (sweep_pool tick s p)) (pools s))"

definition expire :: "pid \<times> rid \<times> u64 \<Rightarrow> store \<Rightarrow> store" where
  "expire c s = (case c of (k, i, u) \<Rightarrow> on_pool k (\<lambda>p. p\<lparr>p_expired := p_expired p @ [(i, u)]\<rparr>) s)"

definition release_unused :: "pid \<times> rid \<times> u64 \<Rightarrow> store \<Rightarrow> store" where
  "release_unused c s =
     (case c of (k, i, u) \<Rightarrow>
        (case pool_at s k of
           None \<Rightarrow> s
         | Some p \<Rightarrow>
             if rec_at p (r_offset (p_heap p i)) = Some i \<and> r_lastUse (p_heap p i) = u
             then release k i s else s))"

definition sweep_apply :: "(pid \<times> rid \<times> u64) list \<Rightarrow> store \<Rightarrow> store" where
  "sweep_apply found s =
     (if s_storage s then fold expire found s else fold release_unused found s)"

definition savePending :: "u64 \<Rightarrow> store \<Rightarrow> bool" where
  "savePending gen s =
     (gen \<noteq> s_generation s \<or>
      list_ex (\<lambda>k. case pool_at s k of None \<Rightarrow> False
        | Some p \<Rightarrow> p_dirty p \<noteq> [] \<or> p_expired p \<noteq> [] \<or> p_forgotten p \<noteq> [] \<or> \<not> p_reserved p \<or>
            p_budget p < p_step p div 2) (pools s))"

section \<open>Start\<close>

text \<open>The callback \<open>load\<close> of \<open>Store.load\<close>: one saved record.\<close>

definition load_record :: "store \<Rightarrow> addr \<Rightarrow> string \<Rightarrow> store \<times> bool" where
  "load_record s a domain =
     (case poolOf s a of
        None \<Rightarrow> (s, False)
      | Some k \<Rightarrow>
          if domain = [] then (s, False)
          else
            (case pool_at s k of
               None \<Rightarrow> (s, False)
             | Some p \<Rightarrow>
                 (case offset_of p a of
                    None \<Rightarrow> (s, False)
                  | Some offset \<Rightarrow>
                      if offset < p_first p then (s, False)
                      else (set_pool k (put_rec \<lparr>r_domain = to_lower domain, r_offset = offset,
                              r_lastUse = 0, r_dirty = False, r_removing = False\<rparr> p) s, True))))"

definition saved_current :: "metadata option \<Rightarrow> store \<Rightarrow> pid \<Rightarrow> addr" where
  "saved_current m s k =
     (case m of
        None \<Rightarrow> NoAddr
      | Some m \<Rightarrow>
          if k = P6 \<and> m_inet6Range m = s_inet6Range s then m_inet6Current m
          else if k = P4 \<and> m_inet4Range m = s_inet4Range s then m_inet4Current m
          else NoAddr)"

definition restore_pool :: "metadata option \<Rightarrow> bool \<Rightarrow> store \<Rightarrow> pid \<Rightarrow> pool \<Rightarrow> pool" where
  "restore_pool m clean s k p =
     (let (p1, lst) = restore p (saved_current m s k) (s_startTick s - 1) in
      case lst of
        None \<Rightarrow> p1
      | Some l \<Rightarrow>
          if \<not> clean \<and> 0 < s_protectTicks s
          then hold l (push_bit 32 (ucast (s_startTick s - 1 - (s_idleTicks s - s_protectTicks s)))) p1
          else p1)"

definition restore_pools :: "metadata option \<Rightarrow> bool \<Rightarrow> store \<Rightarrow> store" where
  "restore_pools m clean s = fold (\<lambda>k. on_pool k (restore_pool m clean s k)) (pools s) s"

text \<open>The check of \<open>Start\<close> before anything is loaded.\<close>

definition start_error :: "store \<Rightarrow> store_error option" where
  "start_error s =
     (case filter (\<lambda>k. case pool_at s k of None \<Rightarrow> False | Some p \<Rightarrow> usable p = 0) (pools s) of
        [] \<Rightarrow> None
      | k # _ \<Rightarrow> map_option (\<lambda>p. NoAddressToGive (p_prefix p)) (pool_at s k))"

definition close_store :: "store \<Rightarrow> store" where
  "close_store s = s\<lparr>s_closed := True\<rparr>"

end
