(* ===== verification/FakeIP_Inv.thy ===== *)
theory FakeIP_Inv
  imports FakeIP_Store "HOL-Library.Multiset"
begin

text \<open>
  Every operation of the store keeps the tables of both ranges consistent, and what the
  operations return is right as long as they are.
\<close>

section \<open>One range of the store\<close>

lemma pool_at_set_pool [simp]: "pool_at (set_pool k p s) k' = (if k' = k then Some p else pool_at s k')"
  by (cases k; cases k') simp_all

lemma set_pool_fields [simp]:
  "s_inet4Range (set_pool k p s) = s_inet4Range s" "s_inet6Range (set_pool k p s) = s_inet6Range s"
  "s_uses (set_pool k p s) = s_uses s" "s_startTick (set_pool k p s) = s_startTick s"
  "s_idleTicks (set_pool k p s) = s_idleTicks s" "s_protectTicks (set_pool k p s) = s_protectTicks s"
  "s_closed (set_pool k p s) = s_closed s" "s_storage (set_pool k p s) = s_storage s"
  "s_generation (set_pool k p s) = s_generation s"
  "s_storageFailed (set_pool k p s) = s_storageFailed s" "s_wake (set_pool k p s) = s_wake s"
  by (cases k; simp)+

lemma pool_at_fields [simp]:
  "pool_at (s\<lparr>s_uses := v1\<rparr>) k = pool_at s k" "pool_at (s\<lparr>s_closed := v2\<rparr>) k = pool_at s k"
  "pool_at (s\<lparr>s_generation := v3\<rparr>) k = pool_at s k"
  "pool_at (s\<lparr>s_storageFailed := v4\<rparr>) k = pool_at s k" "pool_at (s\<lparr>s_wake := v5\<rparr>) k = pool_at s k"
  "pool_at (s\<lparr>s_storage := v6\<rparr>) k = pool_at s k"
  by (cases k; simp)+

lemma pool_at_on_pool [simp]:
  "pool_at (on_pool k f s) k' = (if k' = k then map_option f (pool_at s k) else pool_at s k')"
  by (simp add: on_pool_def split: option.split)

lemma on_pool_fields [simp]:
  "s_inet4Range (on_pool k f s) = s_inet4Range s" "s_inet6Range (on_pool k f s) = s_inet6Range s"
  "s_uses (on_pool k f s) = s_uses s" "s_startTick (on_pool k f s) = s_startTick s"
  "s_idleTicks (on_pool k f s) = s_idleTicks s" "s_protectTicks (on_pool k f s) = s_protectTicks s"
  "s_closed (on_pool k f s) = s_closed s" "s_storage (on_pool k f s) = s_storage s"
  "s_generation (on_pool k f s) = s_generation s"
  "s_storageFailed (on_pool k f s) = s_storageFailed s" "s_wake (on_pool k f s) = s_wake s"
  by (simp_all add: on_pool_def split: option.split)

lemma set_pools [simp]: "set (pools s) = {k. pool_at s k \<noteq> None}"
proof -
  have "k \<in> set (pools s) \<longleftrightarrow> pool_at s k \<noteq> None" for k
    by (cases k) (auto simp: pools_def)
  then show ?thesis by blast
qed

lemma distinct_pools [simp]: "distinct (pools s)"
  by (simp add: pools_def)

text \<open>A list of changes, each for one of the ranges, is for every range the list of its own.\<close>

definition changes_of :: "pid \<Rightarrow> (pid \<times> 'a) list \<Rightarrow> 'a list" where
  "changes_of k cs = map snd (filter (\<lambda>c. fst c = k) cs)"

lemma changes_of_simps [simp]:
  "changes_of k [] = []" "changes_of k ((k', x) # cs) = (if k' = k then x # changes_of k cs else changes_of k cs)"
  "changes_of k (cs @ ds) = changes_of k cs @ changes_of k ds"
  by (simp_all add: changes_of_def)

lemma set_changes_of [simp]: "x \<in> set (changes_of k cs) \<longleftrightarrow> (k, x) \<in> set cs"
  by (force simp: changes_of_def)

lemma pool_at_fold_changes:
  "pool_at (fold (\<lambda>c. on_pool (fst c) (g (snd c))) cs s) k =
     map_option (fold g (changes_of k cs)) (pool_at s k)"
  by (induction cs arbitrary: s) (auto simp: option.map_comp comp_def changes_of_def option.map_id)

lemma pool_at_fold_pools:
  "distinct ks \<Longrightarrow> pool_at (fold (\<lambda>k. on_pool k (g k)) ks s) k =
     (if k \<in> set ks then map_option (g k) (pool_at s k) else pool_at s k)"
  by (induction ks arbitrary: s) auto

lemma pool_at_all_pools:
  "pool_at (fold (\<lambda>k. on_pool k (g k)) (pools s) t) k =
     (if pool_at s k = None then pool_at t k else map_option (g k) (pool_at t k))"
  by (simp add: pool_at_fold_pools)

lemma fold_on_pool_fields:
  assumes "\<And>x s. f (h x s) = f s"
  shows "f (fold h xs s) = f s"
  by (induction xs arbitrary: s) (simp_all add: assms)

lemma fold_invariant:
  assumes "\<And>x p. x \<in> set xs \<Longrightarrow> P p \<Longrightarrow> P (g x p)" and "P p"
  shows "P (fold g xs p)"
  using assms by (induction xs arbitrary: p) simp_all

section \<open>The invariant of the store\<close>

definition store_inv :: "store \<Rightarrow> bool" where
  "store_inv s \<longleftrightarrow> (\<forall>k p. pool_at s k = Some p \<longrightarrow> pool_inv p)"

lemma store_invI: "(\<And>k p. pool_at s k = Some p \<Longrightarrow> pool_inv p) \<Longrightarrow> store_inv s"
  by (simp add: store_inv_def)

lemma store_invD: "store_inv s \<Longrightarrow> pool_at s k = Some p \<Longrightarrow> pool_inv p"
  by (simp add: store_inv_def)

lemma store_inv_fields [simp]:
  "store_inv (s\<lparr>s_uses := v1\<rparr>) = store_inv s" "store_inv (s\<lparr>s_closed := v2\<rparr>) = store_inv s"
  "store_inv (s\<lparr>s_generation := v3\<rparr>) = store_inv s"
  "store_inv (s\<lparr>s_storageFailed := v4\<rparr>) = store_inv s" "store_inv (s\<lparr>s_wake := v5\<rparr>) = store_inv s"
  "store_inv (s\<lparr>s_storage := v6\<rparr>) = store_inv s"
  by (simp_all add: store_inv_def)

lemma store_inv_on_pool:
  assumes "store_inv s" "\<And>p. pool_at s k = Some p \<Longrightarrow> pool_inv p \<Longrightarrow> pool_inv (f p)"
  shows "store_inv (on_pool k f s)"
  using assms by (auto simp: store_inv_def)

lemma store_inv_set_pool: "store_inv s \<Longrightarrow> pool_inv p \<Longrightarrow> store_inv (set_pool k p s)"
  by (simp add: store_inv_def)

lemma store_inv_all_pools:
  assumes "store_inv t" "\<And>k p. pool_at t k = Some p \<Longrightarrow> pool_inv p \<Longrightarrow> pool_inv (g k p)"
  shows "store_inv (fold (\<lambda>k. on_pool k (g k)) (pools s) t)"
  using assms by (auto simp: store_inv_def pool_at_all_pools split: if_splits)

subsection \<open>Changes of one range\<close>

text \<open>The record an entry of a list of candidates names is only removed when it is in the table.\<close>

lemma pool_inv_remove_if:
  "pool_inv p \<Longrightarrow> pool_inv (if rec_at p (r_offset (p_heap p i)) = Some i \<and> b then pool_remove i p else p)"
  using pool_inv_pool_remove by auto

lemma pool_inv_forget: "pool_inv p \<Longrightarrow> pool_inv (forget i u p)"
  using pool_inv_pool_remove by (auto simp: forget_def Let_def)

lemma pool_inv_remove_saved: "pool_inv p \<Longrightarrow> pool_inv (remove_saved i u p)"
  by (auto simp: remove_saved_def Let_def pool_inv_upd_rec intro!: pool_inv_pool_remove)

lemma pool_inv_resave: "pool_inv p \<Longrightarrow> pool_inv (resave_pool p)"
  unfolding resave_pool_def Let_def
  by (simp, rule fold_invariant [where P = pool_inv]) (simp_all add: pool_inv_upd_rec)

lemma pool_inv_reset: "pool_inv p \<Longrightarrow> pool_inv (reset_pool p)"
  by (simp add: reset_pool_def pool_inv_def table_ok_def)

lemma pool_inv_collect_expired:
  "pool_inv p \<Longrightarrow> pool_inv (fst (collect_expired q cs p))"
  by (induction q cs p rule: collect_expired.induct)
    (auto simp: Let_def pool_inv_upd_rec split: prod.splits)

lemma pool_inv_collect_pool: "pool_inv p \<Longrightarrow> pool_inv (fst (collect_pool q now k p j))"
proof -
  assume p: "pool_inv p"
  have "pool_inv p1" if "collect_expired q cs p = (p1, rs)" for cs p1 rs
    using pool_inv_collect_expired [OF p, of q cs] that by simp
  then show ?thesis by (auto simp: collect_pool_def Let_def split: prod.splits if_splits)
qed

subsection \<open>Operations\<close>

lemma stamp_fst [simp]: "fst (stamp now s) = s\<lparr>s_uses := s_uses s + 1\<rparr>"
  by (simp add: stamp_def Let_def)

lemma touch_alt: "touch now k i s =
  on_pool k (upd_rec i (\<lambda>r. r\<lparr>r_lastUse := snd (stamp now s)\<rparr>)) (s\<lparr>s_uses := s_uses s + 1\<rparr>)"
  by (simp add: touch_def split_beta)

lemma store_inv_touch: "store_inv s \<Longrightarrow> store_inv (touch now k i s)"
  unfolding touch_alt by (rule store_inv_on_pool) (simp_all add: pool_inv_upd_rec)

lemma store_inv_find_domain: "store_inv s \<Longrightarrow> store_inv (fst (find_domain now k d s))"
  by (auto simp: find_domain_def store_inv_touch split: option.split)

lemma pool_inv_alloc_step: "pool_inv p \<Longrightarrow> pool_inv ((alloc_step saved ^^ n) p)"
  unfolding funpow_alloc_step using funpow_after_ring [of p "p_next p" n] by (simp add: pool_inv_def)

lemma alloc_steps_fields [simp]:
  "p_byOffset ((alloc_step saved ^^ n) p) = p_byOffset p" "p_byName ((alloc_step saved ^^ n) p) = p_byName p"
  "p_heap ((alloc_step saved ^^ n) p) = p_heap p" "p_fresh ((alloc_step saved ^^ n) p) = p_fresh p"
  "in_ring ((alloc_step saved ^^ n) p) = in_ring p" "address ((alloc_step saved ^^ n) p) = address p"
  "p_dirty ((alloc_step saved ^^ n) p) = p_dirty p" "p_prefix ((alloc_step saved ^^ n) p) = p_prefix p"
  "p_expired ((alloc_step saved ^^ n) p) = p_expired p" "p_step ((alloc_step saved ^^ n) p) = p_step p"
  "p_forgotten ((alloc_step saved ^^ n) p) = p_forgotten p" "p_max ((alloc_step saved ^^ n) p) = p_max p"
  "p_reserved ((alloc_step saved ^^ n) p) = p_reserved p"
  "p_reserveLast ((alloc_step saved ^^ n) p) = p_reserveLast p"
  "offset_of ((alloc_step saved ^^ n) p) = offset_of p" "usable ((alloc_step saved ^^ n) p) = usable p"
  "pool_static ((alloc_step saved ^^ n) p) = pool_static p"
  by (simp_all add: funpow_alloc_step)

declare funpow.simps(2) [simp del]

text \<open>
  What the loop of \<open>allocate\<close> does in a range that is not full: it ends, at a free offset of
  the range or with the reserve used up.
\<close>

lemma alloc_loop_cases:
  assumes "pool_inv p" "\<not> full p"
  obtains n where "n < unat (usable p)" "reserve_ends saved failed p n"
      "alloc_loop saved failed p = Some ((alloc_step saved ^^ n) p, None)"
      "\<forall>j < n. \<not> reserve_ends saved failed p j \<and> rec_at p (tried p j) \<noteq> None"
    | n where "n < unat (usable p)" "\<not> reserve_ends saved failed p n"
      "rec_at p (tried p n) = None" "in_ring p (tried p n)"
      "alloc_loop saved failed p = Some ((alloc_step saved ^^ Suc n) p, Some (tried p n))"
      "\<forall>j < n. \<not> reserve_ends saved failed p j \<and> rec_at p (tried p j) \<noteq> None"
proof -
  obtain f where f: "in_ring p f" "rec_at p f = None" using assms by (rule not_full_free)
  from alloc_loop_ends [OF assms(1) f, of saved failed] show ?thesis
    using that tried_ring(1) [OF assms(1)] by metis
qed

lemma give_out_pool:
  "pool_at (give_out now k d off p s) k =
     Some (let i = p_fresh p;
               p1 = put_rec \<lparr>r_domain = d, r_offset = off, r_lastUse = snd (stamp now s),
                      r_dirty = s_storage s, r_removing = False\<rparr> p;
               p2 = p1\<lparr>p_byName := (p_byName p)(d \<mapsto> i)\<rparr> in
           if s_storage s then p2\<lparr>p_dirty := p_dirty p @ [i]\<rparr> else p2)"
  by (simp add: give_out_def Let_def split_beta signal_def)

lemma give_out_other: "k' \<noteq> k \<Longrightarrow> pool_at (give_out now k d off p s) k' = pool_at s k'"
  by (simp add: give_out_def Let_def split_beta signal_def)

lemma table_ok_name_put:
  assumes "table_ok p" "in_ring p (r_offset r)" "rec_at p (r_offset r) = None" "r_domain r \<noteq> []"
  shows "table_ok ((put_rec r p)\<lparr>p_byName := (p_byName p)(r_domain r \<mapsto> p_fresh p)\<rparr>)"
proof -
  let ?p = "put_rec r p"
  have t: "table_ok ?p" using assms(1-3) by (rule table_ok_put_rec)
  show ?thesis
  proof (rule table_okI, goal_cases)
    case 1 then show ?case using table_ok_distinct [OF t] by simp
  next
    case (2 o' i) then show ?case using table_ok_rec [OF t, of o' i] by simp
  next
    case (3 d i) then show ?case
      using table_ok_name [OF t, of d i] assms(4) by (cases "d = r_domain r") auto
  qed
qed

lemma store_inv_give_out:
  assumes "store_inv s" "pool_inv p" "in_ring p off" "rec_at p off = None" "d \<noteq> []"
  shows "store_inv (give_out now k d off p s)"
proof (rule store_invI)
  fix k' q assume q: "pool_at (give_out now k d off p s) k' = Some q"
  define r where "r = \<lparr>r_domain = d, r_offset = off, r_lastUse = snd (stamp now s),
    r_dirty = s_storage s, r_removing = False\<rparr>"
  have "table_ok ((put_rec r p)\<lparr>p_byName := (p_byName p)(r_domain r \<mapsto> p_fresh p)\<rparr>)"
    using assms by (intro table_ok_name_put) (simp_all add: r_def pool_inv_def)
  then have "pool_inv ((put_rec r p)\<lparr>p_byName := (p_byName p)(d \<mapsto> p_fresh p)\<rparr>)"
    using assms(2) by (simp add: pool_inv_def r_def)
  then show "pool_inv q"
    using q assms(1) give_out_pool [of now k d off p s] give_out_other [of k' k now d off p s]
    by (cases "k' = k") (auto simp: r_def Let_def store_inv_def split: if_splits)
qed

text \<open>All the ways \<open>allocate\<close> ends.\<close>

lemma allocate_cases:
  assumes "store_inv s" "pool_at s k = Some p"
  obtains (known) i where "p_byName p d = Some i"
      "allocate now gen k d s = Some (touch now k i s, needNothing, Inr (address p (r_offset (p_heap p i))))"
    | (closed) "p_byName p d = None" "s_closed s"
      "allocate now gen k d s = Some (s, needNothing, Inl StoreClosed)"
    | (full) "p_byName p d = None" "\<not> s_closed s" "full p"
      "allocate now gen k d s = Some (s, needRoom, Inr NoAddr)"
    | (generation) "p_byName p d = None" "\<not> s_closed s" "\<not> full p" "s_storage s" "gen \<noteq> s_generation s"
      "allocate now gen k d s = Some (s, needReserve, Inr NoAddr)"
    | (reserve) n where "p_byName p d = None" "\<not> s_closed s" "\<not> full p"
      "s_storage s \<longrightarrow> gen = s_generation s"
      "n < unat (usable p)" "reserve_ends (s_storage s) (s_storageFailed s) p n"
      "allocate now gen k d s =
         Some (set_pool k ((alloc_step (s_storage s) ^^ n) p) s, needReserve, Inr NoAddr)"
      "\<forall>j < n. \<not> reserve_ends (s_storage s) (s_storageFailed s) p j \<and> rec_at p (tried p j) \<noteq> None"
    | (given) n where "p_byName p d = None" "\<not> s_closed s" "\<not> full p"
      "s_storage s \<longrightarrow> gen = s_generation s"
      "n < unat (usable p)" "\<not> reserve_ends (s_storage s) (s_storageFailed s) p n"
      "rec_at p (tried p n) = None" "in_ring p (tried p n)"
      "allocate now gen k d s =
         Some (give_out now k d (tried p n) ((alloc_step (s_storage s) ^^ Suc n) p) s, needNothing,
           Inr (address p (tried p n)))"
      "\<forall>j < n. \<not> reserve_ends (s_storage s) (s_storageFailed s) p j \<and> rec_at p (tried p j) \<noteq> None"
proof -
  have p: "pool_inv p" using assms by (rule store_invD)
  consider i where "p_byName p d = Some i" | "p_byName p d = None" "s_closed s"
    | "p_byName p d = None" "\<not> s_closed s" "full p"
    | "p_byName p d = None" "\<not> s_closed s" "\<not> full p" "s_storage s" "gen \<noteq> s_generation s"
    | "p_byName p d = None" "\<not> s_closed s" "\<not> full p" "s_storage s \<longrightarrow> gen = s_generation s"
    by (cases "p_byName p d") auto
  then show ?thesis
  proof cases
    case 1 then show ?thesis using assms(2) by (intro known) (simp_all add: allocate_def)
  next
    case 2 then show ?thesis using assms(2) by (intro closed) (simp_all add: allocate_def)
  next
    case 3 then show ?thesis using assms(2) by (intro full) (simp_all add: allocate_def)
  next
    case 4 then show ?thesis using assms(2) by (intro generation) (simp_all add: allocate_def)
  next
    case 5
    from alloc_loop_cases [OF p 5(3), of "s_storage s" "s_storageFailed s"] show ?thesis
    proof cases
      case (1 n) then show ?thesis
        using 5 assms(2) by (intro reserve [of n]) (auto simp: allocate_def)
    next
      case (2 n) then show ?thesis
        using 5 assms(2) by (intro given [of n]) (auto simp: allocate_def)
    qed
  qed
qed

lemma allocate_total:
  assumes "store_inv s"
  shows "\<exists>r. allocate now gen k d s = Some r"
proof (cases "pool_at s k")
  case None then show ?thesis by (simp add: allocate_def)
next
  case (Some p) then show ?thesis by (rule allocate_cases [OF assms, of k p d now gen]) simp_all
qed

lemma store_inv_allocate:
  assumes "store_inv s" "d \<noteq> []" "allocate now gen k d s = Some (s', need, res)"
  shows "store_inv s'"
proof (cases "pool_at s k")
  case None
  then show ?thesis using assms by (auto simp: allocate_def)
next
  case (Some p)
  have p: "pool_inv p" using assms(1) Some by (rule store_invD)
  note ok = pool_inv_alloc_step [OF p, where saved = "s_storage s"]
  from Some show ?thesis
  proof (rule allocate_cases [OF assms(1), of k p d now gen], goal_cases)
    case (5 n) then show ?case using assms(1,3) ok by (auto intro: store_inv_set_pool)
  next
    case (6 n)
    then have "store_inv (give_out now k d (tried p n) ((alloc_step (s_storage s) ^^ Suc n) p) s)"
      using assms(1,2) ok by (intro store_inv_give_out) simp_all
    then show ?case using assms(3) 6 by simp
  qed (use assms(1,3) store_inv_touch in auto)
qed

lemma store_inv_release_unused: "store_inv s \<Longrightarrow> store_inv (release_unused c s)"
  by (auto simp: release_unused_def release_def split: prod.split option.split
      intro!: store_inv_on_pool pool_inv_pool_remove)

lemma oldest_in_table:
  assumes "(i, u) \<in> set (oldest p n protect tick)"
  shows "\<exists>o'. (o', i) \<in> set (p_byOffset p)" "u = r_lastUse (p_heap p i)" "\<not> r_removing (p_heap p i)"
  using assms by (auto simp: oldest_def Let_def split: if_splits dest!: in_set_takeD)

text \<open>
  Records that leave together are records of the table, each named once: removing one keeps the
  others in the table.
\<close>

lemma pool_inv_remove_all:
  assumes "pool_inv p" "distinct (map fst cs)"
    and "\<And>i u. (i, u) \<in> set cs \<Longrightarrow> rec_at p (r_offset (p_heap p i)) = Some i"
  shows "pool_inv (fold (\<lambda>(i, _). pool_remove i) cs p)"
  using assms
proof (induction cs arbitrary: p)
  case Nil then show ?case by simp
next
  case (Cons c cs)
  obtain i u where c: "c = (i, u)" by (cases c)
  have i: "rec_at p (r_offset (p_heap p i)) = Some i" using Cons.prems(3) [of i u] by (simp add: c)
  have "rec_at (pool_remove i p) (r_offset (p_heap (pool_remove i p) j)) = Some j"
    if j: "(j, v) \<in> set cs" for j v
  proof -
    have "rec_at p (r_offset (p_heap p j)) = Some j" using Cons.prems(3) [of j v] j by simp
    moreover have "j \<noteq> i" using Cons.prems(2) j by (force simp: c)
    ultimately show ?thesis using i by auto
  qed
  then have "pool_inv (fold (\<lambda>(i, _). pool_remove i) cs (pool_remove i p))"
    using Cons.prems(1,2) i by (intro Cons.IH) (auto simp: c intro: pool_inv_pool_remove)
  then show ?case by (simp add: c)
qed

lemma pool_inv_entry:
  assumes "pool_inv p" "(o', i) \<in> set (p_byOffset p)"
  shows "rec_at p o' = Some i" "r_offset (p_heap p i) = o'"
proof -
  show r: "rec_at p o' = Some i"
    using assms by (simp add: pool_inv_def table_ok_def map_of_eq_Some_iff)
  show "r_offset (p_heap p i) = o'" using pool_inv_rec(2) [OF assms(1) r] .
qed

lemma distinct_rids:
  assumes "pool_inv p"
  shows "distinct (map snd (p_byOffset p))"
proof -
  have d: "distinct (map fst (p_byOffset p))" using assms by (simp add: pool_inv_def table_ok_def)
  have "map fst (p_byOffset p) = map (\<lambda>i. r_offset (p_heap p i)) (map snd (p_byOffset p))"
    using pool_inv_entry(2) [OF assms] by (auto simp: map_eq_conv)
  then show ?thesis using d by (metis distinct_map)
qed

lemma distinct_oldest:
  assumes "pool_inv p"
  shows "distinct (map fst (oldest p n protect tick))"
proof -
  have "distinct (map fst (map (\<lambda>(_, i). (i, r_lastUse (p_heap p i))) (p_byOffset p)))"
    using distinct_rids [OF assms] by (simp add: case_prod_beta comp_def)
  then have f: "distinct (map fst (filter P (map (\<lambda>(_, i). (i, r_lastUse (p_heap p i))) (p_byOffset p))))" for P
    by (rule distinct_map_filter)
  have s: "distinct (map fst (sort_key snd xs))" if "distinct (map fst xs)" for xs :: "(rid \<times> u64) list"
  proof -
    have "mset (map fst (sort_key snd xs)) = mset (map fst xs)" by (simp only: mset_map mset_sort)
    then show ?thesis using that by (metis mset_eq_imp_distinct_iff)
  qed
  show ?thesis unfolding oldest_def Let_def
    by (auto simp: take_map [symmetric] intro!: s f distinct_take simp del: filter_map)
qed

lemma store_inv_makeRoom: "store_inv s \<Longrightarrow> store_inv (makeRoom_memory now k s)"
proof (cases "pool_at s k")
  case None then show "store_inv s \<Longrightarrow> ?thesis" by (simp add: makeRoom_memory_def)
next
  case (Some p)
  assume s: "store_inv s"
  let ?cs = "oldest p (room p) 0 now"
  have p: "pool_inv p" using s Some by (rule store_invD)
  have e: "fold (\<lambda>(i, _). release k i) cs s = on_pool k (fold (\<lambda>(i, _). pool_remove i) cs) s" for cs
  proof -
    have "fold (\<lambda>(i, _). release k i) cs t = on_pool k (fold (\<lambda>(i, _). pool_remove i) cs) t"
      if "pool_at t k \<noteq> None" for t using that
      by (induction cs arbitrary: t; cases k)
        (auto simp: release_def on_pool_def split: option.splits)
    then show ?thesis using Some by simp
  qed
  have "pool_inv (fold (\<lambda>(i, _). pool_remove i) ?cs p)"
    using p distinct_oldest [OF p] oldest_in_table(1) [of _ _ p] pool_inv_entry [OF p]
    by (intro pool_inv_remove_all) (blast, blast, metis)
  then show ?thesis using s Some by (auto simp: makeRoom_memory_def e intro!: store_inv_on_pool)
qed

lemma store_inv_Lookup: "store_inv s \<Longrightarrow> store_inv (fst (Lookup now a s))"
  by (auto simp: Lookup_def store_inv_touch split: option.split)

lemma store_inv_reset_pools: "store_inv s \<Longrightarrow> store_inv (reset_pools s)"
  unfolding reset_pools_def by (rule store_inv_all_pools) (simp_all add: pool_inv_reset)

lemma store_inv_save_generation: "store_inv s \<Longrightarrow> store_inv (save_generation gen s)"
  unfolding save_generation_def by (auto intro!: store_inv_all_pools pool_inv_resave)

lemma store_inv_collect_at: "store_inv (fst sj) \<Longrightarrow> store_inv (fst (collect_at q now k sj))"
  using pool_inv_collect_pool
  by (fastforce simp: collect_at_def Let_def split_beta split: option.split
      intro: store_inv_set_pool store_invD)

lemma store_inv_save_collect: "store_inv s \<Longrightarrow> store_inv (fst (save_collect gen q now s))"
proof -
  assume "store_inv s"
  then have s1: "store_inv (save_generation gen s)" by (rule store_inv_save_generation)
  have "store_inv (fst (fold (collect_at q now) ks (save_generation gen s, j)))" for ks j
    by (rule fold_invariant [where P = "\<lambda>sj. store_inv (fst sj)"])
      (simp_all add: store_inv_collect_at s1)
  with s1 \<open>store_inv s\<close> show ?thesis
    by (auto simp: save_collect_def Let_def split: prod.split) (metis fst_conv)+
qed

lemma store_inv_save_commit: "store_inv s \<Longrightarrow> store_inv (save_commit ok j s)"
proof -
  assume s: "store_inv s"
  have "store_inv (fold commit_reserve xs t)" if "store_inv t" for xs t
    using that by (rule fold_invariant [rotated]) (auto simp: commit_reserve_def intro!: store_inv_on_pool)
  moreover have "store_inv (fold commit_removal xs t)" if "store_inv t" for xs t
    using that by (rule fold_invariant [rotated])
      (auto simp: commit_removal_def intro!: store_inv_on_pool pool_inv_remove_saved)
  moreover have "store_inv (fold commit_write xs t)" if "store_inv t" for xs t
    using that by (rule fold_invariant [rotated])
      (auto simp: commit_write_def pool_inv_upd_rec intro!: store_inv_on_pool)
  moreover have "store_inv (fold undo_write xs t)" if "store_inv t" for xs t
    using that by (rule fold_invariant [rotated]) (auto simp: undo_write_def intro!: store_inv_on_pool)
  moreover have "store_inv (fold undo_removal xs t)" if "store_inv t" for xs t
    using that by (rule fold_invariant [rotated])
      (auto simp: undo_removal_def pool_inv_upd_rec intro!: store_inv_on_pool)
  moreover have "store_inv (fold (forget_removal k) xs t)" if "store_inv t" for xs t k
    using that by (rule fold_invariant [rotated])
      (auto simp: forget_removal_def intro!: store_inv_on_pool pool_inv_forget)
  moreover have "store_inv (fold (\<lambda>k. on_pool k (\<lambda>p. p\<lparr>p_forgotten := []\<rparr>)) ks t)" if "store_inv t" for ks t
    using that by (rule fold_invariant [rotated]) (auto intro!: store_inv_on_pool)
  ultimately show ?thesis using s
    by (simp add: save_commit_def commit_saved_def commit_failed_def Let_def split: option.split)
qed

lemma store_inv_sweep_apply: "store_inv s \<Longrightarrow> store_inv (sweep_apply found s)"
proof -
  assume s: "store_inv s"
  have "store_inv (fold expire found s)" using s
    by (rule fold_invariant [rotated]) (auto simp: expire_def intro!: store_inv_on_pool)
  moreover have "store_inv (fold release_unused found s)" using s
    by (rule fold_invariant [rotated]) (rule store_inv_release_unused)
  ultimately show ?thesis by (simp add: sweep_apply_def)
qed

subsection \<open>Start\<close>

text \<open>While the table is read no name is indexed yet, so a record may replace another.\<close>

lemma table_ok_load:
  assumes "table_ok p" "p_byName p = Map.empty" "in_ring p (r_offset r)"
  shows "table_ok (put_rec r p)"
proof (rule table_okI)
  show "distinct (map fst (p_byOffset (put_rec r p)))"
    using table_ok_distinct [OF assms(1)] by (simp add: distinct_update)
next
  fix o' i assume "rec_at (put_rec r p) o' = Some i"
  then show "in_ring (put_rec r p) o' \<and> r_offset (p_heap (put_rec r p) i) = o' \<and> i < p_fresh (put_rec r p)"
    using assms(3) table_ok_rec [OF assms(1), of o' i] by (auto split: if_splits)
qed (simp add: assms(2))

definition loading :: "pool \<Rightarrow> bool" where
  "loading p \<longleftrightarrow> pool_inv p \<and> p_byName p = Map.empty \<and>
     (\<forall>o' i. rec_at p o' = Some i \<longrightarrow> r_domain (p_heap p i) \<noteq> [])"

lemma loading_newPool:
  "prefix_valid pre \<Longrightarrow> usable (newPool pre) \<noteq> 0 \<Longrightarrow> loading (newPool pre)"
  using pool_inv_newPool by (simp add: loading_def) (simp add: newPool_def Let_def)

lemma loading_put_rec:
  assumes "loading p" "in_ring p (r_offset r)" "r_domain r \<noteq> []"
  shows "loading (put_rec r p)"
proof -
  have "pool_inv (put_rec r p)"
    using assms table_ok_load [of p r] by (simp add: loading_def pool_inv_def)
  moreover have "r_domain (p_heap (put_rec r p) i) \<noteq> []" if "rec_at (put_rec r p) o' = Some i" for o' i
    using that assms(1,3) by (auto simp: loading_def split: if_splits)
  ultimately show ?thesis using assms(1) by (simp add: loading_def)
qed

lemma in_range_less:
  assumes "in_range p x = Some off"
  shows "off < p_end p"
proof -
  have "x < ucast (p_end p)" "off = ucast x" using assms by (auto simp: in_range_def split: if_splits)
  then have "unat x < unat (p_end p)" by (simp add: word_less_nat_alt)
  moreover have "unat off \<le> unat x" using \<open>off = ucast x\<close> by (simp add: unsigned_ucast_eq)
  ultimately show ?thesis by (simp add: word_less_nat_alt)
qed

lemma offset_of_in_range: "offset_of p a = Some off \<Longrightarrow> off < p_end p"
  by (auto simp: offset_of_def in_range_less split: addr.splits if_splits)

text \<open>What \<open>load\<close> accepts is stored in its range; everything else is refused.\<close>

lemma load_record_cases:
  obtains (refused) "load_record s a d = (s, False)"
    | (taken) k p off where "poolOf s a = Some k" "pool_at s k = Some p" "offset_of p a = Some off"
      "p_first p \<le> off" "d \<noteq> []"
      "load_record s a d = (set_pool k (put_rec \<lparr>r_domain = to_lower d, r_offset = off,
         r_lastUse = 0, r_dirty = False, r_removing = False\<rparr> p) s, True)"
proof (cases "snd (load_record s a d)")
  case False
  then have "load_record s a d = (s, False)"
    by (auto simp: load_record_def split: option.splits if_splits)
  then show ?thesis by (rule refused)
next
  case True
  then obtain k p off where "poolOf s a = Some k" "pool_at s k = Some p" "offset_of p a = Some off"
    "\<not> off < p_first p" "d \<noteq> []" by (auto simp: load_record_def split: option.splits if_splits)
  then show ?thesis by (intro taken [of k p off]) (simp_all add: load_record_def)
qed

lemma load_record_loading:
  assumes "\<And>k p. pool_at s k = Some p \<Longrightarrow> loading p" "pool_at (fst (load_record s a d)) k = Some p"
  shows "loading p"
proof (cases rule: load_record_cases [of s a d])
  case refused then show ?thesis using assms by simp
next
  case (taken k' q off)
  have "in_ring q off" using taken(4) offset_of_in_range [OF taken(3)] by (simp add: in_ring_def)
  then have "loading (put_rec \<lparr>r_domain = to_lower d, r_offset = off, r_lastUse = 0,
      r_dirty = False, r_removing = False\<rparr> q)"
    using assms(1) [OF taken(2)] taken(5) by (intro loading_put_rec) (simp_all add: to_lower_Nil_iff)
  then show ?thesis using assms(2) assms(1) [of k p] taken(6) by (cases "k = k'") simp_all
qed

text \<open>The index is made from the table: it only names records of it.\<close>

lemma pool_inv_name_it:
  assumes "pool_inv p" "rec_at p (r_offset (p_heap p i)) = Some i" "r_domain (p_heap p i) \<noteq> []"
  shows "pool_inv (p\<lparr>p_byName := (p_byName p)(r_domain (p_heap p i) \<mapsto> i)\<rparr>)"
proof -
  have t: "table_ok p" using assms(1) by (simp add: pool_inv_def)
  have "table_ok (p\<lparr>p_byName := (p_byName p)(r_domain (p_heap p i) \<mapsto> i)\<rparr>)"
  proof (rule table_okI, goal_cases)
    case 1 then show ?case using table_ok_distinct [OF t] by simp
  next
    case (2 o' j) then show ?case using table_ok_rec [OF t, of o' j] by simp
  next
    case (3 d j)
    then have d: "((p_byName p)(r_domain (p_heap p i) \<mapsto> i)) d = Some j" by simp
    show ?case
    proof (cases "d = r_domain (p_heap p i)")
      case True
      with d have "j = i" by simp
      with True show ?thesis using assms(2,3) by simp
    next
      case False
      with d have "p_byName p d = Some j" by simp
      from table_ok_name [OF t this] show ?thesis by simp
    qed
  qed
  then show ?thesis using assms(1) by (simp add: pool_inv_def)
qed

lemma restore_rec_fields [simp]:
  "p_byOffset (restore_rec tick i p) = p_byOffset p"
  "r_domain (p_heap (restore_rec tick i p) j) = r_domain (p_heap p j)"
  "r_offset (p_heap (restore_rec tick i p) j) = r_offset (p_heap p j)"
  "p_next (restore_rec tick i p) = p_next p" "p_fresh (restore_rec tick i p) = p_fresh p"
  "pool_static (restore_rec tick i p) = pool_static p" "p_step (restore_rec tick i p) = p_step p"
  "usable (restore_rec tick i p) = usable p" "ahead (restore_rec tick i p) = ahead p"
  "p_first (restore_rec tick i p) = p_first p" "address (restore_rec tick i p) = address p"
  "p_end (restore_rec tick i p) = p_end p"
  by (simp_all add: restore_rec_def Let_def split: option.split)

lemma pool_inv_restore_rec:
  assumes "pool_inv p" "rec_at p (r_offset (p_heap p i)) = Some i" "r_domain (p_heap p i) \<noteq> []"
  shows "pool_inv (restore_rec tick i p)"
proof -
  let ?f = "\<lambda>r. r\<lparr>r_lastUse := push_bit 32 (ucast tick) OR
    ucast (ucast (ucast (usable p) - 1 - age p i) :: u32)\<rparr>"
  have "pool_inv (upd_rec i ?f p)" using assms(1) by (simp add: pool_inv_upd_rec)
  then have "pool_inv ((upd_rec i ?f p)\<lparr>p_byName := (p_byName p)(r_domain (p_heap p i) \<mapsto> i)\<rparr>)"
    using pool_inv_name_it [of "upd_rec i ?f p" i] assms(2,3) by simp
  with \<open>pool_inv (upd_rec i ?f p)\<close> show ?thesis
    by (simp add: restore_rec_def Let_def split: option.split)
qed

lemma age_restore_rec [simp]: "age (restore_rec tick i p) j = age p j"
  by (simp add: age_def)

text \<open>The allocation position a restart goes on from is a place of the range.\<close>

lemma restore_next_loading: "loading p \<Longrightarrow> loading (fst (restore_next p current))"
proof -
  assume l: "loading p"
  then have st: "pool_static p" by (simp add: loading_def pool_inv_def)
  have "loading (p\<lparr>p_next := x\<rparr>)" if "in_ring p x" for x
    using l that by (simp add: loading_def pool_inv_def)
  moreover have "in_ring p (p_first p)" using pool_staticD(3) [OF st] by (simp add: in_ring_def)
  ultimately show ?thesis
    using in_ring_after [OF st] by (simp add: restore_next_def Let_def split: option.split)
qed

definition restores :: "pool \<Rightarrow> pool \<Rightarrow> bool" where
  "restores p q \<longleftrightarrow> pool_inv q \<and> p_byOffset q = p_byOffset p \<and> age q = age p \<and> p_next q = p_next p \<and>
     ahead q = ahead p \<and> usable q = usable p \<and> p_step q = p_step p \<and> p_first q = p_first p \<and>
     address q = address p \<and> p_end q = p_end p \<and>
     (\<forall>j. r_domain (p_heap q j) = r_domain (p_heap p j) \<and> r_offset (p_heap q j) = r_offset (p_heap p j))"

definition youngest :: "pool \<Rightarrow> pool \<Rightarrow> (u32 \<times> rid) list \<Rightarrow> bool" where
  "youngest p q es \<longleftrightarrow> (\<forall>(o', i) \<in> set es. \<exists>j. p_byName q (r_domain (p_heap p i)) = Some j \<and> age p j \<le> age p i)"

lemma restore_rec_step:
  assumes "loading p" "restores p q" "(o', i) \<in> set (p_byOffset p)"
  shows "restores p (restore_rec tick i q)"
proof -
  have "pool_inv p" using assms(1) by (simp add: loading_def)
  then have e: "rec_at p o' = Some i" "r_offset (p_heap p i) = o'"
    using assms(3) by (rule pool_inv_entry)+
  then have "rec_at q (r_offset (p_heap q i)) = Some i" "r_domain (p_heap q i) \<noteq> []"
    using assms(1,2) by (auto simp: restores_def loading_def)
  then have "pool_inv (restore_rec tick i q)"
    using assms(2) by (intro pool_inv_restore_rec) (simp_all add: restores_def)
  then show ?thesis using assms(2) by (simp add: restores_def fun_eq_iff)
qed

lemma restore_rec_name:
  "p_byName (restore_rec tick i q) d =
     (if d = r_domain (p_heap q i) \<and> (\<forall>j. p_byName q d = Some j \<longrightarrow> age q i < age q j) then Some i
      else p_byName q d)"
  by (simp add: restore_rec_def Let_def split: option.split)

lemma restore_rec_youngest:
  assumes "restores p q" "youngest p q es"
  shows "youngest p (restore_rec tick i q) ((o', i) # es)"
proof -
  have a: "age q = age p" and dom: "r_domain (p_heap q j) = r_domain (p_heap p j)" for j
    using assms(1) by (simp_all add: restores_def)
  have mono: "\<exists>j'. p_byName (restore_rec tick i q) d = Some j' \<and> age p j' \<le> age p j"
    if "p_byName q d = Some j" for d j
    using that by (auto simp: restore_rec_name a)
  have own: "\<exists>j'. p_byName (restore_rec tick i q) (r_domain (p_heap p i)) = Some j' \<and> age p j' \<le> age p i"
    by (cases "p_byName q (r_domain (p_heap p i))") (auto simp: restore_rec_name a dom)
  have "\<exists>j'. p_byName (restore_rec tick i q) (r_domain (p_heap p x)) = Some j' \<and> age p j' \<le> age p x"
    if x: "(o2, x) \<in> set es" for o2 x
  proof -
    obtain j where j: "p_byName q (r_domain (p_heap p x)) = Some j" "age p j \<le> age p x"
      using assms(2) x by (fastforce simp: youngest_def)
    from mono [OF j(1)] j(2) show ?thesis by (meson order_trans)
  qed
  with own show ?thesis by (auto simp: youngest_def)
qed

lemma restore_fold:
  assumes "loading p" "restores p q" "set es \<subseteq> set (p_byOffset p)" "youngest p q done"
  shows "restores p (fold (\<lambda>(_, i). restore_rec tick i) es q) \<and>
    youngest p (fold (\<lambda>(_, i). restore_rec tick i) es q) (rev es @ done)"
  using assms(2-)
proof (induction es arbitrary: q "done")
  case Nil then show ?case by simp
next
  case (Cons e es)
  obtain o' i where e: "e = (o', i)" by (cases e)
  have "restores p (restore_rec tick i q)"
    using assms(1) Cons.prems(1,2) by (intro restore_rec_step) (auto simp: e)
  moreover have "youngest p (restore_rec tick i q) ((o', i) # done)"
    using Cons.prems(1,3) by (rule restore_rec_youngest)
  ultimately show ?case using Cons.IH [of "restore_rec tick i q" "(o', i) # done"] Cons.prems(2)
    by (simp add: e)
qed

text \<open>
  \<open>restore\<close> turns the records read into a consistent table, and where a domain has several
  records the index names one given out last.
\<close>

lemma restore_ok:
  assumes "loading p" "restore p current tick = (q, l)"
  shows "pool_inv q" "p_byOffset q = p_byOffset p"
    and "r_domain (p_heap q j) = r_domain (p_heap p j)" "r_offset (p_heap q j) = r_offset (p_heap p j)"
    and "rec_at q o' = Some i \<Longrightarrow> \<exists>j. p_byName q (r_domain (p_heap q i)) = Some j \<and> age q j \<le> age q i"
    and "l = snd (restore_next p current)" "p_next q = p_next (fst (restore_next p current))"
    and "ahead q = ahead p" "usable q = usable p" "p_step q = p_step p" "p_first q = p_first p"
    and "address q = address p" "p_end q = p_end p"
proof -
  define p1 where "p1 = fst (restore_next p current)"
  have fields: "p_byOffset p1 = p_byOffset p" "p_heap p1 = p_heap p" "ahead p1 = ahead p"
    "usable p1 = usable p" "p_step p1 = p_step p" "p_first p1 = p_first p" "address p1 = address p"
    "p_end p1 = p_end p"
    by (simp_all add: p1_def restore_next_def Let_def split: option.split)
  have l: "loading p1" using assms(1) restore_next_loading by (simp add: p1_def)
  have q: "q = fold (\<lambda>(_, i). restore_rec tick i) (p_byOffset p1) p1" "l = snd (restore_next p current)"
    using assms(2) by (auto simp: restore_def p1_def split_beta)
  have "restores p1 q \<and> youngest p1 q (rev (p_byOffset p1) @ [])"
    unfolding q(1) using l by (intro restore_fold) (simp_all add: restores_def loading_def youngest_def)
  then have r: "restores p1 q" "youngest p1 q (p_byOffset p1)" by (simp_all add: youngest_def)
  from r(1) fields show "pool_inv q" "p_byOffset q = p_byOffset p"
    "r_domain (p_heap q j) = r_domain (p_heap p j)" "r_offset (p_heap q j) = r_offset (p_heap p j)"
    "p_next q = p_next (fst (restore_next p current))"
    "ahead q = ahead p" "usable q = usable p" "p_step q = p_step p" "p_first q = p_first p"
    "address q = address p" "p_end q = p_end p"
    by (simp_all add: restores_def p1_def)
  show "l = snd (restore_next p current)" by (fact q)
  assume "rec_at q o' = Some i"
  then have "(o', i) \<in> set (p_byOffset p1)" using r(1) by (auto simp: restores_def dest: map_of_SomeD)
  then show "\<exists>j. p_byName q (r_domain (p_heap q i)) = Some j \<and> age q j \<le> age q i"
    using r by (fastforce simp: restores_def youngest_def)
qed

subsection \<open>Holding back the reserve\<close>

text \<open>What \<open>hold\<close> leaves as it is: every record that was there, the names, the position.\<close>

definition extends :: "pool \<Rightarrow> pool \<Rightarrow> bool" where
  "extends p q \<longleftrightarrow> pool_inv q \<and> p_byName q = p_byName p \<and> p_next q = p_next p \<and>
     ahead q = ahead p \<and> usable q = usable p \<and> p_step q = p_step p \<and> p_first q = p_first p \<and>
     p_fresh p \<le> p_fresh q \<and> (\<forall>i < p_fresh p. p_heap q i = p_heap p i) \<and> in_ring q = in_ring p \<and>
     (\<forall>o' i. rec_at p o' = Some i \<longrightarrow> rec_at q o' = Some i) \<and>
     (\<forall>o' i. rec_at q o' = Some i \<and> rec_at p o' = None \<longrightarrow> held (p_heap q i))"

lemma extends_refl: "pool_inv p \<Longrightarrow> extends p p"
  by (auto simp: extends_def)

lemma hold_one_extends:
  assumes "extends p q" "in_ring p l"
  shows "extends p (hold_one l u back q)"
proof -
  let ?off = "ahead q l (usable q - back)"
  have q: "pool_inv q" and st: "pool_static q" using assms(1) by (auto simp: extends_def pool_inv_def)
  have "in_ring q l" using assms by (simp add: extends_def)
  with st have ring: "in_ring q ?off" by (rule in_ring_ahead)
  show ?thesis
  proof (cases "rec_at q ?off")
    case None
    let ?r = "\<lparr>r_domain = [], r_offset = ?off, r_lastUse = u, r_dirty = False, r_removing = False\<rparr>"
    have e: "hold_one l u back q = put_rec ?r q" using None by (simp add: hold_one_def Let_def)
    have old: "i < p_fresh q" if "rec_at q o' = Some i" for o' i using pool_inv_rec(3) [OF q that] .
    have "pool_inv (put_rec ?r q)" using q ring None by (intro pool_inv_put_rec) simp_all
    moreover have "rec_at p ?off = None" using assms(1) None by (cases "rec_at p ?off") (auto simp: extends_def)
    ultimately show ?thesis using assms(1) old unfolding e
      by (auto simp: extends_def held_def split: if_splits)
  qed (use assms(1) in \<open>simp add: hold_one_def Let_def\<close>)
qed

lemma hold_one_covers:
  "rec_at (hold_one l u back q) (ahead q l (usable q - back)) \<noteq> None"
  "rec_at q o' \<noteq> None \<Longrightarrow> rec_at (hold_one l u back q) o' \<noteq> None"
  by (auto simp: hold_one_def Let_def)

lemma hold_extends:
  assumes "pool_inv p" "l < p_end p"
  shows "extends p (hold l u p)"
proof (cases "l < p_first p")
  case False
  then have "in_ring p l" using assms(2) by (simp add: in_ring_def)
  then have "extends p (fold (hold_one l u) bs p)" for bs
    using assms(1) by (intro fold_invariant [where P = "extends p"] hold_one_extends extends_refl)
  then show ?thesis using False by (simp add: hold_def)
qed (simp add: hold_def extends_refl assms(1))

text \<open>None of the last \<open>step\<close> places up to \<open>l\<close> is left free.\<close>

lemma hold_covers:
  assumes "pool_inv p" "in_ring p l" "back < unat (p_step p)"
  shows "rec_at (hold l u p) (ahead p l (usable p - word_of_nat back)) \<noteq> None"
proof -
  let ?bs = "map word_of_nat [0..<unat (p_step p)] :: u32 list"
  have ext: "extends p (fold (hold_one l u) bs p)" for bs
    using assms(1,2) by (intro fold_invariant [where P = "extends p"] hold_one_extends extends_refl)
  have keep: "rec_at (fold (hold_one l u) bs q) o' \<noteq> None" if "rec_at q o' \<noteq> None" for bs q o'
    using that by (intro fold_invariant [where P = "\<lambda>q. rec_at q o' \<noteq> None"] hold_one_covers)
  have "word_of_nat back \<in> set ?bs" using assms(3) by simp
  then obtain xs ys where bs: "?bs = xs @ word_of_nat back # ys" by (meson split_list)
  define q where "q = fold (hold_one l u) xs p"
  have "ahead q = ahead p" "usable q = usable p" using ext [of xs] by (simp_all add: q_def extends_def)
  then have "rec_at (hold_one l u (word_of_nat back) q) (ahead p l (usable p - word_of_nat back)) \<noteq> None"
    using hold_one_covers(1) [of l u "word_of_nat back" q] by simp
  from keep [OF this] show ?thesis
    using assms(2) unfolding hold_def bs by (auto simp: in_ring_def q_def)
qed

lemma restore_next_in_range: "snd (restore_next p c) = Some x \<Longrightarrow> x < p_end p"
  using offset_of_in_range by (auto simp: restore_next_def Let_def split: option.splits if_splits)

lemma restore_pool_inv:
  assumes "loading p"
  shows "pool_inv (restore_pool m clean s k p)"
proof -
  obtain q l where r: "restore p (saved_current m s k) (s_startTick s - 1) = (q, l)"
    by (cases "restore p (saved_current m s k) (s_startTick s - 1)")
  note ok = restore_ok [OF assms r]
  have "pool_inv (hold x u q)" if "l = Some x" for x u
    using that restore_next_in_range [of p] ok(1) hold_extends [of q x u] ok(6) ok(13) by (simp add: extends_def)
  then show ?thesis using ok(1) r by (simp add: restore_pool_def split: option.split)
qed

section \<open>The ranges stay\<close>

definition prefix_of :: "store \<Rightarrow> pid \<Rightarrow> prefix option" where
  "prefix_of s k = map_option p_prefix (pool_at s k)"

lemma prefix_of_fields [simp]:
  "prefix_of (s\<lparr>s_uses := v1\<rparr>) = prefix_of s" "prefix_of (s\<lparr>s_closed := v2\<rparr>) = prefix_of s"
  "prefix_of (s\<lparr>s_generation := v3\<rparr>) = prefix_of s"
  "prefix_of (s\<lparr>s_storageFailed := v4\<rparr>) = prefix_of s" "prefix_of (s\<lparr>s_wake := v5\<rparr>) = prefix_of s"
  "prefix_of (s\<lparr>s_storage := v6\<rparr>) = prefix_of s"
  by (simp_all add: prefix_of_def fun_eq_iff)

lemma prefix_of_on_pool:
  assumes "\<And>p. p_prefix (f p) = p_prefix p"
  shows "prefix_of (on_pool k f s) = prefix_of s"
  by (auto simp: prefix_of_def fun_eq_iff option.map_comp comp_def assms)

lemma prefix_of_set_pool:
  "pool_at s k = Some p \<Longrightarrow> p_prefix q = p_prefix p \<Longrightarrow> prefix_of (set_pool k q s) = prefix_of s"
  by (auto simp: prefix_of_def fun_eq_iff)

lemma p_prefix_ops [simp]:
  "p_prefix (put_rec r p) = p_prefix p" "p_prefix (pool_remove i p) = p_prefix p"
  "p_prefix (reset_pool p) = p_prefix p" "p_prefix (forget i u p) = p_prefix p"
  "p_prefix (remove_saved i u p) = p_prefix p" "p_prefix (restore_rec tick i p) = p_prefix p"
  "p_prefix (hold_one l u back p) = p_prefix p"
  by (simp_all add: put_rec_def pool_remove_def Let_def reset_pool_def forget_def remove_saved_def
      restore_rec_def hold_one_def split: option.split)

lemma p_prefix_fold: "(\<And>x p. p_prefix (g x p) = p_prefix p) \<Longrightarrow> p_prefix (fold g xs p) = p_prefix p"
  by (rule fold_on_pool_fields)

lemma p_prefix_resave [simp]: "p_prefix (resave_pool p) = p_prefix p"
  by (simp add: resave_pool_def Let_def p_prefix_fold)

lemma p_prefix_collect_expired [simp]: "p_prefix (fst (collect_expired q cs p)) = p_prefix p"
  by (induction q cs p rule: collect_expired.induct) (auto simp: Let_def split: prod.splits)

lemma p_prefix_collect_pool [simp]: "p_prefix (fst (collect_pool q now k p j)) = p_prefix p"
  by (simp add: collect_pool_def Let_def split_beta)

lemma p_prefix_restore_pool [simp]: "p_prefix (restore_pool m clean s k p) = p_prefix p"
  by (simp add: restore_pool_def restore_def restore_next_def hold_def Let_def p_prefix_fold
      split_beta split: option.split)

lemma prefix_of_release_unused: "prefix_of (release_unused c s) = prefix_of s"
  by (simp add: release_unused_def release_def prefix_of_on_pool split: prod.split option.split)

lemma prefix_of_release: "prefix_of (release k i s) = prefix_of s"
  by (simp add: release_def prefix_of_on_pool)

lemma prefix_of_collect_at: "prefix_of (fst (collect_at q now k sj)) = prefix_of (fst sj)"
  by (auto simp: collect_at_def Let_def split_beta prefix_of_set_pool split: option.split)

lemma prefix_of_forget_removal: "prefix_of (forget_removal k c s) = prefix_of s"
  by (simp add: forget_removal_def prefix_of_on_pool split: prod.split)

lemma prefix_of_commit_steps:
  "prefix_of (commit_write w s) = prefix_of s" "prefix_of (commit_removal c s) = prefix_of s"
  "prefix_of (commit_reserve v s) = prefix_of s" "prefix_of (undo_write w s) = prefix_of s"
  "prefix_of (undo_removal c s) = prefix_of s" "prefix_of (expire c s) = prefix_of s"
  by (simp_all add: commit_write_def commit_removal_def commit_reserve_def undo_write_def
      undo_removal_def expire_def prefix_of_on_pool split: prod.split)

lemmas prefix_of_folds =
  fold_on_pool_fields [where f = prefix_of, OF prefix_of_commit_steps(1)]
  fold_on_pool_fields [where f = prefix_of, OF prefix_of_commit_steps(2)]
  fold_on_pool_fields [where f = prefix_of, OF prefix_of_commit_steps(3)]
  fold_on_pool_fields [where f = prefix_of, OF prefix_of_commit_steps(4)]
  fold_on_pool_fields [where f = prefix_of, OF prefix_of_commit_steps(5)]
  fold_on_pool_fields [where f = prefix_of, OF prefix_of_commit_steps(6)]
  fold_on_pool_fields [where f = prefix_of, OF prefix_of_forget_removal]
  fold_on_pool_fields [where f = prefix_of, OF prefix_of_release_unused]

lemma prefix_of_all_pools:
  "(\<And>k p. p_prefix (g k p) = p_prefix p) \<Longrightarrow>
    prefix_of (fold (\<lambda>k. on_pool k (g k)) ks s) = prefix_of s"
  by (rule fold_on_pool_fields) (rule prefix_of_on_pool)

lemma prefix_of_touch [simp]: "prefix_of (touch now k i s) = prefix_of s"
  by (simp add: touch_alt prefix_of_on_pool)

lemma prefix_of_ops:
  "prefix_of (fst (find_domain now k d s)) = prefix_of s"
  "prefix_of (fst (Lookup now a s)) = prefix_of s" "prefix_of (reset_pools s) = prefix_of s"
  "prefix_of (makeRoom_memory now k s) = prefix_of s" "prefix_of (sweep_apply found s) = prefix_of s"
  "prefix_of (save_commit ok j s) = prefix_of s" "prefix_of (save_generation gen s) = prefix_of s"
  "prefix_of (restore_pools m clean s) = prefix_of s" "prefix_of (close_store s) = prefix_of s"
proof -
  show "prefix_of (makeRoom_memory now k s) = prefix_of s"
    by (auto simp: makeRoom_memory_def prefix_of_release split: option.split
        intro!: fold_on_pool_fields [where f = prefix_of])
qed (simp_all add: find_domain_def Lookup_def reset_pools_def prefix_of_all_pools sweep_apply_def
    prefix_of_folds save_commit_def commit_saved_def commit_failed_def Let_def save_generation_def
    restore_pools_def close_store_def split: option.split)

lemma prefix_of_save_collect: "prefix_of (fst (save_collect gen q now s)) = prefix_of s"
proof -
  have "prefix_of (fst (fold (collect_at q now) ks sj)) = prefix_of (fst sj)" for ks sj
    by (rule fold_on_pool_fields [where f = "\<lambda>sj. prefix_of (fst sj)"]) (rule prefix_of_collect_at)
  then show ?thesis
    by (simp add: save_collect_def Let_def prefix_of_ops split_beta)
qed

lemma prefix_of_allocate:
  assumes "store_inv s" "allocate now gen k d s = Some (s', need, res)"
  shows "prefix_of s' = prefix_of s"
proof (cases "pool_at s k")
  case None then show ?thesis using assms(2) by (auto simp: allocate_def)
next
  case (Some p)
  have g: "prefix_of (give_out now k d off ((alloc_step b ^^ n) p) s) = prefix_of s" for off n b
  proof
    fix x show "prefix_of (give_out now k d off ((alloc_step b ^^ n) p) s) x = prefix_of s x"
      using Some by (cases "x = k") (simp_all add: prefix_of_def give_out_pool give_out_other Let_def)
  qed
  have a: "prefix_of (set_pool k ((alloc_step b ^^ n) p) s) = prefix_of s" for n b
    using Some by (simp add: prefix_of_set_pool)
  from Some show ?thesis
    by (rule allocate_cases [OF assms(1), of k p d now gen]) (use assms(2) g a in auto)
qed

lemma prefix_of_load_record: "prefix_of (fst (load_record s a d)) = prefix_of s"
  by (cases rule: load_record_cases [of s a d]) (auto simp: prefix_of_set_pool)

end
