(* ===== verification/FakeIP_System.thy ===== *)
theory FakeIP_System
  imports FakeIP_Inv
begin

text \<open>
  The FakeIP store together with the cache file that keeps its table.

  \<open>Create\<close>, \<open>makeRoom\<close>, \<open>save\<close>, \<open>Start\<close>, \<open>Close\<close> and \<open>Reset\<close> are the Go functions
  run without anybody else; the fate of the transactions and the clock come from an environment.
  The relation \<open>step\<close> is the store with all its callers: every critical section is a step of
  its own and they interleave freely, with the two halves of a save and of a reset held together
  by \<open>saveAccess\<close> only.
\<close>

record sys =
  y_store :: store
  y_file :: cachefile

section \<open>One caller\<close>

definition save :: "tx \<Rightarrow> saveRequest \<Rightarrow> u32 \<Rightarrow> sys \<Rightarrow> sys \<times> bool" where
  "save t q now y =
     (case save_collect (FakeIPGeneration (y_file y)) q now (y_store y) of
        (s', SaveNothing) \<Rightarrow> (y\<lparr>y_store := s'\<rparr>, True)
      | (s', SaveRefused) \<Rightarrow> (y\<lparr>y_store := s'\<rparr>, False)
      | (s', SaveWrite j) \<Rightarrow>
          (case FakeIPSaveChanges t (j_puts j) (j_deletes j) (j_metadata j) (j_clean j) (y_file y) of
             (c', ok) \<Rightarrow> (\<lparr>y_store = save_commit ok j s', y_file = c'\<rparr>, ok)))"

definition plain_save :: saveRequest where
  "plain_save = \<lparr>q_clean = False, q_reserve = False, q_room = None\<rparr>"

definition reserve_save :: saveRequest where
  "reserve_save = \<lparr>q_clean = False, q_reserve = True, q_room = None\<rparr>"

definition room_save :: "pid \<Rightarrow> saveRequest" where
  "room_save k = \<lparr>q_clean = False, q_reserve = False, q_room = Some k\<rparr>"

definition clean_save :: saveRequest where
  "clean_save = \<lparr>q_clean = True, q_reserve = False, q_room = None\<rparr>"

definition makeRoom :: "tx \<Rightarrow> u32 \<Rightarrow> pid \<Rightarrow> sys \<Rightarrow> sys" where
  "makeRoom t now k y =
     (if \<not> s_storage (y_store y) then y\<lparr>y_store := makeRoom_memory now k (y_store y)\<rparr>
      else fst (save t (room_save k) now y))"

text \<open>
  The environment of \<open>Create\<close>: the fate of the transaction of the \<open>n\<close>-th round of its loop and
  the time in it.
\<close>

type_synonym env = "nat \<Rightarrow> tx \<times> u32"

partial_function (option) create_loop ::
  "env \<Rightarrow> nat \<Rightarrow> pid \<Rightarrow> string \<Rightarrow> sys \<Rightarrow> (sys \<times> (store_error + addr)) option" where
  "create_loop env n k domain y =
     Option.bind (allocate (snd (env n)) (FakeIPGeneration (y_file y)) k domain (y_store y))
       (\<lambda>(s', need, res).
          if need = needReserve
          then create_loop env (Suc n) k domain
                 (fst (save (fst (env n)) reserve_save (snd (env n)) (y\<lparr>y_store := s'\<rparr>)))
          else if need = needRoom
          then create_loop env (Suc n) k domain
                 (makeRoom (fst (env n)) (snd (env n)) k (y\<lparr>y_store := s'\<rparr>))
          else Some (y\<lparr>y_store := s'\<rparr>, res))"

declare create_loop.simps [code]

definition Create :: "env \<Rightarrow> string \<Rightarrow> bool \<Rightarrow> sys \<Rightarrow> (sys \<times> (store_error + addr)) option" where
  "Create env domain isIPv6 y =
     (let k = (if isIPv6 then P6 else P4); d = to_lower domain in
      if pool_at (y_store y) k = None
      then Some (y, Inl (if isIPv6 then MissingRange6 else MissingRange4))
      else
        case find_domain (snd (env 0)) k d (y_store y) of
          (s', Some a) \<Rightarrow> Some (y\<lparr>y_store := s'\<rparr>, Inr a)
        | (s', None) \<Rightarrow> create_loop env 0 k d (y\<lparr>y_store := s'\<rparr>))"

text \<open>
  \<open>Exchange\<close> of \<open>fakeip.go\<close>: the kind of question, whether the range of the kind is
  configured, the length of the name.
\<close>

datatype exchange_result =
    EmptyResponse
  | OnlyIPQueries
  | NameTooLong
  | CreateFailed store_error
  | Answer addr

text \<open>\<open>isFqdn\<close> is \<open>dns.IsFqdn\<close> of the DNS library: the name ends in a dot that is not escaped.\<close>

definition FqdnToDomain :: "(string \<Rightarrow> bool) \<Rightarrow> string \<Rightarrow> string" where
  "FqdnToDomain isFqdn fqdn = (if isFqdn fqdn then butlast fqdn else fqdn)"

definition Exchange ::
  "(string \<Rightarrow> bool) \<Rightarrow> env \<Rightarrow> nat \<Rightarrow> string \<Rightarrow> sys \<Rightarrow> (sys \<times> exchange_result) option" where
  "Exchange isFqdn env qtype name y =
     (if qtype \<noteq> 1 \<and> qtype \<noteq> 28 then Some (y, OnlyIPQueries)
      else if (qtype = 1 \<and> s_inet4Range (y_store y) = None) \<or>
              (qtype = 28 \<and> s_inet6Range (y_store y) = None)
      then Some (y, EmptyResponse)
      else if 255 < length (FqdnToDomain isFqdn name) then Some (y, NameTooLong)
      else
        case Create env (FqdnToDomain isFqdn name) (qtype = 28) y of
          None \<Rightarrow> None
        | Some (y', Inl e) \<Rightarrow> Some (y', CreateFailed e)
        | Some (y', Inr a) \<Rightarrow> Some (y', Answer a))"

definition sys_lookup :: "u32 \<Rightarrow> addr \<Rightarrow> sys \<Rightarrow> sys \<times> string option" where
  "sys_lookup now a y = (case Lookup now a (y_store y) of (s', r) \<Rightarrow> (y\<lparr>y_store := s'\<rparr>, r))"

definition Reset :: "tx \<Rightarrow> sys \<Rightarrow> sys \<times> bool" where
  "Reset t y =
     (if \<not> s_storage (y_store y) then (y\<lparr>y_store := reset_pools (y_store y)\<rparr>, True)
      else
        case FakeIPReset t (y_file y) of
          (c', False) \<Rightarrow> (y\<lparr>y_file := c'\<rparr>, False)
        | (c', True) \<Rightarrow> (\<lparr>y_store = reset_pools (y_store y), y_file = c'\<rparr>, True))"

text \<open>\<open>Store.load\<close>; \<open>t1\<close>, \<open>nread\<close> and \<open>t2\<close> as for \<open>FakeIPLoadTable\<close>, \<open>t3\<close> for the save.\<close>

definition load_table :: "tx \<Rightarrow> nat \<Rightarrow> tx \<Rightarrow> store \<Rightarrow> cachefile \<Rightarrow> sys" where
  "load_table t1 nread t2 s c =
     (let s1 = s\<lparr>s_storage := True, s_generation := FakeIPGeneration c\<rparr>;
          (c', s2, m, clean, _) = FakeIPLoadTable t1 nread t2 load_record s1 c in
      \<lparr>y_store = restore_pools m clean s2, y_file = c'\<rparr>)"

definition load :: "tx \<Rightarrow> nat \<Rightarrow> tx \<Rightarrow> tx \<Rightarrow> u32 \<Rightarrow> store \<Rightarrow> cachefile \<Rightarrow> sys" where
  "load t1 nread t2 t3 now s c = fst (save t3 plain_save now (load_table t1 nread t2 s c))"

text \<open>\<open>Start\<close> with the cache file there is, if it keeps FakeIP addresses.\<close>

definition Start ::
  "tx \<Rightarrow> nat \<Rightarrow> tx \<Rightarrow> tx \<Rightarrow> u32 \<Rightarrow> bool \<Rightarrow> store \<Rightarrow> cachefile \<Rightarrow> store_error + sys" where
  "Start t1 nread t2 t3 now storeFakeIP s c =
     (case start_error s of
        Some e \<Rightarrow> Inl e
      | None \<Rightarrow>
          Inr (if storeFakeIP then load t1 nread t2 t3 now s c else \<lparr>y_store = s, y_file = c\<rparr>))"

definition Close :: "tx \<Rightarrow> u32 \<Rightarrow> sys \<Rightarrow> sys \<times> bool" where
  "Close t now y =
     (if s_closed (y_store y) then (y, True)
      else save t clean_save now (y\<lparr>y_store := close_store (y_store y)\<rparr>))"

text \<open>
  The inner loop of \<open>Store.loop\<close>: saves while something is pending, up to the first failure.
  The result tells whether the last save failed (the loop then waits before it tries again).
\<close>

partial_function (option) loop_saves :: "env \<Rightarrow> nat \<Rightarrow> sys \<Rightarrow> (sys \<times> bool) option" where
  "loop_saves env n y =
     (if savePending (FakeIPGeneration (y_file y)) (y_store y)
      then
        let (y', ok) = save (fst (env n)) plain_save (snd (env n)) y in
        if ok then loop_saves env (Suc n) y' else Some (y', True)
      else Some (y, False))"

declare loop_saves.simps [code]

section \<open>All callers\<close>

text \<open>What holds \<open>saveAccess\<close>.\<close>

datatype holder =
    Free
  | Saving job         \<comment> \<open>collected, not written yet\<close>
  | Written job bool   \<comment> \<open>written (\<open>True\<close>) or failed, not committed yet\<close>
  | Resetting          \<comment> \<open>the storage is reset, the memory not yet\<close>

record conf =
  f_store :: store
  f_file :: cachefile
  f_holder :: holder
  f_found :: "(pid \<times> rid \<times> u64) list" \<comment> \<open>what the sweep has found\<close>

text \<open>
  The generation a save reads before it takes the lock may be older than the one the file has by
  then; it is never older than the one the store knows. A recreated file gets a new number: the
  64-bit counter does not come round.
\<close>

inductive step :: "conf \<Rightarrow> conf \<Rightarrow> bool" where
  Query: "step f (f\<lparr>f_store := fst (find_domain now k (to_lower d) (f_store f))\<rparr>)"
| Allocate: "d \<noteq> [] \<Longrightarrow> allocate now (c_generation (f_file f)) k (to_lower d) (f_store f) = Some (s', r)
    \<Longrightarrow> step f (f\<lparr>f_store := s'\<rparr>)"
| Room: "\<not> s_storage (f_store f) \<Longrightarrow> step f (f\<lparr>f_store := makeRoom_memory now k (f_store f)\<rparr>)"
| Connection: "step f (f\<lparr>f_store := fst (Lookup now a (f_store f))\<rparr>)"
| Collect: "f_holder f = Free \<Longrightarrow> s_generation (f_store f) \<le> gen \<Longrightarrow> gen \<le> c_generation (f_file f)
    \<Longrightarrow> q_clean q \<longrightarrow> s_closed (f_store f)
    \<Longrightarrow> save_collect gen q now (f_store f) = (s', SaveWrite j)
    \<Longrightarrow> step f (f\<lparr>f_store := s', f_holder := Saving j\<rparr>)"
| Nothing: "f_holder f = Free \<Longrightarrow> s_generation (f_store f) \<le> gen \<Longrightarrow> gen \<le> c_generation (f_file f)
    \<Longrightarrow> q_clean q \<longrightarrow> s_closed (f_store f)
    \<Longrightarrow> save_collect gen q now (f_store f) = (s', r) \<Longrightarrow> r = SaveNothing \<or> r = SaveRefused
    \<Longrightarrow> step f (f\<lparr>f_store := s'\<rparr>)"
| Write: "f_holder f = Saving j \<Longrightarrow> c_generation (f_file f) + 1 \<noteq> 0
    \<Longrightarrow> FakeIPSaveChanges t (j_puts j) (j_deletes j) (j_metadata j) (j_clean j) (f_file f) = (c', ok)
    \<Longrightarrow> step f (f\<lparr>f_file := c', f_holder := Written j ok\<rparr>)"
| Committed: "f_holder f = Written j ok
    \<Longrightarrow> step f (f\<lparr>f_store := save_commit ok j (f_store f), f_holder := Free\<rparr>)"
| Sweep: "step f (f\<lparr>f_found := sweep_find now (f_store f)\<rparr>)"
| Swept: "step f (f\<lparr>f_store := sweep_apply (f_found f) (f_store f), f_found := []\<rparr>)"
| ResetFile: "f_holder f = Free \<Longrightarrow> s_storage (f_store f) \<Longrightarrow> c_generation (f_file f) + 1 \<noteq> 0
    \<Longrightarrow> FakeIPReset t (f_file f) = (c', ok)
    \<Longrightarrow> step f (f\<lparr>f_file := c', f_holder := (if ok then Resetting else Free)\<rparr>)"
| ResetMemory: "f_holder f = Resetting \<or> f_holder f = Free \<and> \<not> s_storage (f_store f)
    \<Longrightarrow> step f (f\<lparr>f_store := reset_pools (f_store f), f_holder := Free\<rparr>)"
| Damage: "c_generation (f_file f) + 1 \<noteq> 0 \<Longrightarrow> step f (f\<lparr>f_file := resetDB reopened (f_file f)\<rparr>)"
| Closing: "step f (f\<lparr>f_store := close_store (f_store f)\<rparr>)"

text \<open>The ranges of a configuration: an IPv4 prefix and an IPv6 prefix, each of them optional.\<close>

definition ranges_ok :: "prefix option \<Rightarrow> prefix option \<Rightarrow> bool" where
  "ranges_ok r4 r6 \<longleftrightarrow>
     (case r4 of None \<Rightarrow> True | Some r \<Rightarrow> prefix_valid r \<and> is4 (pfx_addr r)) \<and>
     (case r6 of None \<Rightarrow> True | Some r \<Rightarrow> prefix_valid r \<and> \<not> is4 (pfx_addr r))"

text \<open>
  The states of a started store: with what is loaded from some cache file, or without one. A bucket
  of the database has one value for a key.
\<close>

inductive started :: "conf \<Rightarrow> bool" where
  Loaded: "ranges_ok r4 r6 \<Longrightarrow> start_error (NewStore r4 r6) = None
    \<Longrightarrow> distinct (map fst (bucket_of (bucketFakeIP (c_db c)))) \<Longrightarrow> c_generation c + 1 \<noteq> 0
    \<Longrightarrow> load_table t1 nread t2 (NewStore r4 r6) c = y
    \<Longrightarrow> started \<lparr>f_store = y_store y, f_file = y_file y, f_holder = Free, f_found = []\<rparr>"
| Memory: "ranges_ok r4 r6 \<Longrightarrow> start_error (NewStore r4 r6) = None
    \<Longrightarrow> started \<lparr>f_store = NewStore r4 r6, f_file = c, f_holder = Free, f_found = []\<rparr>"

inductive reachable :: "conf \<Rightarrow> bool" where
  Started: "started f \<Longrightarrow> reachable f"
| Step: "reachable f \<Longrightarrow> step f g \<Longrightarrow> reachable g"

inductive_cases stepE: "step f g"
inductive_cases startedE: "started f"

end
