(* ===== verification/FakeIP_Service.thy ===== *)
theory FakeIP_Service
  imports FakeIP_System
begin

text \<open>
  What a client sees of the store: \<open>Create\<close> gives a domain an address of its own, \<open>Lookup\<close>
  leads back to the domain, and both hold in every state the store can reach.
\<close>

section \<open>The invariant of a running store\<close>

text \<open>The IPv4 range is a range of IPv4 addresses, the IPv6 range one of IPv6 addresses.\<close>

definition families :: "store \<Rightarrow> bool" where
  "families s \<longleftrightarrow> (\<forall>k pre. prefix_of s k = Some pre \<longrightarrow> is4 (pfx_addr pre) = (k = P4))"

definition store_ok :: "store \<Rightarrow> bool" where
  "store_ok s \<longleftrightarrow> store_inv s \<and> families s"

lemma store_okI: "store_inv t \<Longrightarrow> prefix_of t = prefix_of s \<Longrightarrow> store_ok s \<Longrightarrow> store_ok t"
  by (simp add: store_ok_def families_def)

lemma store_ok_inv: "store_ok s \<Longrightarrow> store_inv s"
  by (simp add: store_ok_def)

lemma store_ok_touch: "store_ok s \<Longrightarrow> store_ok (touch now k i s)"
  using store_inv_touch by (auto simp: store_ok_def families_def)

lemma store_ok_ops:
  assumes "store_ok s"
  shows "store_ok (fst (find_domain now k d s))" "store_ok (fst (Lookup now a s))"
    and "store_ok (makeRoom_memory now k s)" "store_ok (reset_pools s)"
    and "store_ok (sweep_apply found s)" "store_ok (close_store s)"
    and "store_ok (fst (save_collect gen q now s))" "store_ok (save_commit ok j s)"
  using assms
  by (simp_all add: store_ok_def families_def prefix_of_ops prefix_of_save_collect
      store_inv_find_domain store_inv_Lookup store_inv_makeRoom store_inv_reset_pools
      store_inv_sweep_apply store_inv_save_collect store_inv_save_commit)
    (simp add: close_store_def)

lemma store_ok_save_generation: "store_ok s \<Longrightarrow> store_ok (save_generation gen s)"
  by (rule store_okI) (simp_all add: store_inv_save_generation store_ok_inv prefix_of_ops)

lemma store_ok_allocate:
  assumes "store_ok s" "d \<noteq> []" "allocate now gen k d s = Some (s', r)"
  shows "store_ok s'"
proof -
  obtain need res where r: "r = (need, res)" by (cases r)
  have "store_inv s" using assms(1) by (rule store_ok_inv)
  from store_inv_allocate [OF this assms(2) assms(3) [unfolded r]]
    prefix_of_allocate [OF this assms(3) [unfolded r]] assms(1) show ?thesis by (rule store_okI)
qed

lemma store_ok_save: "store_ok (y_store y) \<Longrightarrow> store_ok (y_store (fst (save t q now y)))"
proof -
  assume y: "store_ok (y_store y)"
  obtain s' r where c: "save_collect (FakeIPGeneration (y_file y)) q now (y_store y) = (s', r)"
    by (cases "save_collect (FakeIPGeneration (y_file y)) q now (y_store y)")
  have "store_ok s'" using store_ok_ops(7) [OF y] c by (metis fst_conv)
  then show ?thesis by (simp add: save_def c store_ok_ops split: collected.split prod.split)
qed

lemma store_ok_makeRoom_sys: "store_ok (y_store y) \<Longrightarrow> store_ok (y_store (makeRoom t now k y))"
  by (simp add: makeRoom_def store_ok_ops store_ok_save)

section \<open>Names and addresses\<close>

definition known :: "store \<Rightarrow> pid \<Rightarrow> string \<Rightarrow> addr \<Rightarrow> bool" where
  "known s k d a \<longleftrightarrow>
     (\<exists>p i. pool_at s k = Some p \<and> p_byName p d = Some i \<and> a = address p (r_offset (p_heap p i)))"

lemma is4_address: "pool_static p \<Longrightarrow> is4 (address p off) = is4 (pfx_addr (p_prefix p))"
proof -
  assume st: "pool_static p"
  then have b: "p_base p = pfx_addr (p_prefix p)" and v: "prefix_valid (p_prefix p)"
    by (simp_all add: pool_static_def)
  show ?thesis using v by (cases "pfx_addr (p_prefix p)") (simp_all add: address_def b prefix_valid.simps)
qed

lemma poolOf_address:
  assumes "store_ok s" "pool_at s k = Some p" "off < p_end p"
  shows "poolOf s (address p off) = Some k"
proof -
  have inv: "pool_inv q" if "pool_at s k' = Some q" for k' q
    using assms(1) that by (auto simp: store_ok_def store_inv_def)
  have st: "pool_static p" using inv [OF assms(2)] by (simp add: pool_inv_def)
  have fam: "is4 (pfx_addr (p_prefix q)) = (k' = P4)" if "pool_at s k' = Some q" for k' q
    using assms(1) that by (simp add: store_ok_def families_def prefix_of_def)
  have c: "contains (p_prefix p) (address p off)" using st assms(3) by (rule contains_address)
  have "\<not> contains (p_prefix q) (address p off)" if q: "pool_at s k' = Some q" "k' \<noteq> k" for k' q
    using contains_is4 [of "p_prefix q" "address p off"] is4_address [OF st, of off]
      fam [OF q(1)] fam [OF assms(2)] q(2) by (cases k; cases k') auto
  from this [of P4] this [of P6] show ?thesis using c assms(2)
    by (cases k) (auto simp: poolOf_def split: option.split)
qed

text \<open>A record that is not held back is found by its address.\<close>

lemma Lookup_record:
  assumes "store_ok s" "pool_at s k = Some p" "rec_at p off = Some i"
  shows "Lookup now (address p off) s =
    (if held (p_heap p i) then (s, None) else (touch now k i s, Some (r_domain (p_heap p i))))"
proof -
  have p: "pool_inv p" using assms(1,2) by (auto simp: store_ok_def store_inv_def)
  have off: "off < p_end p" using pool_inv_rec(1) [OF p assms(3)] by (simp add: in_ring_def)
  show ?thesis
    using poolOf_address [OF assms(1,2) off] offset_of_address [of p off] off p assms(2,3)
    by (simp add: Lookup_def pool_inv_def)
qed

lemma known_Lookup:
  assumes "store_ok s" "known s k d a"
  shows "snd (Lookup now a s) = Some d"
proof -
  obtain p i where p: "pool_at s k = Some p" and i: "p_byName p d = Some i"
    and a: "a = address p (r_offset (p_heap p i))" using assms(2) by (auto simp: known_def)
  have "pool_inv p" using assms(1) p by (auto simp: store_ok_def store_inv_def)
  note n = pool_inv_name [OF this i]
  show ?thesis using Lookup_record [OF assms(1) p n(3), of now] n by (simp add: a held_def)
qed

lemma known_inj:
  assumes "store_ok s" "known s k d a" "known s k' d' a"
  shows "d = d'"
  using known_Lookup [OF assms(1,2), of 0] known_Lookup [OF assms(1,3), of 0] by simp

lemma known_functional: "known s k d a \<Longrightarrow> known s k d a' \<Longrightarrow> a = a'"
  by (auto simp: known_def)

lemma known_contains:
  assumes "store_ok s" "known s k d a"
  shows "\<exists>pre. prefix_of s k = Some pre \<and> contains pre a \<and> is4 a = (k = P4)"
proof -
  obtain p i where p: "pool_at s k = Some p" and i: "p_byName p d = Some i"
    and a: "a = address p (r_offset (p_heap p i))" using assms(2) by (auto simp: known_def)
  have inv: "pool_inv p" using assms(1) p by (auto simp: store_ok_def store_inv_def)
  have ring: "in_ring p (r_offset (p_heap p i))"
    using pool_inv_rec(1) [OF inv pool_inv_name(3) [OF inv i]] .
  have st: "pool_static p" using inv by (simp add: pool_inv_def)
  have "contains (p_prefix p) a" using contains_address [OF st] ring by (simp add: a in_ring_def)
  moreover have "is4 a = (k = P4)"
    using is4_address [OF st] assms(1) p by (simp add: a store_ok_def families_def prefix_of_def)
  ultimately show ?thesis using p by (simp add: prefix_of_def)
qed

lemma known_touch: "known (touch now k' i s) k d a = known s k d a"
proof (cases "pool_at s k")
  case (Some p)
  then show ?thesis by (auto simp: known_def touch_alt)
qed (auto simp: known_def touch_alt)

lemma find_domain_known:
  "find_domain now k d s = (s', Some a) \<Longrightarrow> known s' k d a"
  by (auto simp: find_domain_def known_touch split: option.splits) (auto simp: known_def)

lemma find_domain_None: "find_domain now k d s = (s', None) \<Longrightarrow> s' = s"
  by (auto simp: find_domain_def split: option.splits)

lemma allocate_known:
  assumes "store_ok s" "allocate now gen k d s = Some (s', needNothing, Inr a)"
  shows "known s' k d a"
proof (cases "pool_at s k")
  case None then show ?thesis using assms(2) by (auto simp: allocate_def)
next
  case (Some p)
  have inv: "store_inv s" using assms(1) by (rule store_ok_inv)
  from Some show ?thesis
  proof (rule allocate_cases [OF inv, of k p d now gen], goal_cases)
    case (1 i)
    then show ?case using assms(2) by (simp add: known_touch) (auto simp: known_def Some known_touch)
  next
    case (6 n)
    then show ?case using assms(2) Some
      by (auto simp: known_def give_out_pool Let_def)
  qed (use assms(2) in auto)
qed

text \<open>What the loop of \<open>Create\<close> answers is known from then on.\<close>

definition answered :: "pid \<Rightarrow> string \<Rightarrow> sys \<times> (store_error + addr) \<Rightarrow> bool" where
  "answered k d r \<longleftrightarrow> store_ok (y_store (fst r)) \<and> (\<forall>a. snd r = Inr a \<longrightarrow> known (y_store (fst r)) k d a)"

lemma create_loop_answered:
  assumes "create_loop env n k d y = Some r"
  shows "store_ok (y_store y) \<longrightarrow> d \<noteq> [] \<longrightarrow> answered k d r"
  using assms
proof (rule create_loop.raw_induct [rotated])
  fix loop :: "env \<Rightarrow> nat \<Rightarrow> pid \<Rightarrow> string \<Rightarrow> sys \<Rightarrow> (sys \<times> (store_error + addr)) option"
  fix env n k d y r
  assume IH: "\<And>env n k d y r. loop env n k d y = Some r \<Longrightarrow>
      store_ok (y_store y) \<longrightarrow> d \<noteq> [] \<longrightarrow> answered k d r"
  assume body: "Option.bind (allocate (snd (env n)) (FakeIPGeneration (y_file y)) k d (y_store y))
      (\<lambda>(s', need, res).
        if need = needReserve then loop env (Suc n) k d
             (fst (save (fst (env n)) reserve_save (snd (env n)) (y\<lparr>y_store := s'\<rparr>)))
        else if need = needRoom then loop env (Suc n) k d
             (makeRoom (fst (env n)) (snd (env n)) k (y\<lparr>y_store := s'\<rparr>))
        else Some (y\<lparr>y_store := s'\<rparr>, res)) = Some r"
  show "store_ok (y_store y) \<longrightarrow> d \<noteq> [] \<longrightarrow> answered k d r"
  proof (intro impI)
    assume y: "store_ok (y_store y)" and d: "d \<noteq> []"
    obtain s' need res
      where a: "allocate (snd (env n)) (FakeIPGeneration (y_file y)) k d (y_store y) = Some (s', need, res)"
      using body by (cases "allocate (snd (env n)) (FakeIPGeneration (y_file y)) k d (y_store y)") auto
    have s': "store_ok s'" using y d a by (rule store_ok_allocate)
    show "answered k d r"
    proof (cases need)
      case needNothing
      then have "r = (y\<lparr>y_store := s'\<rparr>, res)" using body a by simp
      then show ?thesis using s' allocate_known [OF y] a needNothing by (auto simp: answered_def)
    next
      case needReserve
      then show ?thesis using body a d s'
        by (auto intro!: IH [rule_format] store_ok_save)
    next
      case needRoom
      then show ?thesis using body a d s'
        by (auto intro!: IH [rule_format] store_ok_makeRoom_sys)
    qed
  qed
qed

lemma Create_answered:
  assumes "Create env domain v6 y = Some r" "store_ok (y_store y)" "domain \<noteq> []"
  shows "answered (if v6 then P6 else P4) (to_lower domain) r"
proof -
  let ?k = "if v6 then P6 else P4" and ?d = "to_lower domain"
  have d: "?d \<noteq> []" using assms(3) by (simp add: to_lower_Nil_iff)
  obtain s' o' where f: "find_domain (snd (env 0)) ?k ?d (y_store y) = (s', o')"
    by (cases "find_domain (snd (env 0)) ?k ?d (y_store y)")
  have s': "store_ok s'" using store_ok_ops(1) [OF assms(2)] f by (metis fst_conv)
  show ?thesis
  proof (cases "pool_at (y_store y) ?k = None")
    case True
    then show ?thesis using assms(1,2) by (auto simp: Create_def Let_def answered_def)
  next
    case False
    show ?thesis
    proof (cases o')
      case (Some a)
      then have "r = (y\<lparr>y_store := s'\<rparr>, Inr a)"
        using assms(1) False f by (simp add: Create_def Let_def split: if_splits)
      then show ?thesis using s' find_domain_known f Some by (auto simp: answered_def)
    next
      case None
      then have "create_loop env 0 ?k ?d (y\<lparr>y_store := s'\<rparr>) = Some r"
        using assms(1) False f by (simp add: Create_def Let_def split: if_splits)
      from create_loop_answered [OF this] s' d show ?thesis by simp
    qed
  qed
qed

lemma Create_known:
  assumes "known (y_store y) (if v6 then P6 else P4) (to_lower domain) a"
  shows "\<exists>y'. Create env domain v6 y = Some (y', Inr a)"
  using assms by (auto simp: Create_def Let_def known_def find_domain_def)

section \<open>Every state the store reaches\<close>

lemma NewStore_pool:
  "pool_at (NewStore r4 r6) k = map_option newPool (if k = P4 then r4 else r6)"
  by (cases k) (simp_all add: NewStore_def)

lemma p_prefix_newPool: "p_prefix (newPool pre) = masked pre"
  by (simp add: newPool_def Let_def)

lemma is4_masked: "prefix_valid pre \<Longrightarrow> is4 (pfx_addr (masked pre)) = is4 (pfx_addr pre)"
  by (cases "pfx_addr pre") (auto simp: masked_def prefix_valid.simps)

lemma NewStore_loading:
  assumes "ranges_ok r4 r6" "start_error (NewStore r4 r6) = None"
  shows "pool_at (NewStore r4 r6) k = Some p \<Longrightarrow> loading p" "families (NewStore r4 r6)"
proof -
  have u: "usable q \<noteq> 0" if "pool_at (NewStore r4 r6) k' = Some q" for k' q
  proof -
    have "filter (\<lambda>k. case pool_at (NewStore r4 r6) k of None \<Rightarrow> False | Some p \<Rightarrow> usable p = 0)
        (pools (NewStore r4 r6)) = []"
      using assms(2) by (auto simp: start_error_def split: list.splits dest: filter_eq_ConsD)
    then show ?thesis using that by (auto simp: filter_empty_conv)
  qed
  have v: "prefix_valid r" "is4 (pfx_addr r) = (k' = P4)" if "(if k' = P4 then r4 else r6) = Some r" for k' r
    using assms(1) that by (auto simp: ranges_ok_def split: if_splits)
  show "loading p" if p: "pool_at (NewStore r4 r6) k = Some p"
  proof -
    obtain r where r: "(if k = P4 then r4 else r6) = Some r" "p = newPool r"
      using p unfolding NewStore_pool by auto
    show ?thesis using u [OF p] v(1) [OF r(1)] unfolding r(2) by (intro loading_newPool)
  qed
  show "families (NewStore r4 r6)" unfolding families_def
  proof (intro allI impI)
    fix k' pre assume "prefix_of (NewStore r4 r6) k' = Some pre"
    then obtain r where r: "(if k' = P4 then r4 else r6) = Some r" "pre = masked r"
      unfolding prefix_of_def NewStore_pool by (auto simp: p_prefix_newPool)
    show "is4 (pfx_addr pre) = (k' = P4)" using v [OF r(1)] is4_masked by (simp add: r(2))
  qed
qed

lemma load_records_invariant:
  assumes "P s" "\<And>s a d. P s \<Longrightarrow> P (fst (ld s a d))"
  shows "P (fst (load_records ld b s refused))"
  using assms(1)
proof (induction b arbitrary: s refused)
  case (Cons e b)
  then show ?case using assms(2) [OF Cons.prems] by (cases e) (simp add: Let_def split_beta)
qed simp

lemma FakeIPLoadTable_invariant:
  assumes "P s" "\<And>s a d. P s \<Longrightarrow> P (fst (ld s a d))"
    and "FakeIPLoadTable t1 n t2 ld s c = (c', s', m, clean, ok)"
  shows "P s'"
proof -
  have "P (fst (load_records ld b s r))" for b r using assms(1,2) by (rule load_records_invariant)
  then show ?thesis using assms(1,3)
    by (fastforce simp: FakeIPLoadTable_def Let_def split_beta split: option.splits if_splits)
qed

lemma store_ok_load_table:
  assumes "ranges_ok r4 r6" "start_error (NewStore r4 r6) = None"
  shows "store_ok (y_store (load_table t1 nread t2 (NewStore r4 r6) c))"
proof -
  let ?P = "\<lambda>s. (\<forall>k p. pool_at s k = Some p \<longrightarrow> loading p) \<and> families s"
  let ?s1 = "(NewStore r4 r6)\<lparr>s_storage := True, s_generation := FakeIPGeneration c\<rparr>"
  obtain c' s2 m clean ok where l: "FakeIPLoadTable t1 nread t2 load_record ?s1 c = (c', s2, m, clean, ok)"
    by (cases "FakeIPLoadTable t1 nread t2 load_record ?s1 c")
  have "?P ?s1" using NewStore_loading [OF assms] by (simp add: families_def)
  moreover have "?P (fst (load_record s a d))" if "?P s" for s a d
    using that load_record_loading [of s] by (metis families_def prefix_of_load_record)
  ultimately have s2: "?P s2" using l by (rule FakeIPLoadTable_invariant)
  have "store_inv (restore_pools m clean s2)"
    using s2 restore_pool_inv by (auto simp: store_inv_def restore_pools_def pool_at_all_pools split: if_splits)
  then show ?thesis using s2 l by (simp add: load_table_def store_ok_def families_def prefix_of_ops)
qed

lemma started_ok: "started f \<Longrightarrow> store_ok (f_store f)"
proof (induction rule: started.induct)
  case (Loaded r4 r6 c t1 nread t2 y)
  then show ?case using store_ok_load_table [of r4 r6 t1 nread t2 c] by simp
next
  case (Memory r4 r6 c)
  then show ?case using NewStore_loading by (auto simp: store_ok_def store_inv_def loading_def)
qed

lemma step_ok: "step f g \<Longrightarrow> store_ok (f_store f) \<Longrightarrow> store_ok (f_store g)"
proof (induction rule: step.induct)
  case (Allocate d now f k s' r)
  then show ?case using store_ok_allocate [of "f_store f" "to_lower d"] by (simp add: to_lower_Nil_iff)
next
  case (Collect f gen q now s' j)
  then show ?case using store_ok_ops(7) by (metis conf.select_convs(1) conf.surjective conf.update_convs(1,3) fst_conv)
next
  case (Nothing f gen q now s' r)
  then show ?case using store_ok_ops(7) by (metis conf.select_convs(1) conf.surjective conf.update_convs(1) fst_conv)
qed (simp_all add: store_ok_ops)

lemma reachable_ok: "reachable f \<Longrightarrow> store_ok (f_store f)"
  by (induction rule: reachable.induct) (simp_all add: started_ok step_ok)

end
