(* ===== verification/FakeIP_Save.thy ===== *)
theory FakeIP_Save
  imports FakeIP_Service
begin

text \<open>
  A save, one range at a time: what it collects from a range, what it does to the range once it
  is written, and the bookkeeping this keeps up. A record that is not in the storage yet is in
  the list of records to save or in the save under way; a record is marked as being removed
  exactly while a save removes it.
\<close>

section \<open>What a save collects from one range\<close>

definition pool_candidates :: "saveRequest \<Rightarrow> u32 \<Rightarrow> pid \<Rightarrow> pool \<Rightarrow> (rid \<times> u64) list" where
  "pool_candidates q now k p =
     p_expired p @ (if q_room q = Some k \<and> full p then oldest p (room p) 0 now else [])"

definition pool_removals :: "saveRequest \<Rightarrow> u32 \<Rightarrow> pid \<Rightarrow> pool \<Rightarrow> (rid \<times> u64) list" where
  "pool_removals q now k p = snd (collect_expired q (pool_candidates q now k p) p)"

definition pool_marked :: "saveRequest \<Rightarrow> u32 \<Rightarrow> pid \<Rightarrow> pool \<Rightarrow> pool" where
  "pool_marked q now k p = fst (collect_expired q (pool_candidates q now k p) p)"

definition pool_written :: "saveRequest \<Rightarrow> u32 \<Rightarrow> pid \<Rightarrow> pool \<Rightarrow> rid list" where
  "pool_written q now k p =
     (let p1 = pool_marked q now k p in filter (\<lambda>i. \<not> r_removing (p_heap p1 i)) (pending_dirty p1))"

definition pool_collected :: "saveRequest \<Rightarrow> u32 \<Rightarrow> pid \<Rightarrow> pool \<Rightarrow> pool" where
  "pool_collected q now k p =
     (let p1 = pool_marked q now k p in
      p1\<lparr>p_expired := [], p_dirty := filter (\<lambda>i. r_removing (p_heap p1 i)) (pending_dirty p1)\<rparr>)"

definition pool_reserves :: "saveRequest \<Rightarrow> u32 \<Rightarrow> pid \<Rightarrow> pool \<Rightarrow> (u64 \<times> u32) list" where
  "pool_reserves q now k p =
     (case reserve_position q (pool_collected q now k p) of (l, r) \<Rightarrow> if r then [(p_advanced p, l)] else [])"

definition pool_gone :: "saveRequest \<Rightarrow> u32 \<Rightarrow> pid \<Rightarrow> pool \<Rightarrow> u32 list" where
  "pool_gone q now k p = filter (\<lambda>o'. rec_at (pool_marked q now k p) o' = None) (p_forgotten p)"

lemma collect_expired_fields [simp]:
  "p_byOffset (fst (collect_expired q cs p)) = p_byOffset p"
  "p_byName (fst (collect_expired q cs p)) = p_byName p"
  "p_forgotten (fst (collect_expired q cs p)) = p_forgotten p"
  "p_dirty (fst (collect_expired q cs p)) = p_dirty p"
  "p_next (fst (collect_expired q cs p)) = p_next p"
  "p_first (fst (collect_expired q cs p)) = p_first p"
  "p_budget (fst (collect_expired q cs p)) = p_budget p"
  "p_reserved (fst (collect_expired q cs p)) = p_reserved p"
  "p_reserveLast (fst (collect_expired q cs p)) = p_reserveLast p"
  "p_step (fst (collect_expired q cs p)) = p_step p"
  "p_advanced (fst (collect_expired q cs p)) = p_advanced p"
  "p_fresh (fst (collect_expired q cs p)) = p_fresh p"
  "address (fst (collect_expired q cs p)) = address p"
  "ahead (fst (collect_expired q cs p)) = ahead p"
  "usable (fst (collect_expired q cs p)) = usable p"
  "pool_static (fst (collect_expired q cs p)) = pool_static p"
  "in_ring (fst (collect_expired q cs p)) = in_ring p"
  "full (fst (collect_expired q cs p)) = full p"
  "r_domain (p_heap (fst (collect_expired q cs p)) i) = r_domain (p_heap p i)"
  "r_offset (p_heap (fst (collect_expired q cs p)) i) = r_offset (p_heap p i)"
  "r_dirty (p_heap (fst (collect_expired q cs p)) i) = r_dirty (p_heap p i)"
  "r_lastUse (p_heap (fst (collect_expired q cs p)) i) = r_lastUse (p_heap p i)"
  by (induction q cs p rule: collect_expired.induct) (auto simp: Let_def split_beta)

lemma pool_marked_fields [simp]:
  "p_byOffset (pool_marked q now k p) = p_byOffset p" "p_byName (pool_marked q now k p) = p_byName p"
  "p_forgotten (pool_marked q now k p) = p_forgotten p" "p_dirty (pool_marked q now k p) = p_dirty p"
  "p_next (pool_marked q now k p) = p_next p" "p_first (pool_marked q now k p) = p_first p"
  "p_budget (pool_marked q now k p) = p_budget p" "p_reserved (pool_marked q now k p) = p_reserved p"
  "p_reserveLast (pool_marked q now k p) = p_reserveLast p"
  "p_step (pool_marked q now k p) = p_step p" "p_advanced (pool_marked q now k p) = p_advanced p"
  "p_fresh (pool_marked q now k p) = p_fresh p" "address (pool_marked q now k p) = address p"
  "ahead (pool_marked q now k p) = ahead p" "usable (pool_marked q now k p) = usable p"
  "pool_static (pool_marked q now k p) = pool_static p" "in_ring (pool_marked q now k p) = in_ring p"
  "full (pool_marked q now k p) = full p"
  "r_domain (p_heap (pool_marked q now k p) i) = r_domain (p_heap p i)"
  "r_offset (p_heap (pool_marked q now k p) i) = r_offset (p_heap p i)"
  "r_dirty (p_heap (pool_marked q now k p) i) = r_dirty (p_heap p i)"
  "r_lastUse (p_heap (pool_marked q now k p) i) = r_lastUse (p_heap p i)"
  by (simp_all add: pool_marked_def)

text \<open>The candidates that become removals: each once, in the table, unused since they were chosen.\<close>

lemma collect_expired_removing:
  "r_removing (p_heap (fst (collect_expired q cs p)) i) \<longleftrightarrow>
     r_removing (p_heap p i) \<or> i \<in> fst ` set (snd (collect_expired q cs p))"
  by (induction q cs p rule: collect_expired.induct) (auto simp: Let_def split_beta)

lemma removable_iff:
  "removable q p (i, u) \<longleftrightarrow>
     \<not> q_clean q \<and> \<not> r_removing (p_heap p i) \<and> rec_at p (r_offset (p_heap p i)) = Some i \<and>
     r_lastUse (p_heap p i) = u"
  by (auto simp: removable_def)

lemma removable_marked:
  "removable q (upd_rec j (\<lambda>r. r\<lparr>r_removing := True\<rparr>) p) (i, u) \<longleftrightarrow> i \<noteq> j \<and> removable q p (i, u)"
  by (auto simp: removable_iff)

lemma collect_expired_removals:
  "set (snd (collect_expired q cs p)) = {c \<in> set cs. removable q p c}"
  "distinct (map fst (snd (collect_expired q cs p)))"
proof (induction cs arbitrary: p)
  case (Cons c cs)
  {
    case 1
    have same: "removable q p (i, u) \<Longrightarrow> removable q p (i, v) \<Longrightarrow> u = v" for i u v
      by (simp add: removable_iff)
    show ?case using Cons.IH(1) same removable_marked [of q "fst c" p]
      by (cases c) (auto simp: Let_def split_beta)
  next
    case 2
    have "fst c \<notin> fst ` set (snd (collect_expired q cs (upd_rec (fst c) (\<lambda>r. r\<lparr>r_removing := True\<rparr>) p)))"
      using removable_marked [of q "fst c" p] by (auto simp: Cons.IH(1))
    then show ?case using Cons.IH(2) by (simp add: Let_def split_beta)
  }
qed simp_all

lemma pool_removals_iff:
  "(i, u) \<in> set (pool_removals q now k p) \<longleftrightarrow>
     (i, u) \<in> set (pool_candidates q now k p) \<and> \<not> q_clean q \<and> \<not> r_removing (p_heap p i) \<and>
     rec_at p (r_offset (p_heap p i)) = Some i \<and> r_lastUse (p_heap p i) = u"
  by (simp add: pool_removals_def collect_expired_removals removable_iff)

lemma distinct_removals: "distinct (map fst (pool_removals q now k p))"
  by (simp add: pool_removals_def collect_expired_removals)

lemma removing_marked:
  "r_removing (p_heap (pool_marked q now k p) i) \<longleftrightarrow>
     r_removing (p_heap p i) \<or> i \<in> fst ` set (pool_removals q now k p)"
  by (simp add: pool_marked_def pool_removals_def collect_expired_removing)

lemma collect_pool_alt:
  "collect_pool q now k p j =
     (pool_collected q now k p,
      j\<lparr>j_deletes := j_deletes j
           @ map (\<lambda>(i, _). address p (r_offset (p_heap p i))) (pool_removals q now k p)
           @ map (address p) (pool_gone q now k p),
        j_removals := j_removals j @ map (Pair k) (pool_removals q now k p),
        j_puts := fold (\<lambda>i. put_address (address p (r_offset (p_heap p i))) (r_domain (p_heap p i)))
           (pool_written q now k p) (j_puts j),
        j_written := j_written j @ map (Pair k) (pool_written q now k p),
        j_reserves := j_reserves j @ map (Pair k) (pool_reserves q now k p),
        j_changed := j_changed j \<or> pool_reserves q now k p \<noteq> [],
        j_metadata := set_current k
          (address p (fst (reserve_position q (pool_collected q now k p)))) (j_metadata j)\<rparr>)"
proof -
  obtain p1 rs where c: "collect_expired q (pool_candidates q now k p) p = (p1, rs)"
    by (cases "collect_expired q (pool_candidates q now k p) p")
  have m: "pool_marked q now k p = p1" "pool_removals q now k p = rs"
    by (simp_all add: pool_marked_def pool_removals_def c)
  obtain l r where rp: "reserve_position q (pool_collected q now k p) = (l, r)"
    by (cases "reserve_position q (pool_collected q now k p)")
  have h: "r_domain (p_heap p1 i) = r_domain (p_heap p i)" "r_offset (p_heap p1 i) = r_offset (p_heap p i)"
    "p_forgotten p1 = p_forgotten p" for i
    using collect_expired_fields(3,19,20) [of q "pool_candidates q now k p" p] by (simp_all add: c)
  have pc: "p1\<lparr>p_expired := [], p_dirty := filter (\<lambda>i. r_removing (p_heap p1 i)) (pending_dirty p1)\<rparr> =
      pool_collected q now k p"
    by (simp add: pool_collected_def m Let_def)
  have pair: "map (\<lambda>(i, u). (k, i, u)) rs = map (Pair k) rs" by (simp add: case_prod_beta')
  show ?thesis
    unfolding collect_pool_def Let_def pool_candidates_def [symmetric] c prod.case pc rp
    by (simp add: m h pair pool_gone_def pool_written_def pool_reserves_def rp Let_def)
qed

section \<open>A job and its ranges\<close>

definition job_of :: "saveRequest \<Rightarrow> u32 \<Rightarrow> store \<Rightarrow> store \<times> job" where
  "job_of q now s = fold (collect_at q now) (pools s) (s, empty_job q s)"

lemma changes_of_map_Pair [simp]: "changes_of k (map (Pair k') xs) = (if k = k' then xs else [])"
  by (auto simp: changes_of_def filter_map comp_def)

lemma job_of_pools: "pool_at (fst (job_of q now s)) k = map_option (pool_collected q now k) (pool_at s k)"
  by (cases k; cases "s_pool4 s"; cases "s_pool6 s")
    (simp_all add: job_of_def pools_def collect_at_def collect_pool_alt)

lemma job_of_fields [simp]:
  "s_storage (fst (job_of q now s)) = s_storage s" "s_closed (fst (job_of q now s)) = s_closed s"
  "s_generation (fst (job_of q now s)) = s_generation s"
  "s_storageFailed (fst (job_of q now s)) = s_storageFailed s"
  "s_inet4Range (fst (job_of q now s)) = s_inet4Range s"
  "s_inet6Range (fst (job_of q now s)) = s_inet6Range s"
  by (cases "s_pool4 s"; cases "s_pool6 s"; simp add: job_of_def pools_def collect_at_def collect_pool_alt)+

lemma job_of_clean [simp]:
  "j_clean (snd (job_of q now s)) = q_clean q" "j_room (snd (job_of q now s)) = q_room q"
  by (cases "s_pool4 s"; cases "s_pool6 s";
      simp add: job_of_def pools_def collect_at_def collect_pool_alt empty_job_def)+

lemma job_of_changes:
  assumes "pool_at s k = Some p"
  shows "changes_of k (j_removals (snd (job_of q now s))) = pool_removals q now k p"
    and "changes_of k (j_written (snd (job_of q now s))) = pool_written q now k p"
    and "changes_of k (j_reserves (snd (job_of q now s))) = pool_reserves q now k p"
  using assms
  by (cases k; cases "s_pool4 s"; cases "s_pool6 s";
      auto simp: job_of_def pools_def collect_at_def collect_pool_alt empty_job_def)+

lemma job_of_no_changes:
  assumes "pool_at s k = None"
  shows "changes_of k (j_removals (snd (job_of q now s))) = []"
    and "changes_of k (j_written (snd (job_of q now s))) = []"
    and "changes_of k (j_reserves (snd (job_of q now s))) = []"
  using assms
  by (cases k; cases "s_pool4 s"; cases "s_pool6 s";
      auto simp: job_of_def pools_def collect_at_def collect_pool_alt empty_job_def)+

lemma save_collect_alt:
  "save_collect gen q now s =
     (if \<not> s_storage s then (s, SaveNothing)
      else if s_closed s \<and> \<not> q_clean q then (s, SaveRefused)
      else
        let s1 = save_generation gen s; j = snd (job_of q now s1) in
        if (q_reserve q \<or> q_room q \<noteq> None) \<and> \<not> save_needed q s1 then (s1, SaveNothing)
        else (fst (job_of q now s1),
              if j_puts j = [] \<and> j_deletes j = [] \<and> \<not> j_changed j then SaveNothing else SaveWrite j))"
  by (simp add: save_collect_def Let_def job_of_def split_beta)

text \<open>What is not written because there is nothing to write leaves nothing behind.\<close>

lemma job_of_nothing:
  assumes "j_puts (snd (job_of q now s)) = []" "j_deletes (snd (job_of q now s)) = []"
    "\<not> j_changed (snd (job_of q now s))" "pool_at s k = Some p"
  shows "pool_removals q now k p = []" "pool_written q now k p = []" "pool_reserves q now k p = []"
    and "pool_gone q now k p = []"
proof -
  have p: "put_address a d ps \<noteq> []" for a d ps by (cases ps) (auto simp: put_address_def)
  have f: "fold (\<lambda>i. put_address (a i) (d i)) ws ps = [] \<longleftrightarrow> ws = [] \<and> ps = []" for a d ps and ws :: "rid list"
    by (induction ws arbitrary: ps) (simp_all add: p)
  show "pool_removals q now k p = []" "pool_written q now k p = []" "pool_reserves q now k p = []"
    "pool_gone q now k p = []"
    using assms
    by (cases k; cases "s_pool4 s"; cases "s_pool6 s";
        auto simp: job_of_def pools_def collect_at_def collect_pool_alt empty_job_def f)+
qed

section \<open>What a commit does to one range\<close>

definition mark_saved :: "rid list \<Rightarrow> pool \<Rightarrow> pool" where
  "mark_saved ws p = fold (\<lambda>i. upd_rec i (\<lambda>r. r\<lparr>r_dirty := False\<rparr>)) ws p"

definition remove_all_saved :: "(rid \<times> u64) list \<Rightarrow> pool \<Rightarrow> pool" where
  "remove_all_saved rs p = fold (\<lambda>(i, u). remove_saved i u) rs p"

definition take_reserve :: "(u64 \<times> u32) list \<Rightarrow> pool \<Rightarrow> pool" where
  "take_reserve vs p = fold (\<lambda>(advanced, l) p. p\<lparr>p_reserved := True, p_reserveLast := l,
     p_budget := p_step p - ucast (min (p_advanced p - advanced) (ucast (p_step p)))\<rparr>) vs p"

definition unmark :: "(rid \<times> u64) list \<Rightarrow> pool \<Rightarrow> pool" where
  "unmark rs p = fold (\<lambda>(i, _). upd_rec i (\<lambda>r. r\<lparr>r_removing := False\<rparr>)) rs p"

definition forget_all :: "(rid \<times> u64) list \<Rightarrow> pool \<Rightarrow> pool" where
  "forget_all rs p = fold (\<lambda>(i, u). forget i u) rs p"

definition pool_saved :: "job \<Rightarrow> pid \<Rightarrow> pool \<Rightarrow> pool" where
  "pool_saved j k p =
     take_reserve (changes_of k (j_reserves j)) (remove_all_saved (changes_of k (j_removals j))
       ((mark_saved (changes_of k (j_written j)) p)\<lparr>p_forgotten := []\<rparr>))"

definition pool_failed :: "job \<Rightarrow> pid \<Rightarrow> pool \<Rightarrow> pool" where
  "pool_failed j k p =
     (let p1 = unmark (changes_of k (j_removals j)) (p\<lparr>p_dirty := p_dirty p @ changes_of k (j_written j)\<rparr>) in
      if j_room j = Some k \<and> full p1 then forget_all (changes_of k (j_removals j)) p1 else p1)"

lemma case_prod_apply: "(case c of (a, b) \<Rightarrow> \<lambda>x. f a b x) = f (fst c) (snd c)"
  by (simp add: split_beta)

lemma fold_append_dirty:
  "fold (\<lambda>i p. p\<lparr>p_dirty := p_dirty p @ [i]\<rparr>) is p = p\<lparr>p_dirty := p_dirty p @ is\<rparr>"
  by (induction "is" arbitrary: p) simp_all

lemma pool_at_commit_folds:
  "pool_at (fold commit_write ws s) k = map_option (mark_saved (changes_of k ws)) (pool_at s k)"
  "pool_at (fold commit_removal rs s) k = map_option (remove_all_saved (changes_of k rs)) (pool_at s k)"
  "pool_at (fold commit_reserve vs s) k = map_option (take_reserve (changes_of k vs)) (pool_at s k)"
  "pool_at (fold undo_write ws s) k =
     map_option (\<lambda>p. p\<lparr>p_dirty := p_dirty p @ changes_of k ws\<rparr>) (pool_at s k)"
  "pool_at (fold undo_removal rs s) k = map_option (unmark (changes_of k rs)) (pool_at s k)"
proof -
  have w: "commit_write = (\<lambda>c. on_pool (fst c) (upd_rec (snd c) (\<lambda>r. r\<lparr>r_dirty := False\<rparr>)))"
    by (simp add: fun_eq_iff commit_write_def)
  have r: "commit_removal = (\<lambda>c. on_pool (fst c) ((\<lambda>(i, u). remove_saved i u) (snd c)))"
    by (simp add: fun_eq_iff commit_removal_def split_beta)
  have v: "commit_reserve = (\<lambda>c. on_pool (fst c) ((\<lambda>(advanced, l) p. p\<lparr>p_reserved := True, p_reserveLast := l,
     p_budget := p_step p - ucast (min (p_advanced p - advanced) (ucast (p_step p)))\<rparr>) (snd c)))"
    by (simp add: fun_eq_iff commit_reserve_def split_beta)
  have u: "undo_write = (\<lambda>c. on_pool (fst c) ((\<lambda>i p. p\<lparr>p_dirty := p_dirty p @ [i]\<rparr>) (snd c)))"
    by (simp add: fun_eq_iff undo_write_def)
  have m: "undo_removal =
      (\<lambda>c. on_pool (fst c) ((\<lambda>(i, _). upd_rec i (\<lambda>r. r\<lparr>r_removing := False\<rparr>)) (snd c)))"
    by (simp add: fun_eq_iff undo_removal_def split_beta)
  show "pool_at (fold commit_write ws s) k = map_option (mark_saved (changes_of k ws)) (pool_at s k)"
    unfolding w mark_saved_def [abs_def]
    by (rule pool_at_fold_changes [of "\<lambda>i. upd_rec i (\<lambda>r. r\<lparr>r_dirty := False\<rparr>)"])
  show "pool_at (fold commit_removal rs s) k = map_option (remove_all_saved (changes_of k rs)) (pool_at s k)"
    by (simp add: r pool_at_fold_changes remove_all_saved_def [abs_def])
  show "pool_at (fold commit_reserve vs s) k = map_option (take_reserve (changes_of k vs)) (pool_at s k)"
    by (simp add: v pool_at_fold_changes take_reserve_def [abs_def])
  show "pool_at (fold undo_write ws s) k =
     map_option (\<lambda>p. p\<lparr>p_dirty := p_dirty p @ changes_of k ws\<rparr>) (pool_at s k)"
    unfolding u using pool_at_fold_changes [of "\<lambda>i p. p\<lparr>p_dirty := p_dirty p @ [i]\<rparr>" ws s k]
    by (simp add: fold_append_dirty cong: option.map_cong)
  show "pool_at (fold undo_removal rs s) k = map_option (unmark (changes_of k rs)) (pool_at s k)"
    by (simp add: m pool_at_fold_changes unmark_def [abs_def])
qed

lemma pool_at_forget_removals:
  "pool_at (fold (forget_removal k') rs s) k =
     map_option (if k = k' then forget_all (changes_of k rs) else id) (pool_at s k)"
proof (induction rs arbitrary: s)
  case (Cons c rs)
  obtain k2 i u where c: "c = (k2, i, u)" by (cases c)
  show ?case using Cons
    by (cases "pool_at s k") (auto simp: c forget_removal_def forget_all_def)
next
  case (Nil s) show ?case by (cases "pool_at s k") (simp_all add: forget_all_def)
qed

lemma pool_at_save_commit:
  "pool_at (save_commit ok j s) k =
     map_option (if ok then pool_saved j k else pool_failed j k) (pool_at s k)"
proof (cases ok)
  case True
  then show ?thesis
    by (cases "pool_at s k")
      (simp_all add: save_commit_def commit_saved_def Let_def pool_at_commit_folds pool_at_all_pools
        pool_saved_def)
next
  case False
  show ?thesis
  proof (cases "j_room j")
    case None
    then show ?thesis using False
      by (cases "pool_at s k")
        (simp_all add: save_commit_def commit_failed_def Let_def pool_at_commit_folds pool_failed_def)
  next
    case (Some k')
    then show ?thesis using False
      by (cases "pool_at s k"; cases "pool_at s k'"; cases "k = k'")
        (simp_all add: save_commit_def commit_failed_def Let_def pool_at_commit_folds pool_failed_def
          pool_at_forget_removals)
  qed
qed

lemma save_commit_fields [simp]:
  "s_storage (save_commit ok j s) = s_storage s" "s_closed (save_commit ok j s) = s_closed s"
  "s_generation (save_commit ok j s) = s_generation s"
  "s_storageFailed (save_commit ok j s) = (\<not> ok)"
  "s_inet4Range (save_commit ok j s) = s_inet4Range s"
  "s_inet6Range (save_commit ok j s) = s_inet6Range s"
proof -
  have f: "f (fold commit_write ws t) = f t" "f (fold commit_removal rs t) = f t"
    "f (fold commit_reserve vs t) = f t" "f (fold undo_write ws t) = f t"
    "f (fold undo_removal rs t) = f t" "f (fold (forget_removal k) rs t) = f t"
    "f (fold (\<lambda>k. on_pool k g) ks t) = f t"
    if "\<And>k g t. f (on_pool k g t) = f t" for f :: "store \<Rightarrow> 'a" and ws rs vs t k g ks
    using that by (intro fold_on_pool_fields;
      simp add: commit_write_def commit_removal_def commit_reserve_def undo_write_def undo_removal_def
        forget_removal_def split_beta)+
  note ff = f [of s_storage] f [of s_closed] f [of s_generation] f [of s_storageFailed]
    f [of s_inet4Range] f [of s_inet6Range]
  show "s_storage (save_commit ok j s) = s_storage s" "s_closed (save_commit ok j s) = s_closed s"
    "s_generation (save_commit ok j s) = s_generation s" "s_storageFailed (save_commit ok j s) = (\<not> ok)"
    "s_inet4Range (save_commit ok j s) = s_inet4Range s" "s_inet6Range (save_commit ok j s) = s_inet6Range s"
    by (auto simp: save_commit_def commit_saved_def commit_failed_def Let_def ff split: option.split)
qed

subsection \<open>Marks\<close>

lemma mark_saved_fields [simp]:
  "p_byOffset (mark_saved ws p) = p_byOffset p" "p_byName (mark_saved ws p) = p_byName p"
  "p_dirty (mark_saved ws p) = p_dirty p" "p_expired (mark_saved ws p) = p_expired p"
  "p_forgotten (mark_saved ws p) = p_forgotten p" "p_next (mark_saved ws p) = p_next p"
  "p_budget (mark_saved ws p) = p_budget p" "p_step (mark_saved ws p) = p_step p"
  "p_reserved (mark_saved ws p) = p_reserved p" "p_reserveLast (mark_saved ws p) = p_reserveLast p"
  "p_advanced (mark_saved ws p) = p_advanced p" "address (mark_saved ws p) = address p"
  "ahead (mark_saved ws p) = ahead p" "usable (mark_saved ws p) = usable p"
  "pool_inv (mark_saved ws p) = pool_inv p" "full (mark_saved ws p) = full p"
  "p_heap (mark_saved ws p) i = (if i \<in> set ws then (p_heap p i)\<lparr>r_dirty := False\<rparr> else p_heap p i)"
  unfolding mark_saved_def
  by (induction ws arbitrary: p) (simp_all add: pool_inv_upd_rec)

lemma unmark_fields [simp]:
  "p_byOffset (unmark rs p) = p_byOffset p" "p_byName (unmark rs p) = p_byName p"
  "p_dirty (unmark rs p) = p_dirty p" "p_expired (unmark rs p) = p_expired p"
  "p_forgotten (unmark rs p) = p_forgotten p" "p_next (unmark rs p) = p_next p"
  "p_budget (unmark rs p) = p_budget p" "p_step (unmark rs p) = p_step p"
  "p_reserved (unmark rs p) = p_reserved p" "p_reserveLast (unmark rs p) = p_reserveLast p"
  "p_advanced (unmark rs p) = p_advanced p" "address (unmark rs p) = address p"
  "ahead (unmark rs p) = ahead p" "usable (unmark rs p) = usable p"
  "pool_inv (unmark rs p) = pool_inv p" "full (unmark rs p) = full p"
  "p_heap (unmark rs p) i =
     (if i \<in> fst ` set rs then (p_heap p i)\<lparr>r_removing := False\<rparr> else p_heap p i)"
  unfolding unmark_def
  by (induction rs arbitrary: p) (auto simp: pool_inv_upd_rec split_beta)

lemma take_reserve_fields [simp]:
  "p_byOffset (take_reserve vs p) = p_byOffset p" "p_byName (take_reserve vs p) = p_byName p"
  "p_dirty (take_reserve vs p) = p_dirty p" "p_expired (take_reserve vs p) = p_expired p"
  "p_forgotten (take_reserve vs p) = p_forgotten p" "p_next (take_reserve vs p) = p_next p"
  "p_step (take_reserve vs p) = p_step p" "p_advanced (take_reserve vs p) = p_advanced p"
  "address (take_reserve vs p) = address p" "ahead (take_reserve vs p) = ahead p"
  "usable (take_reserve vs p) = usable p" "pool_inv (take_reserve vs p) = pool_inv p"
  "p_heap (take_reserve vs p) = p_heap p"
  unfolding take_reserve_def by (induction vs arbitrary: p) (simp_all add: split_beta)

subsection \<open>Removals\<close>

text \<open>The record \<open>i\<close> was not used since the candidates \<open>rs\<close> were chosen.\<close>

definition unused :: "pool \<Rightarrow> (rid \<times> u64) list \<Rightarrow> rid \<Rightarrow> bool" where
  "unused p rs i \<longleftrightarrow> (i, r_lastUse (p_heap p i)) \<in> set rs"

definition in_table :: "pool \<Rightarrow> rid \<Rightarrow> bool" where
  "in_table p i \<longleftrightarrow> rec_at p (r_offset (p_heap p i)) = Some i"

lemma in_tableI: "pool_inv p \<Longrightarrow> rec_at p o' = Some i \<Longrightarrow> in_table p i"
  using pool_inv_rec(2) by (simp add: in_table_def)

lemma remove_saved_lookup:
  assumes "pool_inv p" "in_table p i"
  shows "rec_at (remove_saved i u p) o' =
      (if rec_at p o' = Some i \<and> r_lastUse (p_heap p i) = u then None else rec_at p o')"
    and "p_heap (remove_saved i u p) i = (p_heap p i)\<lparr>r_removing := False,
      r_dirty := r_dirty (p_heap p i) \<or> r_lastUse (p_heap p i) \<noteq> u\<rparr>"
    and "j \<noteq> i \<Longrightarrow> p_heap (remove_saved i u p) j = p_heap p j"
    and "set (p_dirty (remove_saved i u p)) = set (p_dirty p) \<union>
      (if r_lastUse (p_heap p i) \<noteq> u \<and> \<not> r_dirty (p_heap p i) then {i} else {})"
proof -
  have o': "rec_at p o' = Some i \<longleftrightarrow> o' = r_offset (p_heap p i)"
    using assms pool_inv_rec(2) unfolding in_table_def by metis
  show "rec_at (remove_saved i u p) o' =
      (if rec_at p o' = Some i \<and> r_lastUse (p_heap p i) = u then None else rec_at p o')"
    using assms(2) o' by (auto simp: remove_saved_def Let_def in_table_def)
  show "p_heap (remove_saved i u p) i = (p_heap p i)\<lparr>r_removing := False,
      r_dirty := r_dirty (p_heap p i) \<or> r_lastUse (p_heap p i) \<noteq> u\<rparr>"
    "j \<noteq> i \<Longrightarrow> p_heap (remove_saved i u p) j = p_heap p j"
    "set (p_dirty (remove_saved i u p)) = set (p_dirty p) \<union>
      (if r_lastUse (p_heap p i) \<noteq> u \<and> \<not> r_dirty (p_heap p i) then {i} else {})"
    using assms(2) by (auto simp: remove_saved_def Let_def in_table_def)
qed

lemma remove_saved_fields [simp]:
  "p_expired (remove_saved i u p) = p_expired p" "p_forgotten (remove_saved i u p) = p_forgotten p"
  "p_next (remove_saved i u p) = p_next p" "p_budget (remove_saved i u p) = p_budget p"
  "p_step (remove_saved i u p) = p_step p" "p_reserved (remove_saved i u p) = p_reserved p"
  "p_reserveLast (remove_saved i u p) = p_reserveLast p" "p_fresh (remove_saved i u p) = p_fresh p"
  "p_advanced (remove_saved i u p) = p_advanced p" "address (remove_saved i u p) = address p"
  "usable (remove_saved i u p) = usable p" "p_max (remove_saved i u p) = p_max p"
  "r_domain (p_heap (remove_saved i u p) j) = r_domain (p_heap p j)"
  "r_offset (p_heap (remove_saved i u p) j) = r_offset (p_heap p j)"
  "r_lastUse (p_heap (remove_saved i u p) j) = r_lastUse (p_heap p j)"
  by (simp_all add: remove_saved_def Let_def)

lemma remove_all_saved_fields [simp]:
  "p_expired (remove_all_saved rs p) = p_expired p" "p_forgotten (remove_all_saved rs p) = p_forgotten p"
  "p_next (remove_all_saved rs p) = p_next p" "p_budget (remove_all_saved rs p) = p_budget p"
  "p_step (remove_all_saved rs p) = p_step p" "p_reserved (remove_all_saved rs p) = p_reserved p"
  "p_reserveLast (remove_all_saved rs p) = p_reserveLast p" "p_fresh (remove_all_saved rs p) = p_fresh p"
  "p_advanced (remove_all_saved rs p) = p_advanced p" "address (remove_all_saved rs p) = address p"
  "usable (remove_all_saved rs p) = usable p" "p_max (remove_all_saved rs p) = p_max p"
  "r_domain (p_heap (remove_all_saved rs p) j) = r_domain (p_heap p j)"
  "r_offset (p_heap (remove_all_saved rs p) j) = r_offset (p_heap p j)"
  "r_lastUse (p_heap (remove_all_saved rs p) j) = r_lastUse (p_heap p j)"
  unfolding remove_all_saved_def by (induction rs arbitrary: p) (simp_all add: split_beta)

lemma pool_inv_remove_all_saved: "pool_inv p \<Longrightarrow> pool_inv (remove_all_saved rs p)"
  unfolding remove_all_saved_def
  by (rule fold_invariant) (auto simp: pool_inv_remove_saved)

definition removals_ok :: "pool \<Rightarrow> (rid \<times> u64) list \<Rightarrow> bool" where
  "removals_ok p rs \<longleftrightarrow> pool_inv p \<and> distinct (map fst rs) \<and> (\<forall>i \<in> fst ` set rs. in_table p i)"

lemma unused_Cons:
  "j \<notin> fst ` set rs \<Longrightarrow>
     unused p ((j, u) # rs) i = (if i = j then r_lastUse (p_heap p j) = u else unused p rs i)"
  by (force simp: unused_def)

lemma removals_ok_Cons:
  assumes "removals_ok p ((j, u) # rs)"
  shows "pool_inv p" "in_table p j" "j \<notin> fst ` set rs" "\<not> unused p rs j"
    and "removals_ok (remove_saved j u p) rs" "removals_ok (forget j u p) rs"
proof -
  show inv: "pool_inv p" and j: "in_table p j" and notin: "j \<notin> fst ` set rs"
    using assms by (auto simp: removals_ok_def)
  show "\<not> unused p rs j" using notin by (force simp: unused_def)
  have i: "in_table (remove_saved j u p) i \<and> in_table (forget j u p) i" if "i \<in> fst ` set rs" for i
  proof -
    have "i \<noteq> j" using that notin by auto
    moreover have i: "in_table p i" using assms that by (auto simp: removals_ok_def)
    moreover have "r_offset (p_heap p i) \<noteq> r_offset (p_heap p j)"
      using calculation j by (auto simp: in_table_def)
    ultimately show ?thesis using j
      by (simp add: in_table_def remove_saved_lookup(1) [OF inv j]) (simp add: forget_def Let_def)
  qed
  with assms show "removals_ok (remove_saved j u p) rs" "removals_ok (forget j u p) rs"
    using pool_inv_remove_saved [OF inv] pool_inv_forget [OF inv] by (auto simp: removals_ok_def)
qed

text \<open>Removals that are saved: the unused records leave, the used ones are to be saved again.\<close>

lemma unused_remove_saved [simp]: "unused (remove_saved j u p) rs i = unused p rs i"
  by (simp add: unused_def)

lemma remove_all_saved_Cons: "remove_all_saved ((j, u) # rs) p = remove_all_saved rs (remove_saved j u p)"
  by (simp add: remove_all_saved_def)

lemma remove_all_saved_lookup:
  assumes "removals_ok p rs"
  shows "rec_at (remove_all_saved rs p) o' =
      (case rec_at p o' of None \<Rightarrow> None | Some i \<Rightarrow> if unused p rs i then None else Some i)"
  using assms
proof (induction rs arbitrary: p)
  case Nil then show ?case by (simp add: remove_all_saved_def unused_def split: option.split)
next
  case (Cons c rs)
  obtain j u where c: "c = (j, u)" by (cases c)
  note F = removals_ok_Cons [OF Cons.prems [unfolded c]]
  show ?case using Cons.IH [OF F(5)] remove_saved_lookup(1) [OF F(1,2), of u o'] F(4)
    by (auto simp: c remove_all_saved_Cons unused_Cons [OF F(3)] split: option.split)
qed

lemma remove_all_saved_heap:
  assumes "removals_ok p rs"
  shows "p_heap (remove_all_saved rs p) i =
      (if i \<in> fst ` set rs then (p_heap p i)\<lparr>r_removing := False,
         r_dirty := r_dirty (p_heap p i) \<or> \<not> unused p rs i\<rparr> else p_heap p i)"
  using assms
proof (induction rs arbitrary: p)
  case Nil then show ?case by (simp add: remove_all_saved_def)
next
  case (Cons c rs)
  obtain j u where c: "c = (j, u)" by (cases c)
  note F = removals_ok_Cons [OF Cons.prems [unfolded c]]
  show ?case
  proof (cases "i = j")
    case True
    then show ?thesis using Cons.IH [OF F(5)] remove_saved_lookup(2) [OF F(1,2), of u] F(3)
      by (simp add: c remove_all_saved_Cons unused_Cons [OF F(3)])
  next
    case False
    then show ?thesis using Cons.IH [OF F(5)] remove_saved_lookup(3) [OF F(1,2) False, of u]
      by (simp add: c remove_all_saved_Cons unused_Cons [OF F(3)])
  qed
qed

lemma remove_all_saved_dirty:
  assumes "removals_ok p rs"
  shows "set (p_dirty (remove_all_saved rs p)) = set (p_dirty p) \<union>
      {i \<in> fst ` set rs. \<not> unused p rs i \<and> \<not> r_dirty (p_heap p i)}"
  using assms
proof (induction rs arbitrary: p)
  case Nil then show ?case by (simp add: remove_all_saved_def)
next
  case (Cons c rs)
  obtain j u where c: "c = (j, u)" by (cases c)
  note F = removals_ok_Cons [OF Cons.prems [unfolded c]]
  have "p_heap (remove_saved j u p) i = p_heap p i" if "i \<in> fst ` set rs" for i
    using that F(3) by (intro remove_saved_lookup(3) [OF F(1,2)]) auto
  then have "{i \<in> fst ` set rs. \<not> unused p rs i \<and> \<not> r_dirty (p_heap (remove_saved j u p) i)} =
      {i \<in> fst ` set rs. \<not> unused p rs i \<and> \<not> r_dirty (p_heap p i)}"
    by (intro Collect_cong) (simp cong: conj_cong)
  moreover have "{i \<in> fst ` set ((j, u) # rs). \<not> unused p ((j, u) # rs) i \<and> \<not> r_dirty (p_heap p i)} =
      (if r_lastUse (p_heap p j) \<noteq> u \<and> \<not> r_dirty (p_heap p j) then {j} else {}) \<union>
      {i \<in> fst ` set rs. \<not> unused p rs i \<and> \<not> r_dirty (p_heap p i)}"
  proof -
    have "i \<noteq> j" if "i \<in> fst ` set rs" for i using that F(3) by auto
    then show ?thesis by (auto simp: unused_Cons [OF F(3)])
  qed
  ultimately show ?case using Cons.IH [OF F(5)] remove_saved_lookup(4) [OF F(1,2), of u]
    by (simp add: c remove_all_saved_Cons Un_assoc)
qed

text \<open>Removals that could not be saved but make room: the unused records leave the memory.\<close>

lemma forget_fields [simp]:
  "p_heap (forget i u p) = p_heap p" "p_dirty (forget i u p) = p_dirty p"
  "p_expired (forget i u p) = p_expired p" "p_next (forget i u p) = p_next p"
  "p_budget (forget i u p) = p_budget p" "p_step (forget i u p) = p_step p"
  "p_reserved (forget i u p) = p_reserved p" "p_reserveLast (forget i u p) = p_reserveLast p"
  "p_advanced (forget i u p) = p_advanced p" "address (forget i u p) = address p"
  "usable (forget i u p) = usable p" "p_max (forget i u p) = p_max p" "p_fresh (forget i u p) = p_fresh p"
  "unused (forget i u p) rs j = unused p rs j"
  by (simp_all add: forget_def Let_def unused_def)

lemma forget_all_fields [simp]:
  "p_heap (forget_all rs p) = p_heap p" "p_dirty (forget_all rs p) = p_dirty p"
  "p_expired (forget_all rs p) = p_expired p" "p_next (forget_all rs p) = p_next p"
  "p_budget (forget_all rs p) = p_budget p" "p_step (forget_all rs p) = p_step p"
  "p_reserved (forget_all rs p) = p_reserved p" "p_reserveLast (forget_all rs p) = p_reserveLast p"
  "p_advanced (forget_all rs p) = p_advanced p" "address (forget_all rs p) = address p"
  "usable (forget_all rs p) = usable p" "p_max (forget_all rs p) = p_max p"
  "p_fresh (forget_all rs p) = p_fresh p"
  unfolding forget_all_def by (induction rs arbitrary: p) (simp_all add: split_beta)

lemma pool_inv_forget_all: "pool_inv p \<Longrightarrow> pool_inv (forget_all rs p)"
  unfolding forget_all_def by (rule fold_invariant) (auto simp: pool_inv_forget)

lemma forget_lookup:
  assumes "pool_inv p" "in_table p i"
  shows "rec_at (forget i u p) o' =
      (if rec_at p o' = Some i \<and> r_lastUse (p_heap p i) = u then None else rec_at p o')"
proof -
  have "rec_at p o' = Some i \<longleftrightarrow> o' = r_offset (p_heap p i)"
    using assms pool_inv_rec(2) unfolding in_table_def by metis
  then show ?thesis using assms(2) by (auto simp: forget_def Let_def in_table_def)
qed

lemma forget_all_lookup:
  assumes "removals_ok p rs"
  shows "rec_at (forget_all rs p) o' =
      (case rec_at p o' of None \<Rightarrow> None | Some i \<Rightarrow> if unused p rs i then None else Some i)"
  using assms
proof (induction rs arbitrary: p)
  case Nil then show ?case by (simp add: forget_all_def unused_def split: option.split)
next
  case (Cons c rs)
  obtain j u where c: "c = (j, u)" by (cases c)
  note F = removals_ok_Cons [OF Cons.prems [unfolded c]]
  have e: "forget_all ((j, u) # rs) p = forget_all rs (forget j u p)" by (simp add: forget_all_def)
  show ?case using Cons.IH [OF F(6)] forget_lookup [OF F(1,2), of u o'] F(4)
    by (auto simp: c e unused_Cons [OF F(3)] split: option.split)
qed

section \<open>The books\<close>

text \<open>
  The books of a range while a save writes the records \<open>ws\<close> and removes the records \<open>rs\<close> (both
  empty between saves): no record to save is overlooked, the marks are those of the save, and an
  address that is held back is neither used nor saved.
\<close>

definition books :: "pool \<Rightarrow> rid list \<Rightarrow> (rid \<times> u64) list \<Rightarrow> bool" where
  "books p ws rs \<longleftrightarrow>
     removals_ok p rs \<and> (\<forall>i \<in> fst ` set rs. r_removing (p_heap p i)) \<and>
     (\<forall>i. in_table p i \<and> r_removing (p_heap p i) \<longrightarrow> i \<in> fst ` set rs) \<and>
     (\<forall>i. in_table p i \<and> r_dirty (p_heap p i) \<longrightarrow> i \<in> set (p_dirty p) \<union> set ws) \<and>
     (\<forall>i \<in> set ws. in_table p i \<and> r_dirty (p_heap p i) \<and> \<not> r_removing (p_heap p i)) \<and>
     (\<forall>i. in_table p i \<and> held (p_heap p i) \<longrightarrow>
        \<not> r_dirty (p_heap p i) \<and> (i \<in> fst ` set rs \<longrightarrow> unused p rs i))"

lemma booksI:
  assumes "removals_ok p rs" "\<And>i. i \<in> fst ` set rs \<Longrightarrow> r_removing (p_heap p i)"
    "\<And>i. in_table p i \<Longrightarrow> r_removing (p_heap p i) \<Longrightarrow> i \<in> fst ` set rs"
    "\<And>i. in_table p i \<Longrightarrow> r_dirty (p_heap p i) \<Longrightarrow> i \<in> set (p_dirty p) \<union> set ws"
    "\<And>i. i \<in> set ws \<Longrightarrow> in_table p i \<and> r_dirty (p_heap p i) \<and> \<not> r_removing (p_heap p i)"
    "\<And>i. in_table p i \<Longrightarrow> held (p_heap p i) \<Longrightarrow>
       \<not> r_dirty (p_heap p i) \<and> (i \<in> fst ` set rs \<longrightarrow> unused p rs i)"
  shows "books p ws rs"
  using assms unfolding books_def by blast

lemma booksD:
  assumes "books p ws rs"
  shows "removals_ok p rs" "pool_inv p" "i \<in> fst ` set rs \<Longrightarrow> r_removing (p_heap p i)"
    "i \<in> fst ` set rs \<Longrightarrow> in_table p i"
    "in_table p i \<Longrightarrow> r_removing (p_heap p i) \<Longrightarrow> i \<in> fst ` set rs"
    "in_table p i \<Longrightarrow> r_dirty (p_heap p i) \<Longrightarrow> i \<in> set (p_dirty p) \<union> set ws"
    "i \<in> set ws \<Longrightarrow> in_table p i \<and> r_dirty (p_heap p i) \<and> \<not> r_removing (p_heap p i)"
    "in_table p i \<Longrightarrow> held (p_heap p i) \<Longrightarrow> \<not> r_dirty (p_heap p i)"
    "in_table p i \<Longrightarrow> held (p_heap p i) \<Longrightarrow> i \<in> fst ` set rs \<Longrightarrow> unused p rs i"
  using assms unfolding books_def removals_ok_def by blast+

lemma in_table_cong:
  "(\<And>o'. rec_at q o' = rec_at p o') \<Longrightarrow> r_offset (p_heap q i) = r_offset (p_heap p i) \<Longrightarrow>
    in_table q i = in_table p i"
  by (simp add: in_table_def)

lemma pool_marked_inv: "pool_inv p \<Longrightarrow> pool_inv (pool_marked q now k p)"
  by (simp add: pool_marked_def pool_inv_collect_expired)

lemma books_collected:
  assumes "books p [] []"
  shows "books (pool_collected q now k p) (pool_written q now k p) (pool_removals q now k p)"
proof -
  let ?m = "pool_marked q now k p" and ?c = "pool_collected q now k p"
  have inv: "pool_inv ?c"
    using booksD(2) [OF assms] pool_marked_inv by (simp add: pool_collected_def Let_def)
  have heap: "p_heap ?c = p_heap ?m" "p_byOffset ?c = p_byOffset p"
    by (simp_all add: pool_collected_def Let_def)
  have t: "in_table ?c i = in_table p i" for i by (simp add: in_table_def heap)
  have rem: "in_table p i" "\<not> r_removing (p_heap p i)" if "i \<in> fst ` set (pool_removals q now k p)" for i
    using that by (auto simp: pool_removals_iff in_table_def)
  have none: "\<not> r_removing (p_heap p i)" if "in_table p i" for i using booksD(5) [OF assms that] by auto
  have d: "i \<in> set (pending_dirty ?m)" if "in_table p i" "r_dirty (p_heap p i)" for i
    using booksD(6) [OF assms that] that by (simp add: pending_dirty_def in_table_def)
  show ?thesis
  proof (rule booksI)
    show "removals_ok ?c (pool_removals q now k p)"
      using inv distinct_removals rem(1) by (simp add: removals_ok_def t)
    fix i
    show "r_removing (p_heap ?c i)" if "i \<in> fst ` set (pool_removals q now k p)"
      using that by (simp add: heap removing_marked)
    show "i \<in> fst ` set (pool_removals q now k p)" if "in_table ?c i" "r_removing (p_heap ?c i)"
      using that none by (simp add: t heap removing_marked)
    show "i \<in> set (p_dirty ?c) \<union> set (pool_written q now k p)" if "in_table ?c i" "r_dirty (p_heap ?c i)"
    proof -
      have "i \<in> set (pending_dirty ?m)" using that d unfolding t heap by simp
      then show ?thesis by (simp add: pool_collected_def pool_written_def Let_def)
    qed
    show "in_table ?c i \<and> r_dirty (p_heap ?c i) \<and> \<not> r_removing (p_heap ?c i)"
      if "i \<in> set (pool_written q now k p)"
      using that unfolding t heap by (simp add: pool_written_def Let_def pending_dirty_def in_table_def)
    show "\<not> r_dirty (p_heap ?c i) \<and>
        (i \<in> fst ` set (pool_removals q now k p) \<longrightarrow> unused ?c (pool_removals q now k p) i)"
      if "in_table ?c i" "held (p_heap ?c i)"
      using that booksD(8) [OF assms, of i] unfolding t heap unused_def
      by (auto simp: held_def pool_removals_iff)
  qed
qed

lemma books_saved:
  assumes "books p (changes_of k (j_written j)) (changes_of k (j_removals j))"
  shows "books (pool_saved j k p) [] []"
    and "rec_at (pool_saved j k p) o' = (case rec_at p o' of None \<Rightarrow> None
      | Some i \<Rightarrow> if unused p (changes_of k (j_removals j)) i then None else Some i)"
proof -
  let ?ws = "changes_of k (j_written j)" and ?rs = "changes_of k (j_removals j)"
  let ?m = "(mark_saved ?ws p)\<lparr>p_forgotten := []\<rparr>" and ?q = "pool_saved j k p"
  have tm: "in_table ?m i = in_table p i" for i by (simp add: in_table_def)
  have ok: "removals_ok ?m ?rs" using booksD(1) [OF assms] by (simp add: removals_ok_def tm)
  have um: "unused ?m ?rs i = unused p ?rs i" for i by (simp add: unused_def)
  have r: "rec_at ?q x = (case rec_at p x of None \<Rightarrow> None | Some i \<Rightarrow> if unused p ?rs i then None else Some i)" for x
    using remove_all_saved_lookup [OF ok, of x] by (cases "rec_at p x") (simp_all add: pool_saved_def um)
  then show "rec_at ?q o' = (case rec_at p o' of None \<Rightarrow> None | Some i \<Rightarrow> if unused p ?rs i then None else Some i)" .
  have h: "p_heap ?q i = (if i \<in> fst ` set ?rs then (p_heap ?m i)\<lparr>r_removing := False,
         r_dirty := r_dirty (p_heap ?m i) \<or> \<not> unused p ?rs i\<rparr> else p_heap ?m i)" for i
    using remove_all_saved_heap [OF ok, of i] by (simp only: pool_saved_def take_reserve_fields um)
  have off: "r_offset (p_heap ?q i) = r_offset (p_heap p i)" for i by (simp add: h)
  have tq: "in_table ?q i \<longleftrightarrow> in_table p i \<and> \<not> unused p ?rs i" for i
    unfolding in_table_def off r by (auto split: option.split)
  have dq: "set (p_dirty ?q) = set (p_dirty p) \<union> {i \<in> fst ` set ?rs. \<not> unused p ?rs i \<and> \<not> r_dirty (p_heap ?m i)}"
    using remove_all_saved_dirty [OF ok] by (simp add: pool_saved_def um)
  have inv: "pool_inv ?q"
    using booksD(2) [OF assms] by (simp add: pool_saved_def pool_inv_remove_all_saved)
  show "books ?q [] []"
  proof (rule booksI)
    show "removals_ok ?q []" using inv by (simp add: removals_ok_def)
    fix i assume i: "in_table ?q i"
    show "r_removing (p_heap ?q i) \<Longrightarrow> i \<in> fst ` set ([] :: (rid \<times> u64) list)"
      using i booksD(5) [OF assms, of i] by (auto simp: h tq split: if_splits)
    assume d: "r_dirty (p_heap ?q i)"
    show "i \<in> set (p_dirty ?q) \<union> set []"
    proof (cases "i \<in> set (p_dirty ?q)")
      case False
      then have i': "i \<notin> set (p_dirty p)" "i \<in> fst ` set ?rs \<Longrightarrow> r_dirty (p_heap ?m i)"
        using i unfolding dq tq by auto
      then have "r_dirty (p_heap p i) \<and> i \<notin> set ?ws" using d unfolding h by (auto split: if_splits)
      then show ?thesis using booksD(6) [OF assms, of i] i i'(1) by (simp add: tq)
    qed simp
  next
    fix i assume "in_table ?q i" "held (p_heap ?q i)"
    then show "\<not> r_dirty (p_heap ?q i) \<and>
        (i \<in> fst ` set ([] :: (rid \<times> u64) list) \<longrightarrow> unused ?q ([] :: (rid \<times> u64) list) i)"
      using booksD(8,9) [OF assms, of i] by (auto simp: tq h held_def split: if_splits)
  qed simp_all
qed

lemma books_failed:
  assumes "books p (changes_of k (j_written j)) (changes_of k (j_removals j))"
  shows "books (pool_failed j k p) [] []"
proof -
  let ?ws = "changes_of k (j_written j)" and ?rs = "changes_of k (j_removals j)"
  let ?m = "unmark ?rs (p\<lparr>p_dirty := p_dirty p @ ?ws\<rparr>)"
  have tm: "in_table ?m i = in_table p i" for i by (simp add: in_table_def)
  have ok: "removals_ok ?m ?rs" using booksD(1) [OF assms] by (simp add: removals_ok_def tm)
  have tf: "in_table (forget_all ?rs ?m) i \<Longrightarrow> in_table p i" for i
    using forget_all_lookup [OF ok] by (auto simp: in_table_def split: option.splits if_splits)
  have b: "books q [] []" if q: "pool_inv q" "\<And>i. in_table q i \<Longrightarrow> in_table p i" "p_heap q = p_heap ?m"
    "p_dirty q = p_dirty p @ ?ws" for q
  proof (rule booksI)
    show "removals_ok q []" using q(1) by (simp add: removals_ok_def)
    fix i assume i: "in_table q i"
    show "r_removing (p_heap q i) \<Longrightarrow> i \<in> fst ` set ([] :: (rid \<times> u64) list)"
      using booksD(5) [OF assms q(2) [OF i]] by (auto simp: q(3) split: if_splits)
    show "r_dirty (p_heap q i) \<Longrightarrow> i \<in> set (p_dirty q) \<union> set []"
      using booksD(6) [OF assms q(2) [OF i]] by (auto simp: q(3,4) split: if_splits)
    show "held (p_heap q i) \<Longrightarrow> \<not> r_dirty (p_heap q i) \<and>
        (i \<in> fst ` set ([] :: (rid \<times> u64) list) \<longrightarrow> unused q ([] :: (rid \<times> u64) list) i)"
      using booksD(8) [OF assms q(2) [OF i]] by (auto simp: q(3) held_def split: if_splits)
  qed simp_all
  have inv: "pool_inv ?m" using booksD(2) [OF assms] by simp
  have "books ?m [] []" using inv by (intro b) (simp_all add: tm)
  moreover have "books (forget_all ?rs ?m) [] []"
    using inv by (intro b pool_inv_forget_all) (simp_all add: tf)
  ultimately show ?thesis unfolding pool_failed_def Let_def by simp
qed

lemma resave_fields:
  "p_byOffset (resave_pool p) = p_byOffset p" "p_byName (resave_pool p) = p_byName p"
  "p_heap (resave_pool p) i =
     (if i \<in> snd ` set (p_byOffset p) \<and> \<not> held (p_heap p i) then (p_heap p i)\<lparr>r_dirty := True\<rparr> else p_heap p i)"
  "p_expired (resave_pool p) = p_expired p" "p_forgotten (resave_pool p) = []"
  "p_next (resave_pool p) = p_next p" "p_budget (resave_pool p) = 0" "p_reserved (resave_pool p) = False"
  "p_step (resave_pool p) = p_step p" "p_advanced (resave_pool p) = p_advanced p"
  "address (resave_pool p) = address p" "usable (resave_pool p) = usable p" "ahead (resave_pool p) = ahead p"
  "full (resave_pool p) = full p" "p_max (resave_pool p) = p_max p" "p_fresh (resave_pool p) = p_fresh p"
  "p_dirty (resave_pool p) = filter (\<lambda>i. \<not> held (p_heap p i)) (map snd (p_byOffset p))"
proof -
  let ?f = "fold (\<lambda>i. upd_rec i (\<lambda>r. r\<lparr>r_dirty := True\<rparr>))"
  have f: "p_byOffset (?f is q) = p_byOffset q" "p_byName (?f is q) = p_byName q"
    "p_heap (?f is q) i = (if i \<in> set is then (p_heap q i)\<lparr>r_dirty := True\<rparr> else p_heap q i)"
    "p_expired (?f is q) = p_expired q" "p_next (?f is q) = p_next q" "p_step (?f is q) = p_step q"
    "p_advanced (?f is q) = p_advanced q" "address (?f is q) = address q" "usable (?f is q) = usable q"
    "ahead (?f is q) = ahead q" "p_max (?f is q) = p_max q" "p_fresh (?f is q) = p_fresh q" for "is" q i
    by (induction "is" arbitrary: q) simp_all
  show "p_byOffset (resave_pool p) = p_byOffset p" "p_byName (resave_pool p) = p_byName p"
    "p_heap (resave_pool p) i =
     (if i \<in> snd ` set (p_byOffset p) \<and> \<not> held (p_heap p i) then (p_heap p i)\<lparr>r_dirty := True\<rparr> else p_heap p i)"
    "p_expired (resave_pool p) = p_expired p" "p_forgotten (resave_pool p) = []"
    "p_next (resave_pool p) = p_next p" "p_budget (resave_pool p) = 0" "p_reserved (resave_pool p) = False"
    "p_step (resave_pool p) = p_step p" "p_advanced (resave_pool p) = p_advanced p"
    "address (resave_pool p) = address p" "usable (resave_pool p) = usable p" "ahead (resave_pool p) = ahead p"
    "full (resave_pool p) = full p" "p_max (resave_pool p) = p_max p" "p_fresh (resave_pool p) = p_fresh p"
    "p_dirty (resave_pool p) = filter (\<lambda>i. \<not> held (p_heap p i)) (map snd (p_byOffset p))"
    by (simp_all add: resave_pool_def Let_def f full_def)
qed

lemma books_resave:
  assumes "books p [] []"
  shows "books (resave_pool p) [] []"
proof -
  have inv: "pool_inv p" using booksD(2) [OF assms] .
  have t: "in_table (resave_pool p) i = in_table p i" for i by (simp add: in_table_def resave_fields)
  have e: "i \<in> snd ` set (p_byOffset p)" if "in_table p i" for i
    using that by (force simp: in_table_def dest: map_of_SomeD)
  show ?thesis
  proof (rule booksI)
    show "removals_ok (resave_pool p) []" using pool_inv_resave [OF inv] by (simp add: removals_ok_def)
    fix i assume i: "in_table (resave_pool p) i"
    show "r_removing (p_heap (resave_pool p) i) \<Longrightarrow> i \<in> fst ` set ([] :: (rid \<times> u64) list)"
      using booksD(5) [OF assms, of i] i by (auto simp: t resave_fields split: if_splits)
    show "r_dirty (p_heap (resave_pool p) i) \<Longrightarrow> i \<in> set (p_dirty (resave_pool p)) \<union> set []"
      using booksD(8) [OF assms, of i] i e by (auto simp: t resave_fields split: if_splits)
    show "held (p_heap (resave_pool p) i) \<Longrightarrow> \<not> r_dirty (p_heap (resave_pool p) i) \<and>
        (i \<in> fst ` set ([] :: (rid \<times> u64) list) \<longrightarrow> unused (resave_pool p) ([] :: (rid \<times> u64) list) i)"
      using booksD(8) [OF assms, of i] i by (auto simp: t resave_fields held_def split: if_splits)
  qed simp_all
qed

text \<open>Steps outside a save.\<close>

lemma books_touch:
  assumes "books p ws rs" "in_table p i" "\<not> held (p_heap p i)"
  shows "books (upd_rec i (\<lambda>r. r\<lparr>r_lastUse := u\<rparr>) p) ws rs"
proof -
  let ?q = "upd_rec i (\<lambda>r. r\<lparr>r_lastUse := u\<rparr>) p"
  have t: "in_table ?q j = in_table p j" for j by (simp add: in_table_def)
  have h: "r_removing (p_heap ?q j) = r_removing (p_heap p j)" "r_dirty (p_heap ?q j) = r_dirty (p_heap p j)"
    "held (p_heap ?q j) = held (p_heap p j)" "held (p_heap p j) \<Longrightarrow> unused ?q rs j = unused p rs j" for j
    using assms(3) by (auto simp: held_def unused_def)
  have r: "removals_ok ?q rs" using booksD(1) [OF assms(1)] by (simp add: removals_ok_def t pool_inv_upd_rec)
  have d: "p_dirty ?q = p_dirty p" by simp
  show ?thesis unfolding books_def t h(1-3) d
    using assms(1) r h(4) unfolding books_def by auto
qed

lemma books_frame:
  assumes "books p ws rs" "pool_inv q" "p_byOffset q = p_byOffset p" "p_heap q = p_heap p"
    "set (p_dirty p) \<subseteq> set (p_dirty q)"
  shows "books q ws rs"
proof -
  have t: "in_table q i = in_table p i" "unused q rs i = unused p rs i" for i
    by (simp_all add: in_table_def unused_def assms)
  have "removals_ok q rs" using booksD(1) [OF assms(1)] by (simp add: removals_ok_def t assms(2))
  then show ?thesis using assms(1,5) unfolding books_def t assms(4) by blast
qed

lemma books_put:
  assumes "books p ws rs" "in_ring p (r_offset r)" "rec_at p (r_offset r) = None"
    "\<not> held r" "\<not> r_removing r"
    "pool_inv q" "p_byOffset q = p_byOffset (put_rec r p)" "p_heap q = p_heap (put_rec r p)"
    "set (p_dirty p) \<union> (if r_dirty r then {p_fresh p} else {}) \<subseteq> set (p_dirty q)"
  shows "books q ws rs"
proof -
  have inv: "pool_inv p" using booksD(2) [OF assms(1)] .
  have fresh: "i \<noteq> p_fresh p" if "in_table p i" for i
    using that pool_inv_rec(3) [OF inv] by (auto simp: in_table_def)
  have old: "p_heap q i = p_heap p i" if "i \<noteq> p_fresh p" for i using that by (simp add: assms(8))
  have new: "p_heap q (p_fresh p) = r" by (simp add: assms(8))
  have t: "in_table q i \<longleftrightarrow> in_table p i \<or> i = p_fresh p" for i
  proof (cases "i = p_fresh p")
    case True then show ?thesis by (simp add: in_table_def assms(7,8))
  next
    case False then show ?thesis using assms(3) by (auto simp: in_table_def assms(7) old)
  qed
  have un: "unused q rs i = unused p rs i" if "in_table p i" for i
    using old [OF fresh [OF that]] by (simp add: unused_def)
  have rs: "i \<in> fst ` set rs \<Longrightarrow> in_table p i" for i using booksD(4) [OF assms(1)] .
  show ?thesis
  proof (rule booksI)
    show "removals_ok q rs" using booksD(1) [OF assms(1)] assms(6) by (auto simp: removals_ok_def t)
    fix i
    show "i \<in> fst ` set rs \<Longrightarrow> r_removing (p_heap q i)"
      using rs booksD(3) [OF assms(1)] old fresh by auto
    show "in_table q i \<Longrightarrow> r_removing (p_heap q i) \<Longrightarrow> i \<in> fst ` set rs"
      using booksD(5) [OF assms(1)] old fresh new assms(5) by (auto simp: t)
    show "in_table q i \<Longrightarrow> r_dirty (p_heap q i) \<Longrightarrow> i \<in> set (p_dirty q) \<union> set ws"
      using booksD(6) [OF assms(1), of i] old [of i] fresh [of i] new assms(9)
      by (auto simp: t split: if_splits)
    show "i \<in> set ws \<Longrightarrow> in_table q i \<and> r_dirty (p_heap q i) \<and> \<not> r_removing (p_heap q i)"
      using booksD(7) [OF assms(1), of i] old fresh by (auto simp: t)
    show "in_table q i \<Longrightarrow> held (p_heap q i) \<Longrightarrow> \<not> r_dirty (p_heap q i) \<and> (i \<in> fst ` set rs \<longrightarrow> unused q rs i)"
      using booksD(8,9) [OF assms(1), of i] old [of i] fresh [of i] new assms(4) un [of i]
      unfolding t by (cases "i = p_fresh p") simp_all
  qed
qed

lemma books_remove:
  assumes "books p [] []" "in_table p i"
  shows "books (pool_remove i p) [] []"
proof -
  have "pool_inv (pool_remove i p)"
    using booksD(2) [OF assms(1)] assms(2) by (intro pool_inv_pool_remove) (simp_all add: in_table_def)
  moreover have "in_table (pool_remove i p) j \<Longrightarrow> in_table p j" for j
    by (auto simp: in_table_def split: if_splits)
  ultimately show ?thesis using assms(1) unfolding books_def removals_ok_def by auto
qed

lemma books_empty: "pool_inv p \<Longrightarrow> p_byOffset p = [] \<Longrightarrow> books p [] []"
  by (simp add: books_def removals_ok_def in_table_def)

end
