(* ===== verification/FakeIP_Books.thy ===== *)
theory FakeIP_Books
  imports FakeIP_Save
begin

text \<open>
  The books are kept in every state the store reaches, whatever the callers do while a save or a
  reset is under way. So once nothing is pending every record is in the storage
  (\<open>FakeIP_Durable\<close> adds the storage to the picture).
\<close>

section \<open>Books of a store\<close>

fun job_written :: "holder \<Rightarrow> pid \<Rightarrow> rid list" where
  "job_written (Saving j) k = changes_of k (j_written j)"
| "job_written (Written j _) k = changes_of k (j_written j)"
| "job_written _ k = []"

fun job_removals :: "holder \<Rightarrow> pid \<Rightarrow> (rid \<times> u64) list" where
  "job_removals (Saving j) k = changes_of k (j_removals j)"
| "job_removals (Written j _) k = changes_of k (j_removals j)"
| "job_removals _ k = []"

definition store_books :: "store \<Rightarrow> holder \<Rightarrow> bool" where
  "store_books s h \<longleftrightarrow> (\<forall>k p. pool_at s k = Some p \<longrightarrow> books p (job_written h k) (job_removals h k))"

lemma store_booksD: "store_books s h \<Longrightarrow> pool_at s k = Some p \<Longrightarrow> books p (job_written h k) (job_removals h k)"
  by (simp add: store_books_def)

lemma store_books_fields [simp]:
  "store_books (s\<lparr>s_uses := v1\<rparr>) h = store_books s h" "store_books (s\<lparr>s_closed := v2\<rparr>) h = store_books s h"
  "store_books (s\<lparr>s_generation := v3\<rparr>) h = store_books s h"
  "store_books (s\<lparr>s_storageFailed := v4\<rparr>) h = store_books s h"
  "store_books (s\<lparr>s_wake := v5\<rparr>) h = store_books s h" "store_books (s\<lparr>s_storage := v6\<rparr>) h = store_books s h"
  by (simp_all add: store_books_def)

lemma store_books_on_pool:
  assumes "store_books s h"
    "\<And>p. pool_at s k = Some p \<Longrightarrow> books p (job_written h k) (job_removals h k) \<Longrightarrow>
       books (f p) (job_written h k) (job_removals h k)"
  shows "store_books (on_pool k f s) h"
  using assms by (auto simp: store_books_def)

lemma store_books_touch:
  assumes "store_books s h" "pool_at s k = Some p" "in_table p i" "\<not> held (p_heap p i)"
  shows "store_books (touch now k i s) h"
  unfolding touch_alt using assms by (intro store_books_on_pool) (auto simp: books_touch)

lemma known_in_table:
  assumes "store_books s h" "pool_at s k = Some p" "p_byName p d = Some i"
  shows "in_table p i" "\<not> held (p_heap p i)"
proof -
  have "pool_inv p" using booksD(2) [OF store_booksD [OF assms(1,2)]] .
  note n = pool_inv_name [OF this assms(3)]
  show "in_table p i" "\<not> held (p_heap p i)" using n by (simp_all add: in_table_def held_def)
qed

lemma store_books_find_domain: "store_books s h \<Longrightarrow> store_books (fst (find_domain now k d s)) h"
  using known_in_table [of s h] by (auto simp: find_domain_def intro: store_books_touch split: option.split)

lemma store_books_Lookup:
  assumes "store_books s h"
  shows "store_books (fst (Lookup now a s)) h"
proof -
  have "in_table p i" if "pool_at s k = Some p" "rec_at p o' = Some i" for k p o' i
    using booksD(2) [OF store_booksD [OF assms that(1)]] that(2) by (rule in_tableI)
  then show ?thesis using assms
    by (auto simp: Lookup_def intro: store_books_touch split: option.split)
qed

lemma store_books_give_out:
  assumes "store_books s h" "pool_at s k = Some p" "d \<noteq> []" "in_ring p off" "rec_at p off = None"
    and inv: "store_inv (give_out now k d off ((alloc_step b ^^ n) p) s)"
  shows "store_books (give_out now k d off ((alloc_step b ^^ n) p) s) h"
  unfolding store_books_def
proof (intro allI impI)
  fix k' q assume q: "pool_at (give_out now k d off ((alloc_step b ^^ n) p) s) k' = Some q"
  show "books q (job_written h k') (job_removals h k')"
  proof (cases "k' = k")
    case True
    define r where "r = \<lparr>r_domain = d, r_offset = off, r_lastUse = snd (stamp now s), r_dirty = s_storage s,
      r_removing = False\<rparr>"
    have pq: "pool_inv q" using inv q by (rule store_invD)
    have q': "q = (let p2 = (put_rec r ((alloc_step b ^^ n) p))\<lparr>p_byName := (p_byName p)(d \<mapsto> p_fresh p)\<rparr> in
        if s_storage s then p2\<lparr>p_dirty := p_dirty p @ [p_fresh p]\<rparr> else p2)"
      using q unfolding True give_out_pool by (cases "s_storage s") (simp_all add: r_def Let_def)
    have e: "p_byOffset q = p_byOffset (put_rec r p)" "p_heap q = p_heap (put_rec r p)"
      "set (p_dirty p) \<union> (if r_dirty r then {p_fresh p} else {}) \<subseteq> set (p_dirty q)"
      unfolding q' by (auto simp: Let_def r_def)
    have r: "in_ring p (r_offset r)" "rec_at p (r_offset r) = None" "\<not> held r" "\<not> r_removing r"
      using assms(3-5) by (simp_all add: r_def held_def)
    show ?thesis unfolding True
      by (rule books_put [OF store_booksD [OF assms(1,2)] r pq e])
  next
    case False
    then show ?thesis using q store_booksD [OF assms(1)] by (simp add: give_out_other)
  qed
qed

lemma store_books_inv: "store_books s h \<Longrightarrow> store_inv s"
  using booksD(2) store_booksD by (blast intro: store_invI)

lemma store_books_allocate:
  assumes "store_books s h" "d \<noteq> []" "allocate now gen k d s = Some (s', r)"
  shows "store_books s' h"
proof (cases "pool_at s k")
  case None then show ?thesis using assms by (auto simp: allocate_def)
next
  case (Some p)
  have inv: "store_inv s" using assms(1) by (rule store_books_inv)
  obtain need res where r: "r = (need, res)" by (cases r)
  have s': "store_inv s'" using store_inv_allocate [OF inv assms(2)] assms(3) by (simp add: r)
  from Some show ?thesis
  proof (rule allocate_cases [OF inv, of k p d now gen], goal_cases)
    case (1 i)
    then show ?case using assms(1,3) Some known_in_table [OF assms(1) Some 1(1)]
      by (auto intro: store_books_touch)
  next
    case (5 n)
    have "books ((alloc_step (s_storage s) ^^ n) p) (job_written h k) (job_removals h k)"
      by (rule books_frame [OF store_booksD [OF assms(1) Some]])
        (simp_all add: pool_inv_alloc_step store_invD [OF inv Some])
    then show ?case using 5 assms(1,3) by (auto simp: store_books_def)
  next
    case (6 n)
    then show ?case using s' assms store_books_give_out [OF assms(1) Some assms(2)] by auto
  qed (use assms in auto)
qed

lemma store_books_release:
  assumes "store_books s Free" "pool_at s k = Some p" "in_table p i"
  shows "store_books (release k i s) Free"
  unfolding release_def using assms by (intro store_books_on_pool) (auto intro: books_remove)

lemma store_books_release_unused: "store_books s Free \<Longrightarrow> store_books (release_unused c s) Free"
  by (auto simp: release_unused_def in_table_def intro: store_books_release split: option.split prod.split)

lemma store_books_makeRoom:
  assumes "store_books s Free"
  shows "store_books (makeRoom_memory now k s) Free"
proof (cases "pool_at s k")
  case (Some p)
  have inv: "pool_inv p" using booksD(2) [OF store_booksD [OF assms Some]] .
  have "store_books (fold (\<lambda>(i, _). release k i) cs t) Free"
    if "store_books t Free" "pool_at t k = Some q" "distinct (map fst cs)" "\<forall>(i, u) \<in> set cs. in_table q i"
    for cs t q using that
  proof (induction cs arbitrary: t q)
    case (Cons c cs)
    obtain i u where c: "c = (i, u)" by (cases c)
    have i: "in_table q i" using Cons.prems(4) by (simp add: c)
    have "in_table (pool_remove i q) j" if j: "(j, v) \<in> set cs" for j v
    proof -
      have "in_table q j" "j \<noteq> i" using Cons.prems(3,4) j by (auto simp: c) (force simp: c)
      then show ?thesis using i by (auto simp: in_table_def)
    qed
    then have "store_books (fold (\<lambda>(i, _). release k i) cs (release k i t)) Free"
      using Cons.prems(2,3) store_books_release [OF Cons.prems(1,2) i]
      by (intro Cons.IH [of _ "pool_remove i q"]) (auto simp: c release_def)
    then show ?case by (simp add: c)
  qed simp
  note all = this
  have "in_table p i" if "(i, u) \<in> set (oldest p (room p) 0 now)" for i u
    using oldest_in_table(1) [OF that] pool_inv_entry(1) [OF inv] in_tableI [OF inv] by blast
  then have "store_books (fold (\<lambda>(i, _). release k i) (oldest p (room p) 0 now) s) Free"
    by (intro all [OF assms Some distinct_oldest [OF inv]]) blast
  then show ?thesis using assms Some by (simp add: makeRoom_memory_def)
qed (simp add: makeRoom_memory_def assms)

lemma books_expired: "books p ws rs \<Longrightarrow> books (p\<lparr>p_expired := x\<rparr>) ws rs"
  by (frule booksD(2), rule books_frame) auto

lemma store_books_sweep_apply:
  assumes "store_books s h" "\<not> s_storage s \<longrightarrow> h = Free"
  shows "store_books (sweep_apply found s) h"
proof (cases "s_storage s")
  case True
  have "store_books (fold expire found s) h" using assms(1)
  proof (rule fold_invariant [rotated])
    fix c t assume "store_books t h"
    then show "store_books (expire c t) h"
      unfolding expire_def split_beta
      by (rule store_books_on_pool) (simp add: books_expired)
  qed
  then show ?thesis using True by (simp add: sweep_apply_def)
next
  case False
  then have h: "h = Free" using assms(2) by simp
  have "store_books (fold release_unused found s) Free"
    using assms(1) unfolding h by (rule fold_invariant [rotated]) (rule store_books_release_unused)
  then show ?thesis using False by (simp add: sweep_apply_def h)
qed

lemma store_books_save_generation: "store_books s Free \<Longrightarrow> store_books (save_generation gen s) Free"
  by (auto simp: save_generation_def store_books_def pool_at_all_pools books_resave split: if_splits)

lemma store_books_job_of: "store_books s Free \<Longrightarrow> store_books (fst (job_of q now s)) (Saving (snd (job_of q now s)))"
  by (auto simp: store_books_def job_of_pools job_of_changes books_collected)

lemma store_books_save_commit:
  "store_books s (Written j ok) \<Longrightarrow> store_books (save_commit ok j s) Free"
  by (auto simp: store_books_def pool_at_save_commit books_saved(1) books_failed)

lemma store_books_nothing:
  assumes "store_books s Free" "j_puts (snd (job_of q now s)) = []" "j_deletes (snd (job_of q now s)) = []"
    "\<not> j_changed (snd (job_of q now s))"
  shows "store_books (fst (job_of q now s)) Free"
  unfolding store_books_def
proof (intro allI impI)
  fix k p' assume "pool_at (fst (job_of q now s)) k = Some p'"
  then obtain p where p: "pool_at s k = Some p" "p' = pool_collected q now k p"
    by (auto simp: job_of_pools)
  have "books p [] []" using store_booksD [OF assms(1) p(1)] by simp
  from books_collected [OF this, of q now k] show "books p' (job_written Free k) (job_removals Free k)"
    using job_of_nothing(1,2) [OF assms(2-4) p(1)] by (simp add: p(2))
qed

lemma store_books_reset_pools: "store_books s Free \<Longrightarrow> store_books (reset_pools s) Free"
proof -
  assume s: "store_books s Free"
  have "books (reset_pool p) [] []" if "books p [] []" for p
    using pool_inv_reset [OF booksD(2) [OF that]] by (rule books_empty) (simp add: reset_pool_def)
  with s show ?thesis by (auto simp: store_books_def reset_pools_def pool_at_all_pools split: if_splits)
qed

lemma store_books_save_collect:
  assumes "store_books s Free" "save_collect gen q now s = (s', r)"
  shows "store_books s' (case r of SaveWrite j \<Rightarrow> Saving j | _ \<Rightarrow> Free)"
proof -
  have g: "store_books (save_generation gen s) Free" using assms(1) by (rule store_books_save_generation)
  show ?thesis
    using assms g store_books_job_of [OF g, of q now] store_books_nothing [OF g, of q now]
    by (auto simp: save_collect_alt Let_def split: if_splits)
qed

section \<open>Every state\<close>

text \<open>A store without a storage never saves, so nobody holds \<open>saveAccess\<close> for longer than a step.\<close>

definition conf_books :: "conf \<Rightarrow> bool" where
  "conf_books f \<longleftrightarrow> store_books (f_store f) (f_holder f) \<and> (\<not> s_storage (f_store f) \<longrightarrow> f_holder f = Free)"

lemma s_storage_ops [simp]:
  "s_storage (touch now k i s) = s_storage s"
  "s_storage (fst (find_domain now k d s)) = s_storage s"
  "s_storage (fst (Lookup now a s)) = s_storage s"
  "s_storage (reset_pools s) = s_storage s" "s_storage (close_store s) = s_storage s"
  "s_storage (save_generation gen s) = s_storage s"
  "s_storage (fst (save_collect gen q now s)) = s_storage s"
proof -
  have f: "s_storage (fold (\<lambda>k. on_pool k (g k)) ks t) = s_storage t" for g ks t
    by (rule fold_on_pool_fields) simp
  show t: "s_storage (touch now k i s) = s_storage s" by (simp add: touch_alt)
  show "s_storage (fst (find_domain now k d s)) = s_storage s"
    by (simp add: find_domain_def touch_alt split: option.split)
  show "s_storage (fst (Lookup now a s)) = s_storage s"
    by (simp add: Lookup_def touch_alt split: option.split)
  show "s_storage (reset_pools s) = s_storage s" "s_storage (close_store s) = s_storage s"
    by (simp_all add: reset_pools_def f close_store_def)
  show "s_storage (save_generation gen s) = s_storage s" for s by (simp add: save_generation_def f)
  then show "s_storage (fst (save_collect gen q now s)) = s_storage s"
    by (simp add: save_collect_alt Let_def)
qed

lemma s_storage_sweep [simp]:
  "s_storage (sweep_apply found s) = s_storage s" "s_storage (makeRoom_memory now k s) = s_storage s"
proof -
  have "s_storage (expire c t) = s_storage t" "s_storage (release_unused c t) = s_storage t"
    "s_storage (release k i t) = s_storage t" for c t k i
    by (simp_all add: expire_def release_unused_def release_def split: prod.split option.split)
  note r = this
  show "s_storage (sweep_apply found s) = s_storage s"
    by (simp add: sweep_apply_def fold_on_pool_fields [where f = s_storage, OF r(1)]
        fold_on_pool_fields [where f = s_storage, OF r(2)])
  have "s_storage (fold (\<lambda>(i, _). release k i) cs s) = s_storage s" for cs :: "(rid \<times> u64) list"
    by (rule fold_on_pool_fields) (simp add: r split_beta)
  then show "s_storage (makeRoom_memory now k s) = s_storage s"
    by (simp add: makeRoom_memory_def split: option.split)
qed

lemma s_storage_allocate:
  assumes "store_inv s" "allocate now gen k d s = Some (s', r)"
  shows "s_storage s' = s_storage s"
proof (cases "pool_at s k")
  case None then show ?thesis using assms by (auto simp: allocate_def)
next
  case (Some p)
  then show ?thesis
    by (rule allocate_cases [OF assms(1), of k p d now gen])
      (use assms(2) in \<open>auto simp: give_out_def Let_def split_beta signal_def\<close>)
qed

lemma step_books:
  assumes "step f g" "conf_books f"
  shows "conf_books g"
  using assms
proof (induction rule: step.induct)
  case (Query f now k d)
  then show ?case by (simp add: conf_books_def store_books_find_domain)
next
  case (Allocate d now f k s' r)
  then show ?case
    using store_books_allocate [of "f_store f" "f_holder f" "to_lower d"] s_storage_allocate store_books_inv
    by (simp add: conf_books_def to_lower_Nil_iff) blast
next
  case (Room f now k)
  then have "f_holder f = Free" "store_books (f_store f) Free" by (auto simp: conf_books_def)
  then show ?case by (simp add: conf_books_def store_books_makeRoom)
next
  case (Connection f now a)
  then show ?case by (simp add: conf_books_def store_books_Lookup)
next
  case (Collect f gen q now s' j)
  have "s_storage s'" using Collect(5) by (auto simp: save_collect_alt Let_def split: if_splits)
  then show ?case
    using Collect store_books_save_collect [of "f_store f" gen q now s' "SaveWrite j"]
    by (simp add: conf_books_def)
next
  case (Nothing f gen q now s' r)
  then have "store_books s' Free"
    using store_books_save_collect [of "f_store f" gen q now s' r] by (auto simp: conf_books_def)
  then show ?case using Nothing(1) by (simp add: conf_books_def)
next
  case (Write f j t c' ok)
  then show ?case by (auto simp: conf_books_def store_books_def)
next
  case (Committed f j ok)
  then show ?case using store_books_save_commit by (simp add: conf_books_def)
next
  case (Sweep f now)
  then show ?case by (simp add: conf_books_def)
next
  case (Swept f)
  then show ?case by (simp add: conf_books_def store_books_sweep_apply)
next
  case (ResetFile f t c' ok)
  then show ?case by (auto simp: conf_books_def store_books_def)
next
  case (ResetMemory f)
  then have "store_books (f_store f) Free" by (auto simp: conf_books_def store_books_def)
  then show ?case by (simp add: conf_books_def store_books_reset_pools)
next
  case (Damage f reopened)
  then show ?case by (simp add: conf_books_def)
next
  case (Closing f)
  then show ?case by (simp add: conf_books_def close_store_def)
qed

text \<open>What is loaded is in the storage already.\<close>

definition pristine :: "pool \<Rightarrow> bool" where
  "pristine p \<longleftrightarrow> (\<forall>i. \<not> r_dirty (p_heap p i) \<and> \<not> r_removing (p_heap p i))"

lemma pristine_books: "pool_inv p \<Longrightarrow> pristine p \<Longrightarrow> books p [] []"
  by (simp add: pristine_def books_def removals_ok_def)

lemma pristine_ops:
  "pristine p \<Longrightarrow> \<not> r_dirty r \<Longrightarrow> \<not> r_removing r \<Longrightarrow> pristine (put_rec r p)"
  "pristine p \<Longrightarrow> pristine (restore_rec tick i p)" "pristine p \<Longrightarrow> pristine (hold_one l u back p)"
  by (simp_all add: pristine_def restore_rec_def hold_one_def Let_def split: option.split)

lemma pristine_restore_pool: "pristine p \<Longrightarrow> pristine (restore_pool m clean s k p)"
proof -
  assume p: "pristine p"
  have "pristine (fst (restore_next p c))" for c
    using p by (simp add: restore_next_def Let_def pristine_def split: option.split)
  then have r: "pristine (fst (restore p c t))" for c t
    unfolding restore_def split_beta Let_def fst_conv
    by (intro fold_invariant [where P = pristine]) (auto simp: pristine_ops)
  have h: "pristine (hold l u q)" if "pristine q" for l u q
    using that unfolding hold_def
    by (auto intro!: fold_invariant [where P = pristine] pristine_ops)
  show ?thesis using r h by (simp add: restore_pool_def split_beta split: option.split)
qed

lemma pristine_load_record:
  assumes "\<forall>k p. pool_at s k = Some p \<longrightarrow> pristine p" "pool_at (fst (load_record s a d)) k = Some p"
  shows "pristine p"
  using assms by (cases rule: load_record_cases [of s a d]) (auto simp: pristine_ops split: if_splits)

lemma pristine_NewStore: "pool_at (NewStore r4 r6) k = Some p \<Longrightarrow> pristine p"
proof -
  have "p_heap (newPool pre) = (\<lambda>_. blank_rec)" for pre by (simp add: newPool_def Let_def)
  then show "pool_at (NewStore r4 r6) k = Some p \<Longrightarrow> pristine p"
    by (auto simp: NewStore_pool pristine_def blank_rec_def)
qed

lemma started_books: "started f \<Longrightarrow> conf_books f"
proof -
  assume f: "started f"
  then have ok: "store_inv (f_store f)" using started_ok store_ok_inv by blast
  have "\<forall>k p. pool_at (f_store f) k = Some p \<longrightarrow> pristine p" using f
  proof (induction rule: started.induct)
    case (Loaded r4 r6 c t1 nread t2 y)
    let ?s1 = "(NewStore r4 r6)\<lparr>s_storage := True, s_generation := FakeIPGeneration c\<rparr>"
    obtain c' s2 m clean ok where l: "FakeIPLoadTable t1 nread t2 load_record ?s1 c = (c', s2, m, clean, ok)"
      by (cases "FakeIPLoadTable t1 nread t2 load_record ?s1 c")
    have "\<forall>k p. pool_at s2 k = Some p \<longrightarrow> pristine p"
      using l by (rule FakeIPLoadTable_invariant [rotated 2])
        (auto simp: pristine_NewStore dest: pristine_load_record)
    then show ?case using Loaded(5) l
      by (auto simp: load_table_def restore_pools_def pool_at_all_pools pristine_restore_pool split: if_splits)
  next
    case (Memory r4 r6 c)
    then show ?case by (simp add: pristine_NewStore)
  qed
  moreover have "f_holder f = Free" using f by (induction rule: started.induct) simp_all
  ultimately show ?thesis
    using ok by (auto simp: conf_books_def store_books_def pristine_books store_inv_def)
qed

lemma reachable_books: "reachable f \<Longrightarrow> conf_books f"
  by (induction rule: reachable.induct) (simp_all add: started_books step_books)

end
