(* ===== verification/FakeIP_Live.thy ===== *)
theory FakeIP_Live
  imports FakeIP_Books
begin

text \<open>
  \<open>Create\<close> comes back. Its loop has no bound in the code: it goes on while the range is full,
  while the saved reserve is used up and while the cache file keeps being recreated. Every round
  gets something done, whether the storage can be written or not, as long as the file is not found
  damaged again and again without end.
\<close>

section \<open>What a save leaves of a range\<close>

text \<open>No record appears, the position stays, and the place of the range is the same.\<close>

definition shrinks :: "pool \<Rightarrow> pool \<Rightarrow> bool" where
  "shrinks p q \<longleftrightarrow> (\<forall>o'. rec_at p o' = None \<longrightarrow> rec_at q o' = None) \<and> p_next q = p_next p \<and>
     length (p_byOffset q) \<le> length (p_byOffset p) \<and> after q = after p \<and> p_step q = p_step p \<and>
     p_max q = p_max p"

lemma shrinks_refl [simp]: "shrinks p p"
  by (simp add: shrinks_def)

lemma shrinks_trans: "shrinks p q \<Longrightarrow> shrinks q r \<Longrightarrow> shrinks p r"
  by (auto simp: shrinks_def)

lemma shrinks_fold: "(\<And>x p. shrinks p (g x p)) \<Longrightarrow> shrinks p (fold g xs p)"
  by (rule fold_invariant [where P = "shrinks p"]) (auto intro: shrinks_trans)

lemma length_delete_le: "length (AList.delete x xs) \<le> length xs"
  by (rule AList.length_delete_le)

lemma shrinks_ops:
  "shrinks p (pool_remove i p)" "shrinks p (upd_rec i f p)" "shrinks p (forget i u p)"
  "shrinks p (remove_saved i u p)" "shrinks p (resave_pool p)"
proof -
  show r: "shrinks p (pool_remove i p)" for p i
    by (simp add: shrinks_def length_delete_le fun_eq_iff after_def) (simp add: pool_remove_def Let_def)
  show u: "shrinks p (upd_rec i f p)" for p i f by (simp add: shrinks_def)
  show "shrinks p (forget i u p)"
    using r [of p i] by (auto simp: forget_def Let_def shrinks_def)
  have m: "p_max (upd_rec i f p) = p_max p" for i f p by simp
  show "shrinks p (remove_saved i u p)"
    using r [of "upd_rec i (\<lambda>r. r\<lparr>r_removing := False\<rparr>) p" i]
    by (auto simp: remove_saved_def Let_def shrinks_def)
  have "shrinks p (fold (\<lambda>i. upd_rec i (\<lambda>r. r\<lparr>r_dirty := True\<rparr>)) xs p)" for xs
    by (rule shrinks_fold) (rule u)
  then show "shrinks p (resave_pool p)" by (simp add: resave_pool_def Let_def shrinks_def)
qed

lemma shrinks_collected: "shrinks p (pool_collected q now k p)"
proof -
  have "p_max (fst (collect_expired q cs p)) = p_max p \<and> after (fst (collect_expired q cs p)) = after p" for cs
    by (induction q cs p rule: collect_expired.induct) (auto simp: Let_def split_beta)
  then show ?thesis
    by (simp add: shrinks_def pool_collected_def Let_def pool_marked_def)
qed

lemma shrinks_saved: "shrinks p (pool_saved j k p)"
proof -
  have t: "shrinks p (take_reserve vs p)" for p vs
    unfolding take_reserve_def by (rule shrinks_fold) (auto simp: shrinks_def)
  have "shrinks p ((mark_saved ws p)\<lparr>p_forgotten := []\<rparr>)" for ws
  proof -
    have "shrinks p (mark_saved ws p)" unfolding mark_saved_def by (rule shrinks_fold) (rule shrinks_ops)
    then show ?thesis by (simp add: shrinks_def)
  qed
  moreover have "shrinks q (remove_all_saved rs q)" for q rs
    unfolding remove_all_saved_def by (rule shrinks_fold) (auto simp: shrinks_ops)
  ultimately show ?thesis unfolding pool_saved_def by (intro shrinks_trans [OF shrinks_trans t])
qed

lemma shrinks_failed: "shrinks p (pool_failed j k p)"
proof -
  have d: "shrinks p (p\<lparr>p_dirty := x\<rparr>)" for x by (simp add: shrinks_def)
  have u: "shrinks q (unmark rs q)" for q rs
    unfolding unmark_def by (rule shrinks_fold) (auto simp: shrinks_ops)
  have f: "shrinks q (forget_all rs q)" for q rs
    unfolding forget_all_def by (rule shrinks_fold) (auto simp: shrinks_ops)
  note du = shrinks_trans [OF d u]
  show ?thesis unfolding pool_failed_def Let_def using du shrinks_trans [OF du f] by simp
qed

lemma pool_at_save_generation:
  "pool_at (save_generation gen s) k =
     map_option (if gen = s_generation s then id else resave_pool) (pool_at s k)"
  by (cases "pool_at s k") (auto simp: save_generation_def pool_at_all_pools)

lemma save_generation_fields [simp]:
  "s_closed (save_generation gen s) = s_closed s" "s_generation (save_generation gen s) = gen"
  "s_storageFailed (save_generation gen s) = s_storageFailed s"
proof -
  have f: "f (fold (\<lambda>k. on_pool k g) ks t) = f t" if "\<And>k g t. f (on_pool k g t) = f t"
    for f :: "store \<Rightarrow> 'a" and g ks t by (rule fold_on_pool_fields) (rule that)
  show "s_closed (save_generation gen s) = s_closed s" "s_generation (save_generation gen s) = gen"
    "s_storageFailed (save_generation gen s) = s_storageFailed s"
    by (simp_all add: save_generation_def f [of s_closed] f [of s_generation] f [of s_storageFailed])
qed

section \<open>A save in one piece\<close>

text \<open>The range as a save finds it.\<close>

definition fresh_pool :: "sys \<Rightarrow> pool \<Rightarrow> pool" where
  "fresh_pool y p =
     (if FakeIPGeneration (y_file y) = s_generation (y_store y) then p else resave_pool p)"

lemma save_cases:
  assumes "s_storage (y_store y)" "\<not> s_closed (y_store y)" "\<not> q_clean q"
  obtains (skipped) "(q_reserve q \<or> q_room q \<noteq> None)"
      "\<not> save_needed q (save_generation (FakeIPGeneration (y_file y)) (y_store y))"
      "save t q now y = (y\<lparr>y_store := save_generation (FakeIPGeneration (y_file y)) (y_store y)\<rparr>, True)"
    | (idle) s2 j where "job_of q now (save_generation (FakeIPGeneration (y_file y)) (y_store y)) = (s2, j)"
      "j_puts j = []" "j_deletes j = []" "\<not> j_changed j"
      "save t q now y =
        (y\<lparr>y_store := s2\<rparr>, True)"
    | (written) s2 j c' ok where
      "job_of q now (save_generation (FakeIPGeneration (y_file y)) (y_store y)) = (s2, j)"
      "FakeIPSaveChanges t (j_puts j) (j_deletes j) (j_metadata j) (j_clean j) (y_file y) = (c', ok)"
      "save t q now y = (\<lparr>y_store = save_commit ok j s2, y_file = c'\<rparr>, ok)"
proof -
  let ?s1 = "save_generation (FakeIPGeneration (y_file y)) (y_store y)"
  obtain s2 j where j: "job_of q now ?s1 = (s2, j)" by (cases "job_of q now ?s1")
  obtain c' ok where w: "FakeIPSaveChanges t (j_puts j) (j_deletes j) (j_metadata j) (j_clean j) (y_file y) = (c', ok)"
    by (cases "FakeIPSaveChanges t (j_puts j) (j_deletes j) (j_metadata j) (j_clean j) (y_file y)")
  consider "(q_reserve q \<or> q_room q \<noteq> None) \<and> \<not> save_needed q ?s1"
    | "\<not> ((q_reserve q \<or> q_room q \<noteq> None) \<and> \<not> save_needed q ?s1)"
      "j_puts j = [] \<and> j_deletes j = [] \<and> \<not> j_changed j"
    | "\<not> ((q_reserve q \<or> q_room q \<noteq> None) \<and> \<not> save_needed q ?s1)"
      "\<not> (j_puts j = [] \<and> j_deletes j = [] \<and> \<not> j_changed j)" by blast
  then show ?thesis
  proof cases
    case 1 then show ?thesis using assms by (intro skipped) (simp_all add: save_def save_collect_alt Let_def)
  next
    case 2
    then show ?thesis using assms j
      by (intro idle [of s2 j]) (auto simp: save_def save_collect_alt Let_def)
  next
    case 3
    then show ?thesis using assms j w
      by (intro written [of s2 j c' ok]) (auto simp: save_def save_collect_alt Let_def)
  qed
qed

lemma fresh_pool_facts:
  "shrinks p (fresh_pool y p)" "full (fresh_pool y p) = full p" "p_advanced (fresh_pool y p) = p_advanced p"
  "books p [] [] \<Longrightarrow> books (fresh_pool y p) [] []"
  "p_byOffset (fresh_pool y p) = p_byOffset p" "address (fresh_pool y p) = address p"
  "r_lastUse (p_heap (fresh_pool y p) i) = r_lastUse (p_heap p i)"
  "r_offset (p_heap (fresh_pool y p) i) = r_offset (p_heap p i)"
  "r_removing (p_heap (fresh_pool y p) i) = r_removing (p_heap p i)"
  by (simp_all add: fresh_pool_def shrinks_ops resave_fields books_resave)

lemma pool_at_fresh:
  "pool_at (save_generation (FakeIPGeneration (y_file y)) (y_store y)) k =
     map_option (fresh_pool y) (pool_at (y_store y) k)"
  by (cases "pool_at (y_store y) k") (simp_all add: pool_at_save_generation fresh_pool_def)

lemma FakeIPSaveChanges_generation:
  "FakeIPSaveChanges t puts deletes m clean c = (c', ok) \<Longrightarrow> fst t \<noteq> Panic \<Longrightarrow>
    c_generation c' = c_generation c"
  by (auto simp: FakeIPSaveChanges_def update_tx_def split: if_splits outcome.splits)

lemma save_facts:
  assumes "s_storage (y_store y)" "\<not> s_closed (y_store y)" "\<not> q_clean q"
  shows "s_storage (y_store (fst (save t q now y)))" "\<not> s_closed (y_store (fst (save t q now y)))"
    and "s_generation (y_store (fst (save t q now y))) = FakeIPGeneration (y_file y)"
    and "fst t \<noteq> Panic \<Longrightarrow> FakeIPGeneration (y_file (fst (save t q now y))) = FakeIPGeneration (y_file y)"
    and "pool_at (y_store y) k = Some p \<Longrightarrow>
      \<exists>p'. pool_at (y_store (fst (save t q now y))) k = Some p' \<and> shrinks p p'"
proof -
  let ?s1 = "save_generation (FakeIPGeneration (y_file y)) (y_store y)" and ?y' = "fst (save t q now y)"
  have c: "shrinks p (pool_collected q now k (fresh_pool y p))" for p
    using fresh_pool_facts(1) shrinks_collected by (rule shrinks_trans)
  have p2: "pool_at (fst (job_of q now ?s1)) k = map_option (\<lambda>p. pool_collected q now k (fresh_pool y p))
      (pool_at (y_store y) k)"
    by (cases "pool_at (y_store y) k") (simp_all add: job_of_pools pool_at_fresh)
  have "s_storage (y_store ?y') \<and> \<not> s_closed (y_store ?y') \<and>
      s_generation (y_store ?y') = FakeIPGeneration (y_file y) \<and>
      (fst t \<noteq> Panic \<longrightarrow> FakeIPGeneration (y_file ?y') = FakeIPGeneration (y_file y)) \<and>
      (pool_at (y_store y) k = Some p \<longrightarrow> (\<exists>p'. pool_at (y_store ?y') k = Some p' \<and> shrinks p p'))"
    using assms
  proof (rule save_cases [where t = t and now = now], goal_cases)
    case 1
    then show ?case using assms fresh_pool_facts(1) by (auto simp: pool_at_fresh)
  next
    case (2 s2 j)
    then have s2: "s2 = fst (job_of q now ?s1)" by simp
    show ?case using 2(5) assms c p2 unfolding s2 by auto
  next
    case (3 s2 j c' ok)
    then have s2: "s2 = fst (job_of q now ?s1)" by simp
    have "pool_at (y_store ?y') k = map_option (\<lambda>p. (if ok then pool_saved j k else pool_failed j k)
        (pool_collected q now k (fresh_pool y p))) (pool_at (y_store y) k)"
      using 3(3) by (cases "pool_at (y_store y) k") (simp_all add: pool_at_save_commit p2 s2)
    moreover have "shrinks p ((if ok then pool_saved j k else pool_failed j k)
        (pool_collected q now k (fresh_pool y p)))" for p
      using shrinks_trans [OF c shrinks_saved] shrinks_trans [OF c shrinks_failed] by simp
    ultimately show ?case
      using 3(2,3) assms by (auto simp: s2 FakeIPGeneration_def dest: FakeIPSaveChanges_generation)
  qed
  then show "s_storage (y_store (fst (save t q now y)))" "\<not> s_closed (y_store (fst (save t q now y)))"
    "s_generation (y_store (fst (save t q now y))) = FakeIPGeneration (y_file y)"
    "fst t \<noteq> Panic \<Longrightarrow> FakeIPGeneration (y_file (fst (save t q now y))) = FakeIPGeneration (y_file y)"
    "pool_at (y_store y) k = Some p \<Longrightarrow>
      \<exists>p'. pool_at (y_store (fst (save t q now y))) k = Some p' \<and> shrinks p p'"
    by blast+
qed

lemma save_books:
  assumes "store_books (y_store y) Free"
  shows "store_books (y_store (fst (save t q now y))) Free"
proof -
  obtain s' r where c: "save_collect (FakeIPGeneration (y_file y)) q now (y_store y) = (s', r)"
    by (cases "save_collect (FakeIPGeneration (y_file y)) q now (y_store y)")
  note b = store_books_save_collect [OF assms c]
  have "store_books s' (Saving j) \<Longrightarrow> store_books (save_commit ok j s') Free" for j ok
    using store_books_save_commit by (simp add: store_books_def)
  then show ?thesis using b by (auto simp: save_def c split: collected.splits prod.splits)
qed

section \<open>Making room\<close>

lemma shrinks_strict:
  assumes "pool_inv p" "pool_inv q" "shrinks p q" "rec_at p o' \<noteq> None" "rec_at q o' = None"
  shows "length (p_byOffset q) < length (p_byOffset p)"
proof -
  have len: "length (p_byOffset r) = card (dom (map_of (p_byOffset r)))" if "pool_inv r" for r
  proof -
    have "distinct (map fst (p_byOffset r))" using that by (simp add: pool_inv_def table_ok_def)
    then show ?thesis using distinct_card [of "map fst (p_byOffset r)"]
      by (simp add: dom_map_of_conv_image_fst)
  qed
  have "o' \<in> dom (map_of (p_byOffset p)) - dom (map_of (p_byOffset q))"
    using assms(4,5) by auto
  moreover have "dom (map_of (p_byOffset q)) \<subseteq> dom (map_of (p_byOffset p))"
    using assms(3) by (auto simp: shrinks_def domIff)
  ultimately have "dom (map_of (p_byOffset q)) \<subset> dom (map_of (p_byOffset p))" by blast
  then show ?thesis using len [OF assms(1)] len [OF assms(2)]
    by (simp add: psubset_card_mono finite_dom_map_of)
qed

text \<open>In a range that is full some record can go: one that is used, or else one held back.\<close>

lemma sort_key_Nil_iff: "sort_key f xs = [] \<longleftrightarrow> xs = []"
proof -
  have "length (sort_key f xs) = length xs" by simp
  then show ?thesis by (metis length_0_conv)
qed

lemma oldest_not_empty:
  assumes "pool_inv p" "full p" "\<And>i. in_table p i \<Longrightarrow> \<not> r_removing (p_heap p i)"
  shows "oldest p (room p) 0 now \<noteq> []"
proof -
  have st: "pool_static p" using assms(1) by (simp add: pool_inv_def)
  have "p_max p \<noteq> 0" using st by (auto simp: pool_static_def)
  then have "0 < unat (p_max p)" using unat_pos_iff by blast
  then have len: "p_byOffset p \<noteq> []" using assms(2) full_iff [OF assms(1)] by auto
  have nr: "\<not> r_removing (p_heap p i)" if "(o', i) \<in> set (p_byOffset p)" for o' i
    using assms(3) in_tableI [OF assms(1)] pool_inv_entry(1) [OF assms(1) that] by blast
  define live where "live = filter (\<lambda>(i, _). \<not> r_removing (p_heap p i))
    (map (\<lambda>(_, i). (i, r_lastUse (p_heap p i))) (p_byOffset p))"
  define used where "used = filter (\<lambda>(i, u). \<not> held (p_heap p i) \<and> 0 \<le> since now u) live"
  define kept where "kept = filter (\<lambda>(i, _). held (p_heap p i)) live"
  define c where "c = (if used = [] \<and> (0 :: u32) = 0 then kept else used)"
  have "live = map (\<lambda>(_, i). (i, r_lastUse (p_heap p i))) (p_byOffset p)"
    unfolding live_def using nr by (auto simp: filter_id_conv)
  then have "live \<noteq> []" using len by simp
  then have "kept \<noteq> []" if "used = []"
    using that unfolding used_def kept_def by (cases live) (auto simp: filter_empty_conv)
  then have "c \<noteq> []" by (simp add: c_def)
  then have s: "sort_key snd c \<noteq> []" by (simp only: sort_key_Nil_iff) simp
  have "1 \<le> room p" unfolding room_def by (rule max.cobounded2)
  then have "room p \<noteq> 0" by auto
  then have "0 < unat (room p)" using unat_pos_iff by blast
  then have tk: "take (unat (room p)) (sort_key snd c) \<noteq> []" using s by (simp add: take_eq_Nil)
  have e: "oldest p (room p) 0 now =
      (if room p < word_of_nat (length (sort_key snd c)) then take (unat (room p)) (sort_key snd c) else sort_key snd c)"
    unfolding oldest_def Let_def c_def used_def kept_def live_def by (rule refl)
  show ?thesis unfolding e using s tk by (cases "room p < word_of_nat (length (sort_key snd c))") (simp_all only: if_True if_False not_False_eq_True)
qed

lemma makeRoom_memory_less:
  assumes "store_books s Free" "pool_at s k = Some p" "full p"
  obtains p' where "pool_at (makeRoom_memory now k s) k = Some p'"
    "length (p_byOffset p') < length (p_byOffset p)"
proof -
  let ?cs = "oldest p (room p) 0 now"
  have b: "books p [] []" using store_booksD [OF assms(1,2)] by simp
  have inv: "pool_inv p" using booksD(2) [OF b] .
  have cs: "?cs \<noteq> []" using inv assms(3) booksD(5) [OF b] by (intro oldest_not_empty) auto
  have pool: "pool_at (fold (\<lambda>(i, _). release k i) cs t) k = map_option (fold (\<lambda>(i, _). pool_remove i) cs) (pool_at t k)"
    for cs :: "(rid \<times> u64) list" and t
    by (induction cs arbitrary: t) (auto simp: release_def option.map_comp comp_def option.map_id)
  have sh: "shrinks q (fold (\<lambda>(i, _). pool_remove i) cs q)" for q and cs :: "(rid \<times> u64) list"
    by (rule shrinks_fold) (auto simp: shrinks_ops)
  obtain i u rest where c: "?cs = (i, u) # rest" using cs by (cases ?cs) auto
  have "(i, u) \<in> set ?cs" by (simp add: c)
  then obtain o' where o': "(o', i) \<in> set (p_byOffset p)" using oldest_in_table(1) by blast
  note e = pool_inv_entry [OF inv o']
  have "rec_at (pool_remove i p) o' = None" using e by simp
  then have gone: "rec_at (fold (\<lambda>(i, _). pool_remove i) ?cs p) o' = None"
    using sh [of "pool_remove i p" rest] by (simp add: c shrinks_def)
  have p': "pool_at (makeRoom_memory now k s) k = Some (fold (\<lambda>(i, _). pool_remove i) ?cs p)"
    using assms(2,3) by (simp add: makeRoom_memory_def pool)
  moreover have "pool_inv (fold (\<lambda>(i, _). pool_remove i) ?cs p)"
    using store_inv_makeRoom [OF store_books_inv [OF assms(1)]] p' by (rule store_invD)
  ultimately show ?thesis using that shrinks_strict [OF inv _ sh] gone e(1) by blast
qed

lemma full_frame: "full (p\<lparr>p_dirty := x\<rparr>) = full p" "full (p\<lparr>p_expired := y\<rparr>) = full p"
  by (simp_all add: full_def)

lemma collected_in_table: "in_table (pool_collected q now k p) i = in_table p i"
  by (simp add: in_table_def pool_collected_def Let_def)

text \<open>A save that makes room makes room, written or not.\<close>

lemma room_save_less:
  assumes "store_books (y_store y) Free" "s_storage (y_store y)" "\<not> s_closed (y_store y)"
    "pool_at (y_store y) k = Some p" "full p"
  obtains p' where "pool_at (y_store (fst (save t (room_save k) now y))) k = Some p'"
    "length (p_byOffset p') < length (p_byOffset p)"
proof -
  let ?q = "room_save k" and ?s1 = "save_generation (FakeIPGeneration (y_file y)) (y_store y)"
  let ?y' = "fst (save t ?q now y)"
  have q: "\<not> q_clean ?q" "q_room ?q = Some k" by (simp_all add: room_save_def)
  define f where "f = fresh_pool y p"
  have f1: "pool_at ?s1 k = Some f" using assms(4) by (simp add: pool_at_fresh f_def)
  have b: "books p [] []" using store_booksD [OF assms(1,4)] by simp
  have bf: "books f [] []" "full f" using fresh_pool_facts(2,4) b assms(5) by (simp_all add: f_def)
  have "oldest f (room f) 0 now \<noteq> []"
    using booksD(2,5) [OF bf(1)] bf(2) by (intro oldest_not_empty) auto
  then obtain i u where iu: "(i, u) \<in> set (oldest f (room f) 0 now)"
    by (metis list.set_intros(1) neq_Nil_conv old.prod.exhaust)
  note o = oldest_in_table [OF iu]
  have tab: "in_table f i" using o(1) pool_inv_entry(1) [OF booksD(2) [OF bf(1)]] in_tableI [OF booksD(2) [OF bf(1)]] by blast
  have rem: "(i, u) \<in> set (pool_removals ?q now k f)"
    using iu o tab q bf(2) by (simp add: pool_removals_iff pool_candidates_def in_table_def)
  obtain p' where p': "pool_at (y_store ?y') k = Some p'" "shrinks p p'"
    using save_facts(5) [OF assms(2,3) q(1) assms(4)] by blast
  have b': "books p' [] []" using save_books [OF assms(1)] p'(1) store_booksD by fastforce
  have gone: "rec_at p' (r_offset (p_heap f i)) = None"
    using assms(2,3) q(1)
  proof (rule save_cases [where t = t and now = now], goal_cases)
    case 1
    have "save_needed ?q ?s1" using f1 bf(2) by (simp add: save_needed_def q)
    with 1 show ?case by simp
  next
    case (2 s2 j)
    then have "pool_removals ?q now k f = []"
      using job_of_nothing(1) [of ?q now ?s1 k f] f1 by simp
    then show ?case using rem by simp
  next
    case (3 s2 j c' ok)
    then have js: "s2 = fst (job_of ?q now ?s1)" "j = snd (job_of ?q now ?s1)" by simp_all
    let ?c = "pool_collected ?q now k f"
    have rs: "changes_of k (j_removals j) = pool_removals ?q now k f"
      "changes_of k (j_written j) = pool_written ?q now k f"
      unfolding js using f1 by (simp_all add: job_of_changes)
    have bc: "books ?c (changes_of k (j_written j)) (changes_of k (j_removals j))"
      unfolding rs using bf(1) by (rule books_collected)
    have p2: "pool_at s2 k = Some ?c" unfolding js using f1 by (simp add: job_of_pools)
    have lu: "unused ?c (changes_of k (j_removals j)) i"
      using rem o(2) by (simp add: unused_def rs pool_collected_def Let_def)
    have at: "rec_at ?c (r_offset (p_heap f i)) = Some i" using tab by (simp add: in_table_def pool_collected_def Let_def)
    show ?case
    proof (cases ok)
      case True
      then have "p' = pool_saved j k ?c" using 3(3) p'(1) p2 by (simp add: pool_at_save_commit)
      then show ?thesis using books_saved(2) [OF bc] at lu by simp
    next
      case False
      define m where "m = unmark (changes_of k (j_removals j)) (?c\<lparr>p_dirty := p_dirty ?c @ changes_of k (j_written j)\<rparr>)"
      have "full m" using bf(2) by (simp add: m_def full_frame pool_collected_def Let_def)
      moreover have "j_room j = Some k" by (simp add: js q)
      ultimately have p'': "p' = forget_all (changes_of k (j_removals j)) m"
        using False 3(3) p'(1) p2 by (simp add: pool_at_save_commit pool_failed_def Let_def m_def)
      have "in_table m x = in_table ?c x" "unused m (changes_of k (j_removals j)) x = unused ?c (changes_of k (j_removals j)) x" for x
        by (simp_all add: in_table_def unused_def m_def)
      moreover have "pool_inv m" using booksD(2) [OF bc] by (simp add: m_def)
      ultimately have "removals_ok m (changes_of k (j_removals j))" "unused m (changes_of k (j_removals j)) i"
        using booksD(1) [OF bc] lu by (simp_all add: removals_ok_def)
      then show ?thesis using forget_all_lookup [of m] at by (simp add: p'' m_def)
    qed
  qed
  have "rec_at p (r_offset (p_heap f i)) \<noteq> None"
    using tab by (simp add: in_table_def f_def fresh_pool_facts)
  then show ?thesis using that p' shrinks_strict [OF booksD(2) [OF b] booksD(2) [OF b'] p'(2) _ gone] by blast
qed

section \<open>Extending the reserve\<close>

lemma reserve_position_used_up:
  "\<not> q_clean q \<Longrightarrow> p_budget p = 0 \<Longrightarrow> snd (reserve_position q p)"
  by (simp add: reserve_position_def)

text \<open>
  A query that found the reserve used up has it extended, or the storage is known to fail from
  then on.
\<close>

lemma reserve_save_effect:
  assumes "s_storage (y_store y)" "\<not> s_closed (y_store y)" "pool_at (y_store y) k = Some p"
    "p_budget (fresh_pool y p) = 0"
    "pool_at (y_store (fst (save t reserve_save now y))) k = Some p'"
  shows "p_budget p' = (if s_storageFailed (y_store (fst (save t reserve_save now y))) then 0 else p_step p)"
proof -
  let ?q = reserve_save and ?s1 = "save_generation (FakeIPGeneration (y_file y)) (y_store y)"
  have q: "\<not> q_clean ?q" by (simp add: reserve_save_def)
  define f where "f = fresh_pool y p"
  have f: "pool_at ?s1 k = Some f" "p_budget f = 0" "p_step f = p_step p"
    using assms(3,4) fresh_pool_facts(1) [of p y] by (simp_all add: pool_at_fresh f_def shrinks_def)
  have rsv: "pool_reserves ?q now k f \<noteq> []"
    using reserve_position_used_up [OF q, of "pool_collected ?q now k f"] f(2)
    by (simp add: pool_reserves_def split_beta pool_collected_def Let_def)
  have "k \<in> set (pools ?s1)" using f(1) by simp
  then have need: "save_needed ?q ?s1" using f by (auto simp: save_needed_def list_ex_iff)
  show ?thesis
    using assms(1,2) q
  proof (rule save_cases [where t = t and now = now], goal_cases)
    case 1 then show ?case using need by simp
  next
    case (2 s2 j)
    then show ?case using job_of_nothing(3) [of ?q now ?s1 k f] f(1) rsv by simp
  next
    case (3 s2 j c' ok)
    then have js: "s2 = fst (job_of ?q now ?s1)" "j = snd (job_of ?q now ?s1)" by simp_all
    let ?c = "pool_collected ?q now k f"
    have c: "p_advanced ?c = p_advanced f" "p_budget ?c = 0" "p_step ?c = p_step p"
      using f by (simp_all add: pool_collected_def Let_def)
    have p2: "pool_at s2 k = Some ?c" unfolding js using f(1) by (simp add: job_of_pools)
    obtain l where l: "changes_of k (j_reserves j) = [(p_advanced f, l)]"
      unfolding js using rsv f(1) by (auto simp: job_of_changes pool_reserves_def split_beta split: if_splits)
    show ?case
    proof (cases ok)
      case True
      then have "p' = pool_saved j k ?c" using 3(3) assms(5) p2 by (simp add: pool_at_save_commit)
      then show ?thesis using True 3(3) c by (simp add: pool_saved_def l take_reserve_def)
    next
      case False
      then have "p' = pool_failed j k ?c" using 3(3) assms(5) p2 by (simp add: pool_at_save_commit)
      then show ?thesis using False 3(3) c by (simp add: pool_failed_def Let_def)
    qed
  qed
qed

section \<open>The loop of Create ends\<close>

text \<open>How far the allocation position is from a free offset.\<close>

definition gap :: "pool \<Rightarrow> nat" where
  "gap p = (LEAST n. rec_at p (tried p n) = None)"

lemma gap_le: "rec_at p (tried p n) = None \<Longrightarrow> gap p \<le> n"
  unfolding gap_def by (rule Least_le)

lemma gap_free:
  assumes "pool_inv p" "\<not> full p"
  shows "rec_at p (tried p (gap p)) = None"
proof -
  obtain f where f: "in_ring p f" "rec_at p f = None" using assms by (rule not_full_free)
  from alloc_loop_ends [OF assms(1) f, of False False]
  obtain n where "rec_at p (tried p n) = None" by (auto simp: reserve_ends_def)
  then show ?thesis unfolding gap_def by (rule LeastI)
qed

lemma gap_shrinks:
  assumes "pool_inv p" "\<not> full p" "shrinks p q"
  shows "gap q \<le> gap p"
proof -
  have "tried q n = tried p n" for n using assms(3) by (simp add: tried_def shrinks_def)
  then have "rec_at q (tried q (gap p)) = None"
    using gap_free [OF assms(1,2)] assms(3) by (simp add: shrinks_def)
  then show ?thesis by (rule gap_le)
qed

lemma gap_advance:
  assumes "pool_inv p" "\<not> full p" "\<And>j. j < n \<Longrightarrow> rec_at p (tried p j) \<noteq> None"
  shows "gap ((alloc_step saved ^^ n) p) + n \<le> gap p"
proof -
  let ?q = "(alloc_step saved ^^ n) p"
  have "n \<le> gap p" using gap_free [OF assms(1,2)] assms(3) by (meson linorder_not_less)
  moreover have "tried ?q m = tried p (m + n)" for m
    by (simp add: tried_def funpow_alloc_step funpow_add)
  ultimately have "rec_at ?q (tried ?q (gap p - n)) = None"
    using gap_free [OF assms(1,2)] by simp
  then show ?thesis using gap_le \<open>n \<le> gap p\<close> by (metis add_le_imp_le_diff le_diff_conv2)
qed

definition m_gen :: "sys \<Rightarrow> nat" where
  "m_gen y = of_bool (s_storage (y_store y) \<and> FakeIPGeneration (y_file y) \<noteq> s_generation (y_store y))"

definition m_len :: "pid \<Rightarrow> sys \<Rightarrow> nat" where
  "m_len k y = (case pool_at (y_store y) k of None \<Rightarrow> 0 | Some p \<Rightarrow> length (p_byOffset p))"

definition m_gap :: "pid \<Rightarrow> sys \<Rightarrow> nat" where
  "m_gap k y = (case pool_at (y_store y) k of None \<Rightarrow> 0 | Some p \<Rightarrow> 2 * gap p + of_bool (p_budget p = 0))"

definition m_fail :: "sys \<Rightarrow> nat" where
  "m_fail y = of_bool (\<not> s_storageFailed (y_store y))"

definition rounds :: "nat \<Rightarrow> pid \<Rightarrow> ((nat \<times> sys) \<times> (nat \<times> sys)) set" where
  "rounds N k = measures [\<lambda>(n, y). N - n, \<lambda>(n, y). m_gen y, \<lambda>(n, y). m_len k y, \<lambda>(n, y). m_gap k y,
     \<lambda>(n, y). m_fail y]"

lemma rounds_early: "n < N \<Longrightarrow> ((Suc n, y'), (n, y)) \<in> rounds N k"
  unfolding rounds_def by (auto simp: diff_less_mono2)

lemma rounds_late:
  "m_gen y' < m_gen y \<or> m_gen y' = m_gen y \<and> (m_len k y' < m_len k y \<or> m_len k y' = m_len k y \<and>
     (m_gap k y' < m_gap k y \<or> m_gap k y' = m_gap k y \<and> m_fail y' < m_fail y)) \<Longrightarrow>
   N \<le> n \<Longrightarrow> ((Suc n, y'), (n, y)) \<in> rounds N k"
  by (auto simp: rounds_def)

text \<open>One round that found the reserve used up.\<close>

lemma reserve_round:
  assumes b: "store_books (y_store y) Free" and p: "pool_at (y_store y) k = Some p"
    and open': "s_storage (y_store y)" "\<not> s_closed (y_store y)"
    and gen: "FakeIPGeneration (y_file y) = s_generation (y_store y)" and nf: "\<not> full p"
    and ends: "reserve_ends True (s_storageFailed (y_store y)) p m"
    and skips: "\<forall>j < m. \<not> reserve_ends True (s_storageFailed (y_store y)) p j \<and> rec_at p (tried p j) \<noteq> None"
    and np: "fst t \<noteq> Panic"
    and y': "y' = fst (save t reserve_save now (y\<lparr>y_store := set_pool k ((alloc_step True ^^ m) p) (y_store y)\<rparr>))"
    and n: "N \<le> n"
  shows "((Suc n, y'), (n, y)) \<in> rounds N k"
proof -
  let ?p1 = "(alloc_step True ^^ m) p"
  define y1 where "y1 = y\<lparr>y_store := set_pool k ?p1 (y_store y)\<rparr>"
  have inv: "pool_inv p" using b p by (auto dest: store_booksD booksD(2))
  have failed: "\<not> s_storageFailed (y_store y)" and m: "m = unat (p_budget p)"
  proof -
    show f: "\<not> s_storageFailed (y_store y)" using ends by (simp add: reserve_ends_def)
    have "unat (p_budget p) \<le> m" using ends by (simp add: reserve_ends_def)
    moreover have "\<not> unat (p_budget p) < m"
      using skips by (auto simp: reserve_ends_def f)
    ultimately show "m = unat (p_budget p)" by simp
  qed
  have p1: "pool_inv ?p1" "p_budget ?p1 = 0" "\<not> full ?p1"
    using inv nf m by (simp_all add: pool_inv_alloc_step) (simp_all add: funpow_alloc_step full_def)
  have g1: "gap ?p1 + m \<le> gap p" using inv nf skips by (intro gap_advance) auto
  have y1: "s_storage (y_store y1)" "\<not> s_closed (y_store y1)" "pool_at (y_store y1) k = Some ?p1"
    "FakeIPGeneration (y_file y1) = s_generation (y_store y1)" "\<not> q_clean reserve_save"
    using open' gen by (simp_all add: y1_def reserve_save_def)
  have y'1: "y' = fst (save t reserve_save now y1)" by (simp add: y' y1_def)
  obtain p' where p': "pool_at (y_store y') k = Some p'" "shrinks ?p1 p'"
    using save_facts(5) [OF y1(1,2,5,3)] unfolding y'1 by blast
  have gen': "m_gen y' = 0" "m_gen y = 0"
    using save_facts(3,4) [OF y1(1,2,5)] np gen by (simp_all add: m_gen_def y'1 y1_def FakeIPGeneration_def)
  have bud: "p_budget p' = (if s_storageFailed (y_store y') then 0 else p_step p)"
    using reserve_save_effect [OF y1(1,2,3), of t now p'] p'(1) p1(2) y1(4)
    by (simp add: y'1 fresh_pool_def)
  have step: "p_step p \<noteq> 0" using inv by (auto simp: pool_inv_def pool_static_def)
  have g': "gap p' \<le> gap ?p1" using p1(1,3) p'(2) by (rule gap_shrinks)
  have len: "m_len k y' \<le> m_len k y" using p' p by (simp add: m_len_def shrinks_def)
  have gy: "m_gap k y = 2 * gap p + of_bool (m = 0)" using p m by (simp add: m_gap_def unat_eq_0)
  have gy': "m_gap k y' = 2 * gap p' + of_bool (s_storageFailed (y_store y'))"
    using p'(1) bud step by (simp add: m_gap_def)
  have "m_gap k y' < m_gap k y \<or> m_gap k y' = m_gap k y \<and> m_fail y' < m_fail y"
  proof (cases "s_storageFailed (y_store y')")
    case True
    then have "m_fail y' < m_fail y" using failed by (simp add: m_fail_def)
    then show ?thesis using g1 g' True by (cases "m = 0") (auto simp: gy gy')
  next
    case False
    then show ?thesis using g1 g' by (cases "m = 0") (auto simp: gy gy')
  qed
  then show ?thesis using gen' len n by (intro rounds_late) auto
qed

lemma room_round:
  assumes b: "store_books (y_store y) Free" and p: "pool_at (y_store y) k = Some p" "full p"
    and "\<not> s_closed (y_store y)" "fst t \<noteq> Panic" "N \<le> n"
  shows "((Suc n, makeRoom t now k y), (n, y)) \<in> rounds N k"
proof (cases "s_storage (y_store y)")
  case True
  have q: "\<not> q_clean (room_save k)" by (simp add: room_save_def)
  have e: "makeRoom t now k y = fst (save t (room_save k) now y)" using True by (simp add: makeRoom_def)
  obtain p' where "pool_at (y_store (makeRoom t now k y)) k = Some p'" "length (p_byOffset p') < length (p_byOffset p)"
    using room_save_less [OF b True assms(4) p] unfolding e by metis
  then have "m_len k (makeRoom t now k y) < m_len k y" using p by (simp add: m_len_def)
  moreover have "m_gen (makeRoom t now k y) = 0"
    using save_facts(3,4) [OF True assms(4) q] assms(5) by (simp add: m_gen_def e)
  ultimately show ?thesis using assms(6) by (intro rounds_late) auto
next
  case False
  obtain p' where "pool_at (makeRoom_memory now k (y_store y)) k = Some p'" "length (p_byOffset p') < length (p_byOffset p)"
    using makeRoom_memory_less [OF b p] by metis
  then have "m_len k (makeRoom t now k y) < m_len k y" using p False by (simp add: m_len_def makeRoom_def)
  moreover have "m_gen (makeRoom t now k y) = 0" using False by (simp add: m_gen_def makeRoom_def)
  ultimately show ?thesis using assms(6) by (intro rounds_late) auto
qed

lemma books_makeRoom_sys: "store_books (y_store y) Free \<Longrightarrow> store_books (y_store (makeRoom t now k y)) Free"
  by (simp add: makeRoom_def store_books_makeRoom save_books)

text \<open>
  \<open>N\<close> bounds the rounds in which the file can be found damaged. Each round after them lowers one of
  the numbers above.
\<close>

lemma create_loop_returns:
  assumes np: "\<forall>n \<ge> N. fst (fst (env n)) \<noteq> Panic" and d: "d \<noteq> []"
  shows "store_books (y_store y) Free \<Longrightarrow> \<exists>r. create_loop env n k d y = Some r"
proof (induction "(n, y)" arbitrary: n y rule: wf_induct_rule [OF wf_measures [of "[\<lambda>(n, y). N - n,
    \<lambda>(n, y). m_gen y, \<lambda>(n, y). m_len k y, \<lambda>(n, y). m_gap k y, \<lambda>(n, y). m_fail y]"], folded rounds_def])
  case 1
  note b = "1.prems"
  let ?s = "y_store y" and ?now = "snd (env n)" and ?t = "fst (env n)"
  have inv: "store_inv ?s" using b by (rule store_books_inv)
  obtain s' need res where a: "allocate ?now (FakeIPGeneration (y_file y)) k d ?s = Some (s', need, res)"
    using allocate_total [OF inv] by (metis prod.exhaust)
  have s': "store_books s' Free" using b d a by (rule store_books_allocate)
  have simps: "create_loop env n k d y =
      (if need = needReserve
       then create_loop env (Suc n) k d (fst (save ?t reserve_save ?now (y\<lparr>y_store := s'\<rparr>)))
       else if need = needRoom then create_loop env (Suc n) k d (makeRoom ?t ?now k (y\<lparr>y_store := s'\<rparr>))
       else Some (y\<lparr>y_store := s'\<rparr>, res))"
    by (subst create_loop.simps) (simp add: a)
  have IH: "\<exists>r. create_loop env (Suc n) k d y' = Some r"
    if "((Suc n, y'), (n, y)) \<in> rounds N k" "store_books (y_store y') Free" for y'
    using "1.hyps" [OF that] .
  have early: "n < N \<Longrightarrow> ?case"
    using IH rounds_early s' unfolding simps by (auto simp: save_books books_makeRoom_sys)
  show ?case
  proof (cases "n < N")
    case False
    then have n: "N \<le> n" and t: "fst ?t \<noteq> Panic" using np by auto
    show ?thesis
    proof (cases "pool_at ?s k")
      case None
      then have "need = needNothing" using a by (simp add: allocate_def)
      then show ?thesis by (simp add: simps)
    next
      case (Some p)
      from Some show ?thesis
      proof (rule allocate_cases [OF inv, of k p d ?now "FakeIPGeneration (y_file y)"], goal_cases)
        case (1 i) then show ?case using a by (simp add: simps)
      next
        case 2 then show ?case using a by (simp add: simps)
      next
        case 3
        then have "s' = ?s" "need = needRoom" using a by simp_all
        then show ?case using IH [OF room_round [OF b Some 3(3,2) t n]] b
          by (simp add: simps books_makeRoom_sys)
      next
        case 4
        then have e: "s' = ?s" "need = needReserve" using a by simp_all
        have q: "\<not> q_clean reserve_save" by (simp add: reserve_save_def)
        have "m_gen (fst (save ?t reserve_save ?now y)) < m_gen y"
          using save_facts(3,4) [OF 4(4,2) q] t 4(4,5) by (simp add: m_gen_def)
        then have "((Suc n, fst (save ?t reserve_save ?now y)), (n, y)) \<in> rounds N k"
          using n by (intro rounds_late) auto
        then show ?case using IH b e by (simp add: simps save_books)
      next
        case (5 m)
        then have st: "s_storage ?s" by (auto simp: reserve_ends_def)
        have e: "s' = set_pool k ((alloc_step True ^^ m) p) ?s" "need = needReserve" using a 5 st by simp_all
        have "((Suc n, fst (save ?t reserve_save ?now (y\<lparr>y_store := s'\<rparr>))), (n, y)) \<in> rounds N k"
          using 5 st by (intro reserve_round [OF b Some st 5(2) _ 5(3) _ _ t _ n, of m]) (auto simp: e)
        then show ?case using IH s' e(2) by (simp add: simps save_books)
      next
        case (6 m) then show ?case using a by (simp add: simps)
      qed
    qed
  qed (rule early)
qed

lemma Create_returns:
  assumes "store_books (y_store y) Free" "\<forall>n \<ge> N. fst (fst (env n)) \<noteq> Panic" "domain \<noteq> []"
  shows "\<exists>r. Create env domain v6 y = Some r"
proof -
  let ?k = "if v6 then P6 else P4" and ?d = "to_lower domain"
  have d: "?d \<noteq> []" using assms(3) by (simp add: to_lower_Nil_iff)
  have "store_books (y_store (y\<lparr>y_store := fst (find_domain (snd (env 0)) ?k ?d (y_store y))\<rparr>)) Free"
    using assms(1) by (simp add: store_books_find_domain)
  from create_loop_returns [OF assms(2) d this] show ?thesis
    by (cases "find_domain (snd (env 0)) ?k ?d (y_store y)")
      (auto simp: Create_def Let_def split: option.split)
qed

end
