(* ===== verification/FakeIP_Durable.thy ===== *)
theory FakeIP_Durable
  imports FakeIP_Live
begin

text \<open>
  The memory and the storage. A record that is not waiting to be saved is in the storage, under the
  address it was given out with, unless the cache file was recreated since. So when nothing is
  pending the whole table is saved, and a restart finds it.
\<close>

section \<open>What the store relies on\<close>

text \<open>
  The interface \<open>tableStorage\<close> of the store: what a write that succeeds has written, and that a
  write that fails has changed nothing or has lost everything, which the generation tells.
\<close>

definition changes_ok :: "(addr \<times> string) list \<Rightarrow> addr list \<Rightarrow> bool" where
  "changes_ok puts deletes \<longleftrightarrow>
     (\<forall>a \<in> fst ` set puts. plain a) \<and> distinct (map fst puts) \<and> (\<forall>a \<in> set deletes. plain a)"

locale table_storage =
  fixes table :: "'c \<Rightarrow> addr \<Rightarrow> string option"
    and generation :: "'c \<Rightarrow> u64"
    and put_changes :: "'t \<Rightarrow> (addr \<times> string) list \<Rightarrow> addr list \<Rightarrow> metadata \<Rightarrow> bool \<Rightarrow> 'c \<Rightarrow> 'c \<times> bool"
  assumes put_saved: "put_changes t puts deletes m clean c = (c', True) \<Longrightarrow> changes_ok puts deletes \<Longrightarrow> plain a \<Longrightarrow>
      table c' a = (case map_of puts a of Some d \<Rightarrow> Some d
        | None \<Rightarrow> if a \<in> set deletes then None else table c a)"
    and put_generation: "put_changes t puts deletes m clean c = (c', True) \<Longrightarrow> generation c' = generation c"
    and put_failed: "put_changes t puts deletes m clean c = (c', False) \<Longrightarrow>
      table c' = table c \<and> generation c' = generation c \<or> generation c' = generation c + 1"
begin

text \<open>What was there and is not touched, and what is put, is there after the write.\<close>

lemma put_new:
  assumes "put_changes t puts deletes m clean c = (c', True)" "changes_ok puts deletes" "map_of puts a = Some d"
  shows "table c' a = Some d"
proof -
  have "plain a" using assms(2,3) by (force simp: changes_ok_def dest: map_of_SomeD)
  from put_saved [OF assms(1,2) this] show ?thesis by (simp add: assms(3))
qed

lemma put_kept:
  assumes "put_changes t puts deletes m clean c = (c', ok)" "changes_ok puts deletes" "plain a"
    "generation c' = generation c" "ok \<Longrightarrow> map_of puts a = None" "ok \<Longrightarrow> a \<notin> set deletes"
  shows "table c' a = table c a"
proof (cases ok)
  case True
  then show ?thesis using put_saved [of t puts deletes m clean c c' a] assms by simp
next
  case False
  then show ?thesis using put_failed [of t puts deletes m clean c c'] assms(1,4) by auto
qed

end

interpretation cache: table_storage saved_table c_generation FakeIPSaveChanges
proof
  show "saved_table c' a = (case map_of puts a of Some d \<Rightarrow> Some d
      | None \<Rightarrow> if a \<in> set deletes then None else saved_table c a)"
    if "FakeIPSaveChanges t puts deletes m clean c = (c', True)" "changes_ok puts deletes" "plain a"
    for t puts deletes m clean c c' a
    using that saved_table_save [of t puts deletes m clean c c' a] by (simp add: changes_ok_def)
  show "c_generation c' = c_generation c"
    if "FakeIPSaveChanges t puts deletes m clean c = (c', True)" for t puts deletes m clean c c'
    using that by (rule FakeIPSaveChanges_cases) simp_all
  show "saved_table c' = saved_table c \<and> c_generation c' = c_generation c \<or> c_generation c' = c_generation c + 1"
    if "FakeIPSaveChanges t puts deletes m clean c = (c', False)" for t puts deletes m clean c c'
    using that by (rule FakeIPSaveChanges_cases) simp_all
qed

section \<open>Tidy tables\<close>

text \<open>Every domain is in lower case, and what is forgotten are offsets of the range.\<close>

definition tidy_pool :: "pool \<Rightarrow> bool" where
  "tidy_pool p \<longleftrightarrow> (\<forall>i. to_lower (r_domain (p_heap p i)) = r_domain (p_heap p i)) \<and>
     (\<forall>o' \<in> set (p_forgotten p). o' < pool_end (p_prefix p))"

lemma tidy_pool_frame:
  "tidy_pool p \<Longrightarrow> (\<And>i. r_domain (p_heap q i) = r_domain (p_heap p i)) \<Longrightarrow> p_prefix q = p_prefix p \<Longrightarrow>
    set (p_forgotten q) \<subseteq> set (p_forgotten p) \<Longrightarrow> tidy_pool q"
  by (auto simp: tidy_pool_def)

definition tidy_store :: "store \<Rightarrow> bool" where
  "tidy_store s \<longleftrightarrow> (\<forall>k p. pool_at s k = Some p \<longrightarrow> tidy_pool p)"

lemma tidy_store_fields [simp]:
  "tidy_store (s\<lparr>s_uses := v1\<rparr>) = tidy_store s" "tidy_store (s\<lparr>s_closed := v2\<rparr>) = tidy_store s"
  "tidy_store (s\<lparr>s_generation := v3\<rparr>) = tidy_store s" "tidy_store (s\<lparr>s_storageFailed := v4\<rparr>) = tidy_store s"
  by (simp_all add: tidy_store_def)

lemma tidy_store_on_pool:
  assumes "tidy_store s" "\<And>p i. r_domain (p_heap (f p) i) = r_domain (p_heap p i)"
    "\<And>p. p_prefix (f p) = p_prefix p" "\<And>p. set (p_forgotten (f p)) \<subseteq> set (p_forgotten p)"
  shows "tidy_store (on_pool k f s)"
  using assms(1) tidy_pool_frame [OF _ assms(2-4)] by (auto simp: tidy_store_def)

lemma tidy_store_touch: "tidy_store s \<Longrightarrow> tidy_store (touch now k i s)"
  unfolding touch_alt by (intro tidy_store_on_pool) simp_all

lemma tidy_forget:
  assumes "tidy_pool p" "pool_inv p"
  shows "tidy_pool (forget i u p)"
proof -
  have "r_offset (p_heap p i) < pool_end (p_prefix p)" if "rec_at p (r_offset (p_heap p i)) = Some i"
    using pool_inv_rec(1) [OF assms(2) that] assms(2) by (simp add: in_ring_def pool_inv_def pool_static_def)
  then show ?thesis using assms(1) by (auto simp: tidy_pool_def forget_def Let_def)
qed

lemma p_prefix_commit [simp]:
  "p_prefix (mark_saved ws p) = p_prefix p" "p_prefix (remove_all_saved rs p) = p_prefix p"
  "p_prefix (take_reserve vs p) = p_prefix p" "p_prefix (unmark rs p) = p_prefix p"
  by (simp_all add: mark_saved_def remove_all_saved_def take_reserve_def unmark_def p_prefix_fold split_beta)

lemma tidy_saved: "tidy_pool p \<Longrightarrow> tidy_pool (pool_saved j k p)"
  by (erule tidy_pool_frame) (simp_all add: pool_saved_def)

lemma tidy_failed:
  assumes "tidy_pool p" "pool_inv p"
  shows "tidy_pool (pool_failed j k p)"
proof -
  let ?m = "unmark (changes_of k (j_removals j)) (p\<lparr>p_dirty := p_dirty p @ changes_of k (j_written j)\<rparr>)"
  have m: "tidy_pool ?m \<and> pool_inv ?m" using assms by (simp add: tidy_pool_def)
  have "tidy_pool (forget_all rs ?m) \<and> pool_inv (forget_all rs ?m)" for rs
    unfolding forget_all_def using m
    by (intro fold_invariant [where P = "\<lambda>p. tidy_pool p \<and> pool_inv p"])
      (auto simp: tidy_forget pool_inv_forget)
  then show ?thesis using m by (simp add: pool_failed_def Let_def)
qed

lemma tidy_resave: "tidy_pool p \<Longrightarrow> tidy_pool (resave_pool p)"
  by (erule tidy_pool_frame) (simp_all add: resave_fields)

lemma tidy_collected: "tidy_pool p \<Longrightarrow> tidy_pool (pool_collected q now k p)"
  by (erule tidy_pool_frame) (simp_all add: pool_collected_def Let_def pool_marked_def)

lemma tidy_store_save_generation: "tidy_store s \<Longrightarrow> tidy_store (save_generation gen s)"
  by (auto simp: tidy_store_def pool_at_save_generation tidy_resave)

lemma tidy_store_save_collect:
  assumes "tidy_store s"
  shows "tidy_store (fst (save_collect gen q now s))"
proof -
  have g: "tidy_store (save_generation gen s)"
    using assms by (rule tidy_store_save_generation)
  have "tidy_store (fst (job_of q now (save_generation gen s)))"
    using g by (auto simp: tidy_store_def job_of_pools tidy_collected)
  with g assms show ?thesis by (simp add: save_collect_alt Let_def)
qed

lemma tidy_store_save_commit: "store_inv s \<Longrightarrow> tidy_store s \<Longrightarrow> tidy_store (save_commit ok j s)"
  by (auto simp: tidy_store_def pool_at_save_commit tidy_saved tidy_failed store_inv_def)

lemma tidy_store_allocate:
  assumes "store_inv s" "tidy_store s" "allocate now gen k (to_lower d) s = Some (s', r)"
  shows "tidy_store s'"
proof (cases "pool_at s k")
  case None then show ?thesis using assms by (auto simp: allocate_def)
next
  case (Some p)
  have p: "tidy_pool p" using assms(2) Some by (simp add: tidy_store_def)
  have g: "tidy_store (give_out now k (to_lower d) off ((alloc_step b ^^ n) p) s)" for off b n
  proof -
    have "tidy_pool q" if "pool_at (give_out now k (to_lower d) off ((alloc_step b ^^ n) p) s) k' = Some q" for k' q
    proof (cases "k' = k")
      case True
      have "(r_domain (p_heap q i) = to_lower d \<or> r_domain (p_heap q i) = r_domain (p_heap p i)) \<and>
          p_prefix q = p_prefix p \<and> p_forgotten q = p_forgotten p" for i
        using that unfolding True give_out_pool by (cases "s_storage s") (auto simp: Let_def)
      then show ?thesis using p unfolding tidy_pool_def by (metis to_lower_idem)
    next
      case False
      then show ?thesis using that assms(2) by (simp add: give_out_other tidy_store_def)
    qed
    then show ?thesis by (simp add: tidy_store_def)
  qed
  have a: "tidy_store (set_pool k ((alloc_step b ^^ n) p) s)" for b n
    using assms(2) p by (simp add: tidy_store_def tidy_pool_def)
  from Some show ?thesis
    by (rule allocate_cases [OF assms(1), of k p "to_lower d" now gen])
      (use assms(2,3) g a tidy_store_touch in auto)
qed

lemma tidy_store_fold: "(\<And>x s. tidy_store s \<Longrightarrow> tidy_store (g x s)) \<Longrightarrow> tidy_store s \<Longrightarrow> tidy_store (fold g xs s)"
  by (rule fold_invariant) auto

lemma tidy_store_sweep_apply: "tidy_store s \<Longrightarrow> tidy_store (sweep_apply found s)"
proof -
  have "tidy_store (fold expire cs s)" "tidy_store (fold release_unused cs s)" if "tidy_store s" for cs s
    using that by (auto intro!: tidy_store_fold tidy_store_on_pool
        simp: expire_def release_unused_def release_def split: prod.split option.split)
  then show "tidy_store s \<Longrightarrow> ?thesis" by (simp add: sweep_apply_def)
qed

lemma tidy_step: "step f g \<Longrightarrow> store_inv (f_store f) \<Longrightarrow> tidy_store (f_store f) \<Longrightarrow> tidy_store (f_store g)"
proof (induction rule: step.induct)
  case (Query f now k d)
  then show ?case by (simp add: find_domain_def tidy_store_touch split: option.split)
next
  case (Allocate d now f k s' r)
  then show ?case using tidy_store_allocate by simp
next
  case (Room f now k)
  have "tidy_store (fold (\<lambda>(i, _). release k i) cs s)" if "tidy_store s" for cs :: "(rid \<times> u64) list" and s
    using that by (intro tidy_store_fold) (auto simp: release_def intro!: tidy_store_on_pool)
  then show ?case using Room by (simp add: makeRoom_memory_def split: option.split)
next
  case (Connection f now a)
  then show ?case by (simp add: Lookup_def tidy_store_touch split: option.split)
next
  case (Collect f gen q now s' j)
  then show ?case using tidy_store_save_collect [of "f_store f" gen q now] by simp
next
  case (Nothing f gen q now s' r)
  then show ?case using tidy_store_save_collect [of "f_store f" gen q now] by simp
next
  case (ResetMemory f)
  have "tidy_store (reset_pools s)" if "tidy_store s" for s
    unfolding reset_pools_def using that
    by (intro tidy_store_fold tidy_store_on_pool) (simp_all add: reset_pool_def)
  then show ?case using ResetMemory by simp
qed (simp_all add: tidy_store_save_commit tidy_store_sweep_apply close_store_def)

lemma tidy_load_record:
  assumes "tidy_store s"
  shows "tidy_store (fst (load_record s a d))"
proof (cases rule: load_record_cases [of s a d])
  case (taken k p off)
  have "tidy_pool p" using assms taken(2) by (simp add: tidy_store_def)
  then have "tidy_pool (put_rec \<lparr>r_domain = to_lower d, r_offset = off, r_lastUse = 0, r_dirty = False,
      r_removing = False\<rparr> p)" by (simp add: tidy_pool_def to_lower_idem)
  then show ?thesis using assms taken(6) by (simp add: tidy_store_def)
qed (use assms in simp)

lemma tidy_restore_pool: "tidy_pool p \<Longrightarrow> tidy_pool (restore_pool m clean s k p)"
proof -
  assume p: "tidy_pool p"
  have "tidy_pool (fst (restore_next p c))" for c
    using p by (simp add: restore_next_def Let_def tidy_pool_def split: option.split)
  moreover have "p_forgotten (restore_rec tick i q) = p_forgotten q" for tick i q
    by (simp add: restore_rec_def Let_def split: option.split)
  ultimately have r: "tidy_pool (fst (restore p c t))" for c t
    unfolding restore_def split_beta Let_def fst_conv
    by (intro fold_invariant [where P = tidy_pool]) (auto simp: tidy_pool_def)
  have h: "tidy_pool (hold l u q)" if "tidy_pool q" for l u q
    using that unfolding hold_def
    by (auto intro!: fold_invariant [where P = tidy_pool]) (simp add: tidy_pool_def hold_one_def Let_def to_lower_def)
  show ?thesis using r h by (simp add: restore_pool_def split_beta split: option.split)
qed

lemma tidy_NewStore: "tidy_store (NewStore r4 r6)"
proof -
  have "p_heap (newPool pre) = (\<lambda>_. blank_rec)" "p_forgotten (newPool pre) = []" for pre
    by (simp_all add: newPool_def Let_def)
  then show ?thesis
    by (auto simp: tidy_store_def NewStore_pool tidy_pool_def blank_rec_def to_lower_def)
qed

lemma started_tidy: "started f \<Longrightarrow> tidy_store (f_store f)"
proof (induction rule: started.induct)
  case (Loaded r4 r6 c t1 nread t2 y)
  let ?s1 = "(NewStore r4 r6)\<lparr>s_storage := True, s_generation := FakeIPGeneration c\<rparr>"
  obtain c' s2 m clean ok where l: "FakeIPLoadTable t1 nread t2 load_record ?s1 c = (c', s2, m, clean, ok)"
    by (cases "FakeIPLoadTable t1 nread t2 load_record ?s1 c")
  have "tidy_store s2" using l
    by (rule FakeIPLoadTable_invariant [rotated 2])
      (use tidy_NewStore tidy_load_record in \<open>auto simp: tidy_store_def\<close>)
  then show ?case using Loaded(5) l
    by (auto simp: load_table_def restore_pools_def tidy_store_def pool_at_all_pools tidy_restore_pool
        split: if_splits)
qed (simp add: tidy_NewStore)

section \<open>The changes of a job\<close>

lemma plain_address: "plain (address p off)"
  by (cases "p_base p") (simp_all add: plain_def address_def)

text \<open>Two records with the same address are one.\<close>

lemma same_address:
  assumes "store_ok s" "pool_at s k = Some p" "pool_at s k' = Some p'" "in_table p i" "in_table p' i'"
    "address p (r_offset (p_heap p i)) = address p' (r_offset (p_heap p' i'))"
  shows "k' = k" "i' = i"
proof -
  have inv: "pool_inv q" if "pool_at s x = Some q" for x q
    using assms(1) that by (auto simp: store_ok_def store_inv_def)
  have e: "r_offset (p_heap q x) < p_end q" if "pool_inv q" "in_table q x" for q x
    using that pool_inv_rec(1) by (auto simp: in_table_def in_ring_def)
  show k: "k' = k"
    using poolOf_address [OF assms(1,2) e [OF inv [OF assms(2)] assms(4)]]
      poolOf_address [OF assms(1,3) e [OF inv [OF assms(3)] assms(5)]] assms(6) by simp
  then have p: "p' = p" using assms(2,3) by simp
  have "pool_static p" using inv [OF assms(2)] by (simp add: pool_inv_def)
  then have "r_offset (p_heap p i) = r_offset (p_heap p i')"
    using address_inj [of p] e [OF inv [OF assms(2)] assms(4)] e [OF inv [OF assms(3)] assms(5)] assms(6)
    by (simp add: p)
  then show "i' = i" using assms(4,5) by (simp add: in_table_def p)
qed

lemma deleted_address:
  assumes "store_ok s" "pool_at s k = Some p" "pool_at s k' = Some p'" "in_table p i" "off < p_end p'"
    "address p (r_offset (p_heap p i)) = address p' off"
  shows "k' = k" "rec_at p off = Some i"
proof -
  have inv: "pool_inv p" using assms(1,2) by (auto simp: store_ok_def store_inv_def)
  have e: "r_offset (p_heap p i) < p_end p"
    using pool_inv_rec(1) [OF inv] assms(4) by (auto simp: in_table_def in_ring_def)
  show k: "k' = k"
    using poolOf_address [OF assms(1,2) e] poolOf_address [OF assms(1,3,5)] assms(6) by simp
  have "pool_static p" using inv by (simp add: pool_inv_def)
  then have "r_offset (p_heap p i) = off"
    using address_inj [of p] e assms(2,3,5,6) k by simp
  then show "rec_at p off = Some i" using assms(4) by (simp add: in_table_def)
qed

lemma map_of_put_fold:
  "map_of (fold (\<lambda>i. put_address (A i) (D i)) ws ps) a =
     (case map_of (rev (map (\<lambda>i. (A i, D i)) ws)) a of None \<Rightarrow> map_of ps a | Some d \<Rightarrow> Some d)"
  by (induction ws arbitrary: ps) (auto simp: put_address_def map_add_def split: option.split)

lemma distinct_put_fold:
  "distinct (map fst ps) \<Longrightarrow> distinct (map fst (fold (\<lambda>i. put_address (A i) (D i)) ws ps))"
  by (induction ws arbitrary: ps) (simp_all add: put_address_def distinct_update)

definition put_list :: "saveRequest \<Rightarrow> u32 \<Rightarrow> store \<Rightarrow> pid \<Rightarrow> (addr \<times> string) list" where
  "put_list q now s k = (case pool_at s k of None \<Rightarrow> [] | Some p \<Rightarrow>
     rev (map (\<lambda>i. (address p (r_offset (p_heap p i)), r_domain (p_heap p i))) (pool_written q now k p)))"

definition delete_list :: "saveRequest \<Rightarrow> u32 \<Rightarrow> store \<Rightarrow> pid \<Rightarrow> addr list" where
  "delete_list q now s k = (case pool_at s k of None \<Rightarrow> [] | Some p \<Rightarrow>
     map (\<lambda>(i, _). address p (r_offset (p_heap p i))) (pool_removals q now k p)
       @ map (address p) (pool_gone q now k p))"

lemma job_of_puts:
  "map_of (j_puts (snd (job_of q now s))) a = map_of (put_list q now s P6 @ put_list q now s P4) a"
  "distinct (map fst (j_puts (snd (job_of q now s))))"
  "j_deletes (snd (job_of q now s)) = delete_list q now s P4 @ delete_list q now s P6"
proof -
  show "map_of (j_puts (snd (job_of q now s))) a = map_of (put_list q now s P6 @ put_list q now s P4) a"
    by (cases "s_pool4 s"; cases "s_pool6 s")
      (simp_all add: job_of_def pools_def collect_at_def collect_pool_alt empty_job_def put_list_def
        map_of_put_fold map_add_def split: option.split)
  show "distinct (map fst (j_puts (snd (job_of q now s))))"
    by (cases "s_pool4 s"; cases "s_pool6 s")
      (simp_all add: job_of_def pools_def collect_at_def collect_pool_alt empty_job_def distinct_put_fold)
  show "j_deletes (snd (job_of q now s)) = delete_list q now s P4 @ delete_list q now s P6"
    by (cases "s_pool4 s"; cases "s_pool6 s")
      (simp_all add: job_of_def pools_def collect_at_def collect_pool_alt empty_job_def delete_list_def)
qed

lemma put_list_mem: "(a, d) \<in> set (put_list q now s k) \<longleftrightarrow> (\<exists>p i. pool_at s k = Some p \<and>
    i \<in> set (pool_written q now k p) \<and> a = address p (r_offset (p_heap p i)) \<and> d = r_domain (p_heap p i))"
  by (cases "pool_at s k") (auto simp: put_list_def)

lemma delete_list_mem: "a \<in> set (delete_list q now s k) \<longleftrightarrow> (\<exists>p. pool_at s k = Some p \<and>
    ((\<exists>i \<in> fst ` set (pool_removals q now k p). a = address p (r_offset (p_heap p i))) \<or>
     (\<exists>o' \<in> set (pool_gone q now k p). a = address p o')))"
  by (force simp: delete_list_def split: option.split)

section \<open>Memory and storage\<close>

text \<open>The storage has this domain for the address; saved by an older version it may be spelled otherwise.\<close>

definition stored :: "cachefile \<Rightarrow> addr \<Rightarrow> string \<Rightarrow> bool" where
  "stored c a d \<longleftrightarrow> (\<exists>v. saved_table c a = Some v \<and> to_lower v = d)"

text \<open>The records the storage is to have: after a write also those it has written, without those it removed.\<close>

fun settled :: "holder \<Rightarrow> pid \<Rightarrow> pool \<Rightarrow> rid \<Rightarrow> bool" where
  "settled (Written j True) k p i \<longleftrightarrow>
     i \<in> set (changes_of k (j_written j)) \<or>
     \<not> r_dirty (p_heap p i) \<and> i \<notin> fst ` set (changes_of k (j_removals j))"
| "settled h k p i \<longleftrightarrow> \<not> r_dirty (p_heap p i)"

definition durable :: "conf \<Rightarrow> bool" where
  "durable f \<longleftrightarrow>
     (s_storage (f_store f) \<and> c_generation (f_file f) = s_generation (f_store f) \<and> f_holder f \<noteq> Resetting \<longrightarrow>
      (\<forall>k p i. pool_at (f_store f) k = Some p \<and> in_table p i \<and> \<not> held (p_heap p i) \<and>
         settled (f_holder f) k p i \<longrightarrow>
         stored (f_file f) (address p (r_offset (p_heap p i))) (r_domain (p_heap p i))))"

lemma durableI:
  assumes "\<And>k p i. s_storage (f_store f) \<Longrightarrow> c_generation (f_file f) = s_generation (f_store f) \<Longrightarrow>
      f_holder f \<noteq> Resetting \<Longrightarrow> pool_at (f_store f) k = Some p \<Longrightarrow> in_table p i \<Longrightarrow>
      \<not> held (p_heap p i) \<Longrightarrow> settled (f_holder f) k p i \<Longrightarrow>
      stored (f_file f) (address p (r_offset (p_heap p i))) (r_domain (p_heap p i))"
  shows "durable f"
  unfolding durable_def using assms by blast

lemma durableD:
  assumes "durable f" "s_storage (f_store f)" "c_generation (f_file f) = s_generation (f_store f)"
    "f_holder f \<noteq> Resetting" "pool_at (f_store f) k = Some p" "in_table p i" "\<not> held (p_heap p i)"
    "settled (f_holder f) k p i"
  shows "stored (f_file f) (address p (r_offset (p_heap p i))) (r_domain (p_heap p i))"
  using assms by (simp add: durable_def)

text \<open>What a job that is not written yet will write, compared with the table as it is by now.\<close>

definition job_ok :: "store \<Rightarrow> job \<Rightarrow> bool" where
  "job_ok s j \<longleftrightarrow> changes_ok (j_puts j) (j_deletes j) \<and>
     (\<forall>k p i. pool_at s k = Some p \<longrightarrow> in_table p i \<longrightarrow>
        (i \<in> set (changes_of k (j_written j)) \<longrightarrow>
           map_of (j_puts j) (address p (r_offset (p_heap p i))) = Some (r_domain (p_heap p i))) \<and>
        (\<not> r_dirty (p_heap p i) \<longrightarrow> map_of (j_puts j) (address p (r_offset (p_heap p i))) = None) \<and>
        (\<not> r_dirty (p_heap p i) \<longrightarrow> i \<notin> fst ` set (changes_of k (j_removals j)) \<longrightarrow>
           address p (r_offset (p_heap p i)) \<notin> set (j_deletes j)))"

text \<open>Queries and connections only add records that are to be saved.\<close>

definition grown :: "pool \<Rightarrow> pool \<Rightarrow> bool" where
  "grown p q \<longleftrightarrow> address q = address p \<and>
     (\<forall>i. in_table p i \<longrightarrow> in_table q i \<and> r_domain (p_heap q i) = r_domain (p_heap p i) \<and>
        r_offset (p_heap q i) = r_offset (p_heap p i) \<and> r_dirty (p_heap q i) = r_dirty (p_heap p i)) \<and>
     (\<forall>i. in_table q i \<and> \<not> in_table p i \<longrightarrow> r_dirty (p_heap q i))"

definition grows :: "store \<Rightarrow> store \<Rightarrow> bool" where
  "grows s t \<longleftrightarrow> s_storage t = s_storage s \<and> s_generation t = s_generation s \<and>
     (\<forall>k q. pool_at t k = Some q \<longrightarrow> (\<exists>p. pool_at s k = Some p \<and> grown p q))"

lemma grown_refl [simp]: "grown p p"
  by (simp add: grown_def)

lemma grows_refl [simp]: "grows s s"
  by (auto simp: grows_def)

lemma grows_touch: "grows s (touch now k i s)"
proof -
  have "grown p (upd_rec i (\<lambda>r. r\<lparr>r_lastUse := u\<rparr>) p)" for p u
    by (auto simp: grown_def in_table_def)
  then show ?thesis by (auto simp: grows_def touch_alt)
qed

lemma grows_allocate:
  assumes "store_inv s" "s_storage s" "allocate now gen k d s = Some (s', r)"
  shows "grows s s'"
proof (cases "pool_at s k")
  case None then show ?thesis using assms by (auto simp: allocate_def)
next
  case (Some p)
  have inv: "pool_inv p" using assms(1) Some by (rule store_invD)
  have g: "grows s (give_out now k d off ((alloc_step b ^^ n) p) s)" if "rec_at p off = None" for off b n
  proof -
    have q: "grown p q" if q: "pool_at (give_out now k d off ((alloc_step b ^^ n) p) s) k = Some q" for q
    proof -
      define r where "r = \<lparr>r_domain = d, r_offset = off, r_lastUse = snd (stamp now s), r_dirty = True,
        r_removing = False\<rparr>"
      have f: "p_byOffset q = AList.update off (p_fresh p) (p_byOffset p)" "p_heap q = (p_heap p)(p_fresh p := r)"
        "address q = address p"
        using q assms(2) unfolding give_out_pool by (auto simp: Let_def r_def)
      have old: "in_table p i \<Longrightarrow> i \<noteq> p_fresh p \<and> r_offset (p_heap p i) \<noteq> off" for i
        using pool_inv_rec(3) [OF inv] \<open>rec_at p off = None\<close> by (auto simp: in_table_def)
      have "in_table q i \<longleftrightarrow> i = p_fresh p \<or> in_table p i" for i
        using old [of i] by (auto simp: in_table_def f r_def split: if_splits)
      then show ?thesis using old by (auto simp: grown_def f r_def)
    qed
    let ?t = "give_out now k d off ((alloc_step b ^^ n) p) s"
    have "s_storage ?t = s_storage s" "s_generation ?t = s_generation s"
      by (simp_all add: give_out_def Let_def split_beta signal_def)
    moreover have "\<exists>p. pool_at s k' = Some p \<and> grown p q" if "pool_at ?t k' = Some q" for k' q
    proof (cases "k' = k")
      case True then show ?thesis using q that Some by auto
    next
      case False then show ?thesis using that by (auto simp: give_out_other)
    qed
    ultimately show ?thesis by (simp add: grows_def)
  qed
  have a: "grows s (set_pool k ((alloc_step b ^^ n) p) s)" for b n
    using Some by (auto simp: grows_def grown_def in_table_def)
  from Some show ?thesis
    by (rule allocate_cases [OF assms(1), of k p d now gen]) (use assms(3) g a grows_touch in auto)
qed

lemma grows_pool:
  assumes "grows s t" "pool_at t k = Some q"
  obtains p where "pool_at s k = Some p" "grown p q"
  using assms by (auto simp: grows_def)

lemma grown_old:
  assumes "grown p q" "in_table p i"
  shows "in_table q i" "r_domain (p_heap q i) = r_domain (p_heap p i)"
    "r_offset (p_heap q i) = r_offset (p_heap p i)" "r_dirty (p_heap q i) = r_dirty (p_heap p i)"
    "address q = address p"
  using assms by (simp_all add: grown_def)

lemma settled_cong: "r_dirty (p_heap q i) = r_dirty (p_heap p i) \<Longrightarrow> settled h k q i = settled h k p i"
  by (cases "(h, k, p, i)" rule: settled.cases) simp_all

lemma settled_dirty:
  assumes "store_books s h" "pool_at s k = Some p" "r_dirty (p_heap q i)" "settled h k q i"
  shows "in_table p i"
proof -
  have b: "books p (job_written h k) (job_removals h k)" using assms(1,2) by (rule store_booksD)
  have "i \<in> set (job_written h k)"
    using assms(3,4) by (cases "(h, k, q, i)" rule: settled.cases) simp_all
  then show ?thesis using booksD(7) [OF b] by simp
qed

lemma durable_grows:
  assumes "durable f" "conf_books f" "grows (f_store f) t"
  shows "durable (f\<lparr>f_store := t\<rparr>)"
proof (rule durableI, simp_all)
  fix k q i assume st: "s_storage t" "c_generation (f_file f) = s_generation t" "f_holder f \<noteq> Resetting"
    and q: "pool_at t k = Some q" and i: "in_table q i" "\<not> held (p_heap q i)" "settled (f_holder f) k q i"
  obtain p where p: "pool_at (f_store f) k = Some p" "grown p q" using assms(3) q by (rule grows_pool)
  have s: "s_storage (f_store f)" "c_generation (f_file f) = s_generation (f_store f)"
    using st assms(3) by (simp_all add: grows_def)
  have tp: "in_table p i"
  proof (rule ccontr)
    assume n: "\<not> in_table p i"
    then have "r_dirty (p_heap q i)" using p(2) i(1) by (simp add: grown_def)
    then show False using settled_dirty [OF _ p(1) _ i(3)] assms(2) n by (simp add: conf_books_def)
  qed
  note o = grown_old [OF p(2) tp]
  show "stored (f_file f) (address q (r_offset (p_heap q i))) (r_domain (p_heap q i))"
    using durableD [OF assms(1) s st(3) p(1) tp] i(2,3) settled_cong [OF o(4)] by (simp add: o held_def)
qed

lemma job_ok_grows:
  assumes "job_ok s j" "store_books s (Saving j)" "grows s t"
  shows "job_ok t j"
  unfolding job_ok_def
proof (intro conjI allI impI)
  show "changes_ok (j_puts j) (j_deletes j)" using assms(1) by (simp add: job_ok_def)
  fix k q i assume q: "pool_at t k = Some q" and i: "in_table q i"
  obtain p where p: "pool_at s k = Some p" "grown p q" using assms(3) q by (rule grows_pool)
  have b: "books p (changes_of k (j_written j)) (changes_of k (j_removals j))"
    using store_booksD [OF assms(2) p(1)] by simp
  {
    assume w: "i \<in> set (changes_of k (j_written j))"
    then have tp: "in_table p i" using booksD(7) [OF b] by blast
    show "map_of (j_puts j) (address q (r_offset (p_heap q i))) = Some (r_domain (p_heap q i))"
      using assms(1) p(1) tp w by (simp add: job_ok_def grown_old [OF p(2) tp])
  }
  assume d: "\<not> r_dirty (p_heap q i)"
  then have tp: "in_table p i" using p(2) i by (auto simp: grown_def)
  note o = grown_old [OF p(2) tp]
  show "map_of (j_puts j) (address q (r_offset (p_heap q i))) = None"
    using assms(1) p(1) tp d by (simp add: job_ok_def o)
  assume "i \<notin> fst ` set (changes_of k (j_removals j))"
  then show "address q (r_offset (p_heap q i)) \<notin> set (j_deletes j)"
    using assms(1) p(1) tp d by (simp add: job_ok_def o)
qed

lemma collected_fields:
  "address (pool_collected q now k p) = address p" "p_byOffset (pool_collected q now k p) = p_byOffset p"
  "r_domain (p_heap (pool_collected q now k p) i) = r_domain (p_heap p i)"
  "r_offset (p_heap (pool_collected q now k p) i) = r_offset (p_heap p i)"
  "r_dirty (p_heap (pool_collected q now k p) i) = r_dirty (p_heap p i)"
  by (simp_all add: pool_collected_def Let_def)

lemma job_ok_job_of:
  assumes ok: "store_ok s" and b: "store_books s Free" and tidy: "tidy_store s"
  shows "job_ok (fst (job_of q now s)) (snd (job_of q now s))"
  unfolding job_ok_def
proof (intro conjI allI impI)
  let ?j = "snd (job_of q now s)" and ?t = "fst (job_of q now s)"
  have puts: "(a, d) \<in> set (put_list q now s k) \<Longrightarrow> plain a" for a d k
    by (auto simp: put_list_mem plain_address)
  have mem: "fst ` set (j_puts ?j) \<subseteq> fst ` set (put_list q now s P6 @ put_list q now s P4)"
    using job_of_puts(1) [of q now s] by (metis dom_map_of_conv_image_fst order_refl domIff subsetI)
  show "changes_ok (j_puts ?j) (j_deletes ?j)"
    unfolding changes_ok_def
  proof (intro conjI ballI)
    fix a assume "a \<in> fst ` set (j_puts ?j)"
    then show "plain a" using mem puts by fastforce
  next
    show "distinct (map fst (j_puts ?j))" by (rule job_of_puts)
  next
    fix a assume "a \<in> set (j_deletes ?j)"
    then show "plain a" by (auto simp: job_of_puts delete_list_mem plain_address)
  qed
  fix k p' i assume p': "pool_at ?t k = Some p'" and i': "in_table p' i"
  then obtain p where p: "pool_at s k = Some p" "p' = pool_collected q now k p" by (auto simp: job_of_pools)
  have i: "in_table p i" using i' by (simp add: p collected_in_table)
  have w: "k2 = k \<and> i2 = i" if "pool_at s k2 = Some p2" "i2 \<in> set (pool_written q now k2 p2)"
    "address p (r_offset (p_heap p i)) = address p2 (r_offset (p_heap p2 i2))" for k2 p2 i2
  proof -
    have "in_table p2 i2" using that(2) by (simp add: pool_written_def Let_def pending_dirty_def in_table_def)
    from same_address [OF ok p(1) that(1) i this that(3)] show ?thesis by blast
  qed
  let ?a = "address p (r_offset (p_heap p i))"
  have lists: "(?a, d) \<in> set (put_list q now s k2) \<longleftrightarrow>
      k2 = k \<and> i \<in> set (pool_written q now k p) \<and> d = r_domain (p_heap p i)" for k2 d
    using w p(1) by (auto simp: put_list_mem)
  have look: "map_of (j_puts ?j) ?a =
      (if i \<in> set (pool_written q now k p) then Some (r_domain (p_heap p i)) else None)"
  proof (cases "map_of (put_list q now s P6 @ put_list q now s P4) ?a")
    case None
    then have "(?a, d) \<notin> set (put_list q now s k)" for d
      by (cases k) (force simp: map_of_eq_None_iff simp del: map_of_append)+
    then have "i \<notin> set (pool_written q now k p)" using lists by blast
    then show ?thesis using None by (simp only: job_of_puts if_False)
  next
    case (Some d)
    then have "(?a, d) \<in> set (put_list q now s P6) \<or> (?a, d) \<in> set (put_list q now s P4)"
      by (metis Un_iff map_of_SomeD set_append)
    then show ?thesis using Some lists by (auto simp: job_of_puts)
  qed
  have ch: "changes_of k (j_written ?j) = pool_written q now k p" "changes_of k (j_removals ?j) = pool_removals q now k p"
    using p(1) by (simp_all add: job_of_changes)
  show "i \<in> set (changes_of k (j_written ?j)) \<Longrightarrow>
      map_of (j_puts ?j) (address p' (r_offset (p_heap p' i))) = Some (r_domain (p_heap p' i))"
    using look by (simp add: ch p(2) collected_fields)
  assume d: "\<not> r_dirty (p_heap p' i)"
  then have nd: "\<not> r_dirty (p_heap p i)" by (simp add: p(2) collected_fields)
  then have "i \<notin> set (pool_written q now k p)" by (simp add: pool_written_def Let_def pending_dirty_def)
  then show "map_of (j_puts ?j) (address p' (r_offset (p_heap p' i))) = None"
    using look by (simp add: p(2) collected_fields)
  assume r: "i \<notin> fst ` set (changes_of k (j_removals ?j))"
  have "?a \<notin> set (delete_list q now s k2)" for k2
  proof
    assume "?a \<in> set (delete_list q now s k2)"
    then obtain p2 where p2: "pool_at s k2 = Some p2"
      and c: "(\<exists>i2 \<in> fst ` set (pool_removals q now k2 p2). ?a = address p2 (r_offset (p_heap p2 i2))) \<or>
        (\<exists>o' \<in> set (pool_gone q now k2 p2). ?a = address p2 o')" by (auto simp: delete_list_mem)
    from c show False
    proof
      assume "\<exists>i2 \<in> fst ` set (pool_removals q now k2 p2). ?a = address p2 (r_offset (p_heap p2 i2))"
      then obtain i2 where i2: "i2 \<in> fst ` set (pool_removals q now k2 p2)" "?a = address p2 (r_offset (p_heap p2 i2))"
        by blast
      then have "in_table p2 i2" by (auto simp: pool_removals_iff in_table_def)
      from same_address [OF ok p(1) p2 i this i2(2)] i2(1) r p2 p(1) show False by (simp add: ch)
    next
      assume "\<exists>o' \<in> set (pool_gone q now k2 p2). ?a = address p2 o'"
      then obtain o' where o': "o' \<in> set (pool_gone q now k2 p2)" "?a = address p2 o'" by blast
      then have n: "rec_at p2 o' = None" and f: "o' \<in> set (p_forgotten p2)" by (simp_all add: pool_gone_def)
      have "o' < p_end p2"
        using f tidy p2 ok by (auto simp: tidy_store_def tidy_pool_def store_ok_def store_inv_def pool_inv_def pool_static_def)
      from deleted_address [OF ok p(1) p2 i this o'(2)] n p2 p(1) show False by simp
    qed
  qed
  then show "address p' (r_offset (p_heap p' i)) \<notin> set (j_deletes ?j)"
    by (simp add: job_of_puts p(2) collected_fields)
qed

lemma durable_write:
  assumes "durable f" "f_holder f = Saving j" "job_ok (f_store f) j" "conf_books f" "tidy_store (f_store f)"
    "s_generation (f_store f) \<le> c_generation (f_file f)" "c_generation (f_file f) + 1 \<noteq> 0"
    "FakeIPSaveChanges t (j_puts j) (j_deletes j) (j_metadata j) (j_clean j) (f_file f) = (c', ok)"
  shows "durable (f\<lparr>f_file := c', f_holder := Written j ok\<rparr>)"
proof (rule durableI, simp_all)
  fix k p i assume st: "s_storage (f_store f)" and gen: "c_generation c' = s_generation (f_store f)"
    and p: "pool_at (f_store f) k = Some p" and i: "in_table p i" "\<not> held (p_heap p i)"
    and settled: "settled (Written j ok) k p i"
  let ?a = "address p (r_offset (p_heap p i))" and ?d = "r_domain (p_heap p i)"
  have gen': "c_generation c' = c_generation (f_file f)"
    using assms(8)
  proof (rule FakeIPSaveChanges_cases)
    assume "c_generation c' = c_generation (f_file f) + 1"
    then show ?thesis using gen assms(6) word_less_inc [OF assms(7)] by simp
  qed simp_all
  have ch: "changes_ok (j_puts j) (j_deletes j)" using assms(3) by (simp add: job_ok_def)
  have low: "to_lower ?d = ?d" using assms(5) p by (simp add: tidy_store_def tidy_pool_def)
  have jo: "i \<in> set (changes_of k (j_written j)) \<longrightarrow> map_of (j_puts j) ?a = Some ?d"
    "\<not> r_dirty (p_heap p i) \<longrightarrow> map_of (j_puts j) ?a = None"
    "\<not> r_dirty (p_heap p i) \<longrightarrow> i \<notin> fst ` set (changes_of k (j_removals j)) \<longrightarrow> ?a \<notin> set (j_deletes j)"
    using assms(3) p i(1) unfolding job_ok_def by blast+
  have old: "stored (f_file f) ?a ?d" if "\<not> r_dirty (p_heap p i)"
    using durableD [OF assms(1) st _ _ p i] gen gen' assms(2) that by simp
  show "stored c' ?a ?d"
  proof (cases "ok \<and> i \<in> set (changes_of k (j_written j))")
    case True
    then show ?thesis using cache.put_new [OF _ ch, of t _ _ "f_file f" c' ?a ?d] assms(8) jo(1) low
      by (simp add: stored_def)
  next
    case False
    then have nd: "\<not> r_dirty (p_heap p i)" and nr: "ok \<Longrightarrow> i \<notin> fst ` set (changes_of k (j_removals j))"
      using settled by (cases ok; simp)+
    have "saved_table c' ?a = saved_table (f_file f) ?a"
      using assms(8) ch plain_address gen' by (rule cache.put_kept) (use jo nd nr in auto)
    then show ?thesis using old [OF nd] by (simp add: stored_def)
  qed
qed

lemma saved_heap:
  assumes "books p (changes_of k (j_written j)) (changes_of k (j_removals j))" "in_table (pool_saved j k p) i"
  shows "in_table p i" "\<not> r_dirty (p_heap (pool_saved j k p) i) \<Longrightarrow> settled (Written j True) k p i"
    "r_offset (p_heap (pool_saved j k p) i) = r_offset (p_heap p i)"
proof -
  let ?ws = "changes_of k (j_written j)" and ?rs = "changes_of k (j_removals j)"
  let ?m = "(mark_saved ?ws p)\<lparr>p_forgotten := []\<rparr>"
  have ok: "removals_ok ?m ?rs"
    using booksD(1) [OF assms(1)] by (simp add: removals_ok_def in_table_def)
  show off: "r_offset (p_heap (pool_saved j k p) i) = r_offset (p_heap p i)" by (simp add: pool_saved_def)
  have at: "rec_at (pool_saved j k p) (r_offset (p_heap p i)) = Some i" using assms(2) off by (simp add: in_table_def)
  then show "in_table p i"
    unfolding books_saved(2) [OF assms(1)] by (auto simp: in_table_def split: option.splits if_splits)
  have nu: "\<not> unused p ?rs i"
    using at unfolding books_saved(2) [OF assms(1)] by (auto split: option.splits if_splits)
  have h: "p_heap (pool_saved j k p) i = (if i \<in> fst ` set ?rs then (p_heap ?m i)\<lparr>r_removing := False,
         r_dirty := r_dirty (p_heap ?m i) \<or> \<not> unused ?m ?rs i\<rparr> else p_heap ?m i)"
    using remove_all_saved_heap [OF ok, of i] by (simp only: pool_saved_def take_reserve_fields)
  have "unused ?m ?rs i = unused p ?rs i" by (simp add: unused_def)
  then show "\<not> r_dirty (p_heap (pool_saved j k p) i) \<Longrightarrow> settled (Written j True) k p i"
    using nu unfolding h by (auto split: if_splits)
qed

lemma failed_heap:
  assumes "books p (changes_of k (j_written j)) (changes_of k (j_removals j))" "in_table (pool_failed j k p) i"
  shows "in_table p i" "r_dirty (p_heap (pool_failed j k p) i) = r_dirty (p_heap p i)"
    "r_offset (p_heap (pool_failed j k p) i) = r_offset (p_heap p i)"
proof -
  let ?rs = "changes_of k (j_removals j)"
  let ?m = "unmark ?rs (p\<lparr>p_dirty := p_dirty p @ changes_of k (j_written j)\<rparr>)"
  have ok: "removals_ok ?m ?rs" using booksD(1) [OF assms(1)] by (simp add: removals_ok_def in_table_def)
  show f: "r_dirty (p_heap (pool_failed j k p) i) = r_dirty (p_heap p i)"
    "r_offset (p_heap (pool_failed j k p) i) = r_offset (p_heap p i)" by (simp_all add: pool_failed_def Let_def)
  have "rec_at (forget_all ?rs ?m) o' = Some i \<Longrightarrow> rec_at p o' = Some i" for o'
    unfolding forget_all_lookup [OF ok] by (auto split: option.splits if_splits)
  then show "in_table p i" using assms(2) f(2)
    by (auto simp: in_table_def pool_failed_def Let_def split: if_splits)
qed

lemma address_saved [simp]: "address (pool_saved j k p) = address p"
  by (simp add: pool_saved_def)

lemma address_failed [simp]: "address (pool_failed j k p) = address p"
  by (simp add: pool_failed_def Let_def)

lemma held_saved [simp]: "held (p_heap (pool_saved j k p) i) = held (p_heap p i)"
  "held (p_heap (pool_failed j k p) i) = held (p_heap p i)"
  by (simp_all add: held_def pool_saved_def pool_failed_def Let_def)

lemma domain_commit [simp]: "r_domain (p_heap (pool_saved j k p) i) = r_domain (p_heap p i)"
  "r_domain (p_heap (pool_failed j k p) i) = r_domain (p_heap p i)"
  by (simp_all add: pool_saved_def pool_failed_def Let_def)

lemma durable_commit:
  assumes "durable f" "conf_books f" "f_holder f = Written j ok"
  shows "durable (f\<lparr>f_store := save_commit ok j (f_store f), f_holder := Free\<rparr>)"
proof (rule durableI, simp_all)
  fix k p' i assume st: "s_storage (f_store f)" "c_generation (f_file f) = s_generation (f_store f)"
    and p': "pool_at (save_commit ok j (f_store f)) k = Some p'"
    and i: "in_table p' i" "\<not> held (p_heap p' i)" "\<not> r_dirty (p_heap p' i)"
  obtain p where p: "pool_at (f_store f) k = Some p" "p' = (if ok then pool_saved j k p else pool_failed j k p)"
    using p' by (auto simp: pool_at_save_commit)
  have b: "books p (changes_of k (j_written j)) (changes_of k (j_removals j))"
    using assms(2,3) store_booksD [OF _ p(1), of "f_holder f"] by (simp add: conf_books_def)
  have h: "f_holder f \<noteq> Resetting" using assms(3) by simp
  show "stored (f_file f) (address p' (r_offset (p_heap p' i))) (r_domain (p_heap p' i))"
  proof (cases ok)
    case True
    then have q: "p' = pool_saved j k p" using p(2) by simp
    note sh = saved_heap [OF b i(1) [unfolded q]]
    show ?thesis using durableD [OF assms(1) st h p(1) sh(1)] sh(2) i True
      by (simp add: q sh(3) assms(3))
  next
    case False
    then have q: "p' = pool_failed j k p" using p(2) by simp
    note fh = failed_heap [OF b i(1) [unfolded q]]
    show ?thesis using durableD [OF assms(1) st h p(1) fh(1)] i False
      by (simp add: q fh(2,3) assms(3))
  qed
qed

end
