(* ===== verification/FakeIP_Restart.thy ===== *)
theory FakeIP_Restart
  imports FakeIP_Durable FakeIP_Live
begin

text \<open>
  What a start reads from the cache file is what the file has, so that the storage agrees with the
  memory in every reachable state; and what the file has is found again after a restart.
\<close>

section \<open>Loading\<close>

lemma as_slice_from_slice: "addr_from_slice key \<noteq> NoAddr \<Longrightarrow> as_slice (addr_from_slice key) = key"
  by (auto simp: addr_from_slice_def be32_of_be32 be64_of_be64 split: if_splits)

text \<open>
  While the table is read, every record of a range is there because the bucket says so: the key of
  its address has a value that is its domain, and it is not one of the refused keys.
\<close>

definition loaded_from :: "bucket \<Rightarrow> bytes list \<Rightarrow> store \<Rightarrow> bool" where
  "loaded_from b refused s \<longleftrightarrow> (\<forall>k p i. pool_at s k = Some p \<and> in_table p i \<longrightarrow>
     as_slice (address p (r_offset (p_heap p i))) \<notin> set refused \<and>
     (\<exists>v. (as_slice (address p (r_offset (p_heap p i))), v) \<in> set b \<and>
        to_lower (bytes_str v) = r_domain (p_heap p i)))"

definition all_loading :: "store \<Rightarrow> bool" where
  "all_loading s \<longleftrightarrow> (\<forall>k p. pool_at s k = Some p \<longrightarrow> loading p)"

lemma all_loading_load_record: "all_loading s \<Longrightarrow> all_loading (fst (load_record s a d))"
  using load_record_loading unfolding all_loading_def by blast

lemma loaded_from_mono:
  "loaded_from b refused s \<Longrightarrow> set b \<subseteq> set b' \<Longrightarrow> loaded_from b' refused s"
  unfolding loaded_from_def by blast

lemma loaded_from_refuse:
  "loaded_from b refused s \<Longrightarrow> key \<notin> fst ` set b \<Longrightarrow> loaded_from b (refused @ [key]) s"
  unfolding loaded_from_def by force

lemma put_rec_in_table:
  assumes "pool_inv p" "in_table (put_rec r p) i"
  shows "i = p_fresh p \<or> in_table p i \<and> p_heap (put_rec r p) i = p_heap p i"
  using assms pool_inv_rec(3) [OF assms(1)]
  by (auto simp: in_table_def put_rec_def Let_def split: if_splits)

lemma loaded_from_load_record:
  assumes "loaded_from b refused s" "all_loading s" "addr_from_slice key \<noteq> NoAddr"
    "load_record s (addr_from_slice key) (bytes_str v) = (s', True)" "key \<notin> set refused"
  shows "loaded_from (b @ [(key, v)]) refused s'"
proof (cases rule: load_record_cases [of s "addr_from_slice key" "bytes_str v"])
  case refused then show ?thesis using assms(4) by simp
next
  case (taken k p off)
  let ?r = "\<lparr>r_domain = to_lower (bytes_str v), r_offset = off, r_lastUse = 0, r_dirty = False, r_removing = False\<rparr>"
  have s': "s' = set_pool k (put_rec ?r p) s" using taken(6) assms(4) by simp
  have inv: "pool_inv p" using assms(2) taken(2) by (simp add: all_loading_def loading_def)
  then have "pool_static p" by (simp add: pool_inv_def)
  then have key: "as_slice (address p off) = key"
    using address_of_offset taken(3) as_slice_from_slice [OF assms(3)] by metis
  show ?thesis unfolding loaded_from_def
  proof (intro allI impI, elim conjE)
    fix k' q i assume q: "pool_at s' k' = Some q" and i: "in_table q i"
    show "as_slice (address q (r_offset (p_heap q i))) \<notin> set refused \<and>
      (\<exists>w. (as_slice (address q (r_offset (p_heap q i))), w) \<in> set (b @ [(key, v)]) \<and>
        to_lower (bytes_str w) = r_domain (p_heap q i))"
    proof (cases "k' = k")
      case False
      then show ?thesis using assms(1) q i s' unfolding loaded_from_def by fastforce
    next
      case True
      then have qp: "q = put_rec ?r p" using q s' by simp
      have a: "address q = address p" by (simp add: qp)
      from put_rec_in_table [OF inv i [unfolded qp]] show ?thesis
      proof
        assume "i = p_fresh p"
        then have "p_heap q i = ?r" by (simp add: qp put_rec_def Let_def)
        then show ?thesis using key assms(5) by (auto simp: a)
      next
        assume "in_table p i \<and> p_heap (put_rec ?r p) i = p_heap p i"
        then have "in_table p i" "p_heap q i = p_heap p i" by (simp_all add: qp)
        then show ?thesis using assms(1) taken(2) unfolding loaded_from_def a by force
      qed
    qed
  qed
qed

lemma load_records_from:
  assumes "loaded_from b refused s" "all_loading s" "set refused \<subseteq> fst ` set b" "distinct (map fst (b @ es))"
    "load_records load_record es s refused = (s', refused')"
  shows "loaded_from (b @ es) refused' s'"
  using assms
proof (induction es arbitrary: b refused s)
  case Nil then show ?case by simp
next
  case (Cons e es)
  obtain key v where e: "e = (key, v)" by (cases e)
  have new: "key \<notin> fst ` set b" "key \<notin> set refused" using Cons.prems(3,4) e by auto
  have d: "distinct (map fst ((b @ [e]) @ es))" using Cons.prems(4) by simp
  have mono: "loaded_from (b @ [e]) r s" if "loaded_from b r s" for r s
    using that by (rule loaded_from_mono) auto
  have goal: ?case if "loaded_from (b @ [e]) r t" "all_loading t" "set r \<subseteq> fst ` set (b @ [e])"
    "load_records load_record es t r = (s', refused')" for t r
    using Cons.IH [OF that(1,2,3) d that(4)] by simp
  consider "key = keyMetadata" | "key \<noteq> keyMetadata" "addr_from_slice key = NoAddr"
    | "key \<noteq> keyMetadata" "addr_from_slice key \<noteq> NoAddr" by blast
  then show ?case
  proof cases
    case 1
    then show ?thesis using Cons.prems mono by (intro goal [of refused s]) (auto simp: e)
  next
    case 2
    then show ?thesis using Cons.prems new
      by (intro goal [of "refused @ [key]" s] mono loaded_from_refuse) (auto simp: e)
  next
    case 3
    obtain t ok where t: "load_record s (addr_from_slice key) (bytes_str v) = (t, ok)"
      by (cases "load_record s (addr_from_slice key) (bytes_str v)")
    have lt: "all_loading t" using all_loading_load_record [OF Cons.prems(2)] t by (metis fst_conv)
    show ?thesis
    proof (cases ok)
      case True
      then show ?thesis using Cons.prems 3 t new lt
        by (intro goal [of refused t]) (auto simp: e intro: loaded_from_load_record)
    next
      case False
      then have "t = s" using t
        by (cases rule: load_record_cases [of s "addr_from_slice key" "bytes_str v"]) simp_all
      then show ?thesis using Cons.prems 3 t new lt False
        by (intro goal [of "refused @ [key]" t] mono loaded_from_refuse) (auto simp: e)
    qed
  qed
qed

lemma restore_pool_table:
  assumes "loading p" "in_table (restore_pool m clean s k p) i" "\<not> held (p_heap (restore_pool m clean s k p) i)"
  shows "in_table p i" "r_domain (p_heap (restore_pool m clean s k p) i) = r_domain (p_heap p i)"
    "r_offset (p_heap (restore_pool m clean s k p) i) = r_offset (p_heap p i)"
proof -
  obtain q l where r: "restore p (saved_current m s k) (s_startTick s - 1) = (q, l)"
    by (cases "restore p (saved_current m s k) (s_startTick s - 1)")
  note ok = restore_ok [OF assms(1) r]
  have same: "in_table q i' \<longleftrightarrow> in_table p i'" for i' using ok(2,4) by (simp add: in_table_def)
  let ?q = "restore_pool m clean s k p"
  have "in_table p i \<and> p_heap ?q i = p_heap q i"
  proof (cases "?q = q")
    case True then show ?thesis using assms(2) same by simp
  next
    case False
    then obtain o' u where l: "l = Some o'" and h: "?q = hold o' u q"
      using r by (simp add: restore_pool_def split: option.splits if_splits)
    have "o' < p_end q" using l ok(6,13) restore_next_in_range by simp
    then have x: "extends q ?q" using hold_extends [OF ok(1)] h by simp
    have at: "rec_at ?q (r_offset (p_heap ?q i)) = Some i" using assms(2) by (simp add: in_table_def)
    then have "rec_at q (r_offset (p_heap ?q i)) = Some i"
      using x assms(3) unfolding extends_def by (metis not_None_eq option.inject)
    moreover from this have "p_heap ?q i = p_heap q i"
      using x pool_inv_rec(3) [OF ok(1)] unfolding extends_def by blast
    ultimately show ?thesis using same by (simp add: in_table_def)
  qed
  then show "in_table p i" "r_domain (p_heap ?q i) = r_domain (p_heap p i)"
    "r_offset (p_heap ?q i) = r_offset (p_heap p i)" using ok(3,4) by simp_all
qed

lemma address_hold [simp]: "address (hold l u p) = address p"
proof -
  have "address (hold_one l u b q) = address q" for b q
    by (simp add: hold_one_def Let_def)
  then have "address (fold (hold_one l u) bs q) = address q" for bs q
    by (induction bs arbitrary: q) simp_all
  then show ?thesis by (simp add: hold_def)
qed

lemma address_restore_pool [simp]: "loading p \<Longrightarrow> address (restore_pool m clean s k p) = address p"
proof -
  assume "loading p"
  then have "address (fst (restore p c t)) = address p" for c t
    by (rule restore_ok(12) [of p c t _ "snd (restore p c t)"]) simp
  then show ?thesis by (simp add: restore_pool_def split_beta split: option.split)
qed

lemma LoadTable_cases:
  assumes "FakeIPLoadTable t1 n t2 ld s c = (c', s', m, clean, ok)" "c_generation c' = c_generation c"
    "s' \<noteq> s" "c_generation c + 1 \<noteq> c_generation c"
  obtains refused where "load_records ld (bucket_of (bucketFakeIP (c_db c))) s [] = (s', refused)"
    "update_tx t2 (\<lambda>d. d\<lparr>bucketFakeIPDomain4 := None, bucketFakeIPDomain6 := None,
       bucketFakeIP := map_option (delete_keys (refused @ [keyMetadata])) (bucketFakeIP d)\<rparr>) c = (c', ok)"
proof -
  note eq0 = assms(1) [unfolded FakeIPLoadTable_def Let_def]
  have o: "\<not> (\<not> c_open c \<or> fst t1 = Fail)"
  proof
    assume "\<not> c_open c \<or> fst t1 = Fail"
    from eq0 [unfolded if_P [OF this]] assms(3) show False by simp
  qed
  obtain mc where p0: "load_position (c_db c) = Some mc"
  proof (cases "load_position (c_db c)")
    case None
    from eq0 [unfolded if_not_P [OF o] None option.case] assms(3) show thesis by simp
  qed blast
  obtain m' clean' where p: "load_position (c_db c) = Some (m', clean')" using p0 by (cases mc) simp
  note eq = eq0 [unfolded if_not_P [OF o] p option.case prod.case]
  have np: "fst t1 \<noteq> Panic"
  proof
    assume "fst t1 = Panic"
    from eq [unfolded if_P [OF this]] have "c' = resetDB (snd t1) c" by simp
    then show False using assms(2,4) by (simp add: resetDB_def)
  qed
  obtain x refused where l: "load_records ld (bucket_of (bucketFakeIP (c_db c))) s [] = (x, refused)"
    by (cases "load_records ld (bucket_of (bucketFakeIP (c_db c))) s []")
  obtain c2 ok2 where u: "update_tx t2 (\<lambda>d. d\<lparr>bucketFakeIPDomain4 := None, bucketFakeIPDomain6 := None,
       bucketFakeIP := map_option (delete_keys (refused @ [keyMetadata])) (bucketFakeIP d)\<rparr>) c = (c2, ok2)"
    by (cases "update_tx t2 (\<lambda>d. d\<lparr>bucketFakeIPDomain4 := None, bucketFakeIPDomain6 := None,
       bucketFakeIP := map_option (delete_keys (refused @ [keyMetadata])) (bucketFakeIP d)\<rparr>) c")
  have "c' = c2" "ok = ok2" "s' = x" using eq [unfolded if_not_P [OF np] l prod.case u] by simp_all
  then show ?thesis using that l u by simp
qed

text \<open>The file after a start, if it was not recreated meanwhile.\<close>

lemma LoadTable_stored:
  assumes "FakeIPLoadTable t1 n t2 load_record s c = (c', s', m, clean, ok)" "c_generation c' = c_generation c"
    "c_generation c + 1 \<noteq> 0" "all_loading s" "\<And>k p. pool_at s k = Some p \<Longrightarrow> p_byOffset p = []"
    "distinct (map fst (bucket_of (bucketFakeIP (c_db c))))"
    "pool_at s' k = Some p" "in_table p i"
  shows "stored c' (address p (r_offset (p_heap p i))) (r_domain (p_heap p i))"
proof -
  let ?b = "bucket_of (bucketFakeIP (c_db c))"
  have g: "c_generation c + 1 \<noteq> c_generation c" by simp
  have ne: "s' \<noteq> s"
  proof
    assume "s' = s"
    then have "p_byOffset p = []" using assms(5,7) by simp
    then show False using assms(8) by (simp add: in_table_def)
  qed
  obtain refused where l: "load_records load_record ?b s [] = (s', refused)"
    and c': "update_tx t2 (\<lambda>d. d\<lparr>bucketFakeIPDomain4 := None, bucketFakeIPDomain6 := None,
       bucketFakeIP := map_option (delete_keys (refused @ [keyMetadata])) (bucketFakeIP d)\<rparr>) c = (c', ok)"
    using assms(1,2) ne g by (rule LoadTable_cases)
  have c': "c' = c\<lparr>c_db := (c_db c)\<lparr>
       bucketFakeIPDomain4 := None, bucketFakeIPDomain6 := None,
       bucketFakeIP := map_option (delete_keys (refused @ [keyMetadata])) (bucketFakeIP (c_db c))\<rparr>\<rparr> \<or> c' = c"
  proof (cases "c_open c \<and> fst t2 = Panic")
    case True
    then have "c_generation c' = c_generation c + 1" using c' by (auto simp: update_tx_def resetDB_def)
    then show ?thesis using assms(2) by simp
  next
    case False
    then show ?thesis using c' by (cases "c_open c"; cases "fst t2") (simp_all add: update_tx_def)
  qed
  have "loaded_from [] [] s" unfolding loaded_from_def
  proof (intro allI impI, elim conjE)
    fix k p i assume "pool_at s k = Some p" "in_table p i"
    then show "as_slice (address p (r_offset (p_heap p i))) \<notin> set [] \<and>
      (\<exists>v. (as_slice (address p (r_offset (p_heap p i))), v) \<in> set [] \<and> to_lower (bytes_str v) = r_domain (p_heap p i))"
      using assms(5) [of k p] by (simp add: in_table_def)
  qed
  from load_records_from [OF this assms(4) _ _ l] have "loaded_from ?b refused s'" using assms(6) by simp
  then obtain v where v: "as_slice (address p (r_offset (p_heap p i))) \<notin> set refused"
    "(as_slice (address p (r_offset (p_heap p i))), v) \<in> set ?b" "to_lower (bytes_str v) = r_domain (p_heap p i)"
    using assms(7,8) unfolding loaded_from_def by blast
  let ?k = "as_slice (address p (r_offset (p_heap p i)))"
  have m: "map_of ?b ?k = Some v" using assms(6) v(2) by simp
  have "?k \<noteq> keyMetadata" using plain_address as_slice_keyMetadata by blast
  then have "map_of (delete_keys (refused @ [keyMetadata]) ?b) ?k = Some v"
    using v(1) m by (simp add: map_of_delete_keys)
  then have "saved_table c' (address p (r_offset (p_heap p i))) = Some (bytes_str v)"
    using c' m plain_address [of p]
    by (cases "bucketFakeIP (c_db c)") (auto simp: saved_table_def bucket_of_def plain_def)
  then show ?thesis using v(3) by (simp add: stored_def)
qed

section \<open>A restart\<close>

text \<open>The record of an address, as a connection finds it.\<close>

definition recorded :: "store \<Rightarrow> addr \<Rightarrow> string \<Rightarrow> bool" where
  "recorded s a d \<longleftrightarrow> (\<exists>k p off i. poolOf s a = Some k \<and> pool_at s k = Some p \<and> offset_of p a = Some off \<and>
     rec_at p off = Some i \<and> r_domain (p_heap p i) = d)"

text \<open>The table of the store takes the address.\<close>

definition takes :: "store \<Rightarrow> addr \<Rightarrow> bool" where
  "takes s a \<longleftrightarrow> (\<exists>k p off. poolOf s a = Some k \<and> pool_at s k = Some p \<and> offset_of p a = Some off \<and> p_first p \<le> off)"

lemma poolOf_prefix: "prefix_of s = prefix_of t \<Longrightarrow> poolOf s a = poolOf t a"
proof -
  assume "prefix_of s = prefix_of t"
  then have "map_option p_prefix (s_pool4 s) = map_option p_prefix (s_pool4 t)"
    "map_option p_prefix (s_pool6 s) = map_option p_prefix (s_pool6 t)"
    unfolding prefix_of_def by (metis pool_at.simps)+
  then show ?thesis by (cases "s_pool4 s"; cases "s_pool4 t"; cases "s_pool6 s"; cases "s_pool6 t") (simp_all add: poolOf_def)
qed

lemma found_Lookup: "recorded s a d \<Longrightarrow> d \<noteq> [] \<Longrightarrow> snd (Lookup now a s) = Some d"
  by (auto simp: recorded_def Lookup_def held_def)

lemma takes_load_record: "takes s a \<Longrightarrow> takes (fst (load_record s b d)) a"
proof (cases rule: load_record_cases [of s b d])
  case (taken k p off)
  assume "takes s a"
  moreover have "poolOf (fst (load_record s b d)) a = poolOf s a"
    by (rule poolOf_prefix) (rule prefix_of_load_record)
  ultimately show ?thesis unfolding takes_def taken(6) fst_conv
    by (metis (no_types, lifting) taken(2) option.inject pool_at_set_pool put_rec_fields)
qed simp

lemma found_load_record:
  assumes "takes s a" "d \<noteq> []"
  shows "snd (load_record s a d)" "recorded (fst (load_record s a d)) a (to_lower d)"
proof -
  obtain k p off where t: "poolOf s a = Some k" "pool_at s k = Some p" "offset_of p a = Some off" "p_first p \<le> off"
    using assms(1) by (auto simp: takes_def)
  let ?q = "put_rec \<lparr>r_domain = to_lower d, r_offset = off, r_lastUse = 0, r_dirty = False, r_removing = False\<rparr> p"
  have l: "load_record s a d = (set_pool k ?q s, True)" using t assms(2) by (simp add: load_record_def)
  show "snd (load_record s a d)" by (simp add: l)
  have "poolOf (set_pool k ?q s) a = Some k"
    using poolOf_prefix [of "set_pool k ?q s" s] prefix_of_set_pool [OF t(2)] t(1) by simp
  moreover have "rec_at ?q off = Some (p_fresh p)" "r_domain (p_heap ?q (p_fresh p)) = to_lower d"
    by (simp_all add: put_rec_def Let_def)
  ultimately show "recorded (fst (load_record s a d)) a (to_lower d)"
    using t(3) unfolding recorded_def l by force
qed

lemma found_other:
  assumes "recorded s a d" "all_loading s" "b \<noteq> a"
  shows "recorded (fst (load_record s b d')) a d"
proof (cases rule: load_record_cases [of s b d'])
  case refused then show ?thesis using assms(1) by simp
next
  case (taken k p off)
  obtain k2 p2 o2 i where f: "poolOf s a = Some k2" "pool_at s k2 = Some p2" "offset_of p2 a = Some o2"
    "rec_at p2 o2 = Some i" "r_domain (p_heap p2 i) = d" using assms(1) by (auto simp: recorded_def)
  let ?q = "put_rec \<lparr>r_domain = to_lower d', r_offset = off, r_lastUse = 0, r_dirty = False, r_removing = False\<rparr> p"
  have po: "poolOf (set_pool k ?q s) a = Some k2"
    using poolOf_prefix [of "set_pool k ?q s" s] prefix_of_set_pool [OF taken(2)] f(1) by simp
  show ?thesis
  proof (cases "k2 = k")
    case False then show ?thesis using po f unfolding recorded_def taken(6) by auto
  next
    case True
    then have p2: "p2 = p" using f(2) taken(2) by simp
    have inv: "pool_inv p" using assms(2) taken(2) by (simp add: all_loading_def loading_def)
    then have st: "pool_static p" by (simp add: pool_inv_def)
    have "off \<noteq> o2"
      using address_of_offset [OF st taken(3)] address_of_offset [OF st f(3) [unfolded p2]] assms(3) by auto
    moreover have "i \<noteq> p_fresh p" using pool_inv_rec(3) [OF inv] f(4) p2 by blast
    ultimately have "rec_at ?q o2 = Some i" "p_heap ?q i = p_heap p i"
      using f(4) by (simp_all add: put_rec_def Let_def p2)
    then show ?thesis using po f(3,5) True unfolding recorded_def taken(6) p2 by force
  qed
qed

lemma load_records_found:
  assumes "(key, v) \<in> set es" "distinct (map fst es)" "addr_from_slice key = a" "a \<noteq> NoAddr" "bytes_str v \<noteq> []"
    "takes s a" "all_loading s"
  shows "recorded (fst (load_records load_record es s refused)) a (to_lower (bytes_str v))"
proof -
  have keep: "recorded (fst (load_records load_record es s refused)) a d"
    if "recorded s a d" "all_loading s" "key \<notin> fst ` set es" for s es refused d
    using that
  proof (induction es arbitrary: s refused)
    case (Cons e es)
    obtain key' v' where e: "e = (key', v')" by (cases e)
    have "addr_from_slice key' \<noteq> a" if "addr_from_slice key' \<noteq> NoAddr"
      using as_slice_from_slice [OF that] as_slice_from_slice [of key] assms(3,4) Cons.prems(3) e by auto
    then show ?case using Cons found_other [OF Cons.prems(1,2)] all_loading_load_record [OF Cons.prems(2)]
      by (simp add: e Let_def split_beta)
  qed simp
  have meta: "key \<noteq> keyMetadata" using as_slice_from_slice [of key] as_slice_keyMetadata assms(3,4) by metis
  show ?thesis using assms
  proof (induction es arbitrary: s refused)
    case (Cons e es)
    obtain key' v' where e: "e = (key', v')" by (cases e)
    show ?case
    proof (cases "e = (key, v)")
      case True
      then have n: "key \<notin> fst ` set es" using Cons.prems(2) by auto
      show ?thesis using True keep [OF found_load_record(2) all_loading_load_record n] Cons.prems(3-7) meta
        by (simp add: Let_def split_beta)
    next
      case False
      then have "(key, v) \<in> set es" "distinct (map fst es)" using Cons.prems(1,2) by auto
      then show ?thesis using Cons.IH [OF _ _ Cons.prems(3-5)] Cons.prems(6,7) takes_load_record all_loading_load_record
        by (simp add: e Let_def split_beta)
    qed
  qed simp
qed

lemma restore_pool_keeps:
  assumes "loading p" "rec_at p off = Some i"
  shows "rec_at (restore_pool m clean s k p) off = Some i"
    "r_domain (p_heap (restore_pool m clean s k p) i) = r_domain (p_heap p i)"
proof -
  obtain q l where r: "restore p (saved_current m s k) (s_startTick s - 1) = (q, l)"
    by (cases "restore p (saved_current m s k) (s_startTick s - 1)")
  note ok = restore_ok [OF assms(1) r]
  have at: "rec_at q off = Some i" using assms(2) ok(2) by simp
  let ?q = "restore_pool m clean s k p"
  have "rec_at ?q off = Some i \<and> p_heap ?q i = p_heap q i"
  proof (cases "?q = q")
    case True then show ?thesis using at by simp
  next
    case False
    then obtain o' u where l: "l = Some o'" and h: "?q = hold o' u q"
      using r by (simp add: restore_pool_def split: option.splits if_splits)
    have "o' < p_end q" using l ok(6,13) restore_next_in_range by simp
    then have x: "extends q ?q" using hold_extends [OF ok(1)] h by simp
    then show ?thesis using at pool_inv_rec(3) [OF ok(1) at] by (simp add: extends_def)
  qed
  then show "rec_at ?q off = Some i" "r_domain (p_heap ?q i) = r_domain (p_heap p i)" using ok(3) by simp_all
qed

lemma found_restore_pools:
  assumes "recorded s a d" "all_loading s"
  shows "recorded (restore_pools m clean s) a d"
proof -
  obtain k p off i where f: "poolOf s a = Some k" "pool_at s k = Some p" "offset_of p a = Some off"
    "rec_at p off = Some i" "r_domain (p_heap p i) = d" using assms(1) by (auto simp: recorded_def)
  have l: "loading p" using assms(2) f(2) by (simp add: all_loading_def)
  let ?q = "restore_pool m clean s k p"
  have q: "pool_at (restore_pools m clean s) k = Some ?q"
    using f(2) by (simp add: restore_pools_def pool_at_all_pools)
  note r = restore_pool_keeps [OF l f(4), of m clean s k]
  have inv: "pool_inv ?q" using l by (rule restore_pool_inv)
  then have st: "pool_static ?q" by (simp add: pool_inv_def)
  have stp: "pool_static p" using l by (simp add: loading_def pool_inv_def)
  have "off < p_end ?q" using pool_inv_rec(1) [OF inv r(1)] by (simp add: in_ring_def)
  then have "offset_of ?q a = Some off"
    using offset_of_address [OF st, of off] address_of_offset [OF stp f(3)] l by auto
  moreover have "poolOf (restore_pools m clean s) a = Some k"
    using poolOf_prefix [of "restore_pools m clean s" s] f(1) by (simp add: prefix_of_ops)
  ultimately show ?thesis using q r f(5) unfolding recorded_def by blast
qed

text \<open>What the file has for an address of the ranges is what the started store has for it.\<close>

lemma restart_found:
  assumes "ranges_ok r4 r6" "start_error (NewStore r4 r6) = None"
    "distinct (map fst (bucket_of (bucketFakeIP (c_db c))))" "c_open c" "load_position (c_db c) \<noteq> None"
    "saved_table c a = Some v" "v \<noteq> []" "without_zone a = a" "takes (NewStore r4 r6) a"
  shows "recorded (y_store (load_table (Commit, x) n t2 (NewStore r4 r6) c)) a (to_lower v)"
proof -
  let ?s1 = "(NewStore r4 r6)\<lparr>s_storage := True, s_generation := FakeIPGeneration c\<rparr>"
  let ?b = "bucket_of (bucketFakeIP (c_db c))"
  obtain c' s2 m clean ok where l: "FakeIPLoadTable (Commit, x) n t2 load_record ?s1 c = (c', s2, m, clean, ok)"
    by (cases "FakeIPLoadTable (Commit, x) n t2 load_record ?s1 c")
  have s2: "s2 = fst (load_records load_record ?b ?s1 [])"
    using l assms(4,5) by (auto simp: FakeIPLoadTable_def Let_def split_beta split: option.splits)
  have l1: "all_loading ?s1" using NewStore_loading [OF assms(1,2)] by (auto simp: all_loading_def)
  then have l2: "all_loading s2"
    by (rule FakeIPLoadTable_invariant [where P = all_loading, OF _ _ l]) (rule all_loading_load_record)
  obtain w where w: "(as_slice a, w) \<in> set ?b" "bytes_str w = v" "addr_valid a"
    using assms(6) by (auto simp: saved_table_def split: if_splits dest: map_of_SomeD)
  have t: "takes ?s1 a" using assms(9) poolOf_prefix [of ?s1 "NewStore r4 r6"] by (simp add: takes_def)
  have "addr_from_slice (as_slice a) = a" "a \<noteq> NoAddr" using w(3) assms(8) by auto
  then have "recorded s2 a (to_lower v)"
    unfolding s2 w(2) [symmetric] by (rule load_records_found [OF w(1) assms(3) _ _ _ t l1]) (simp add: w(2) assms(7))
  then have "recorded (restore_pools m clean s2) a (to_lower v)" using l2 by (rule found_restore_pools)
  then show ?thesis using l by (simp add: load_table_def)
qed

section \<open>Storage and memory agree\<close>

definition agrees :: "conf \<Rightarrow> bool" where
  "agrees f \<longleftrightarrow> durable f \<and> (\<forall>j. f_holder f = Saving j \<longrightarrow> job_ok (f_store f) j) \<and>
     (s_storage (f_store f) \<longrightarrow> s_generation (f_store f) \<le> c_generation (f_file f))"

lemma agreesI:
  assumes "durable f" "\<And>j. f_holder f = Saving j \<Longrightarrow> job_ok (f_store f) j"
    "s_storage (f_store f) \<Longrightarrow> s_generation (f_store f) \<le> c_generation (f_file f)"
  shows "agrees f"
  using assms by (simp add: agrees_def)

lemma agreesD:
  assumes "agrees f"
  shows "durable f" "f_holder f = Saving j \<Longrightarrow> job_ok (f_store f) j"
    "s_storage (f_store f) \<Longrightarrow> s_generation (f_store f) \<le> c_generation (f_file f)"
  using assms by (simp_all add: agrees_def)

lemma agrees_memory: "\<not> s_storage (f_store f) \<Longrightarrow> f_holder f = Free \<Longrightarrow> agrees f"
  by (simp add: agrees_def durable_def)

lemma agrees_grows:
  assumes "agrees f" "conf_books f" "grows (f_store f) t"
  shows "agrees (f\<lparr>f_store := t\<rparr>)"
proof (rule agreesI)
  show "durable (f\<lparr>f_store := t\<rparr>)" using agreesD(1) [OF assms(1)] assms(2,3) by (rule durable_grows)
  show "job_ok (f_store (f\<lparr>f_store := t\<rparr>)) j" if "f_holder (f\<lparr>f_store := t\<rparr>) = Saving j" for j
    using that agreesD(2) [OF assms(1)] assms(2,3) job_ok_grows [of "f_store f" j t] by (simp add: conf_books_def)
  show "s_generation (f_store (f\<lparr>f_store := t\<rparr>)) \<le> c_generation (f_file (f\<lparr>f_store := t\<rparr>))"
    if "s_storage (f_store (f\<lparr>f_store := t\<rparr>))"
    using that agreesD(3) [OF assms(1)] assms(3) by (simp add: grows_def)
qed

text \<open>A step of a query or a connection, with or without a storage.\<close>

lemma agrees_quiet:
  assumes "agrees f" "conf_books f" "s_storage (f_store f) \<Longrightarrow> grows (f_store f) t"
    "s_storage t = s_storage (f_store f)"
  shows "agrees (f\<lparr>f_store := t\<rparr>)"
proof (cases "s_storage (f_store f)")
  case True then show ?thesis using assms(1,2,3) by (intro agrees_grows)
next
  case False then show ?thesis using assms(2,4) by (intro agrees_memory) (simp_all add: conf_books_def)
qed

lemma grows_fields: "grows s t \<Longrightarrow> s_storage t = s_storage s"
  by (simp add: grows_def)

lemma grows_find_domain: "grows s (fst (find_domain now k d s))"
  by (simp add: find_domain_def grows_touch split: option.split)

lemma grows_Lookup: "grows s (fst (Lookup now a s))"
  by (simp add: Lookup_def grows_touch split: option.split)

lemma grows_close: "grows s (close_store s)"
  by (auto simp: grows_def close_store_def)

lemma grows_trans: "grows s t \<Longrightarrow> grows t u \<Longrightarrow> grows s u"
proof -
  assume a: "grows s t" "grows t u"
  have "grown p r" if "grown p q" "grown q r" for p q r
    using that unfolding grown_def by metis
  then have "\<exists>p. pool_at s k = Some p \<and> grown p r" if "pool_at u k = Some r" for k r
    using a(1) grows_pool [OF a(2) that] grows_pool [OF a(1)] by metis
  then show ?thesis using a by (simp add: grows_def)
qed

lemma grows_expire: "grows s (fold expire found s)"
proof (induction found arbitrary: s)
  case (Cons c found)
  obtain k i u where c: "c = (k, i, u)" by (cases c)
  have "grown p (p\<lparr>p_expired := x\<rparr>)" for p x by (simp add: grown_def in_table_def)
  then have "grows s (expire c s)" by (auto simp: grows_def expire_def c)
  then show ?case using Cons.IH grows_trans by simp
qed simp

lemma grows_sweep: "s_storage s \<Longrightarrow> grows s (sweep_apply found s)"
  by (simp add: sweep_apply_def grows_expire)

text \<open>The records a save marks as to be saved again after the file was recreated.\<close>

lemma resave_dirty:
  "in_table (resave_pool p) i \<Longrightarrow> \<not> held (p_heap (resave_pool p) i) \<Longrightarrow> r_dirty (p_heap (resave_pool p) i)"
  by (auto simp: in_table_def resave_fields held_def split: if_splits dest!: map_of_SomeD intro: rev_image_eqI)

lemma durable_collected:
  assumes "durable f" "f_holder f = Free" "h = Free \<or> h = Saving j"
    "t = fst (job_of q now (save_generation gen (f_store f))) \<or> t = save_generation gen (f_store f)"
  shows "durable (f\<lparr>f_store := t, f_holder := h\<rparr>)"
proof (rule durableI, simp_all)
  fix k p' i assume st: "s_storage t" "c_generation (f_file f) = s_generation t"
    and p': "pool_at t k = Some p'" and i: "in_table p' i" "\<not> held (p_heap p' i)" "settled h k p' i"
  have nd: "\<not> r_dirty (p_heap p' i)" using i(3) assms(3) by auto
  obtain p1 where p1: "pool_at (save_generation gen (f_store f)) k = Some p1"
    "p' = p1 \<or> p' = pool_collected q now k p1" using assms(4) p' by (auto simp: job_of_pools)
  then have same: "in_table p1 i" "\<not> held (p_heap p1 i)" "\<not> r_dirty (p_heap p1 i)"
    "address p' = address p1" "r_offset (p_heap p' i) = r_offset (p_heap p1 i)"
    "r_domain (p_heap p' i) = r_domain (p_heap p1 i)"
    using i nd by (auto simp: collected_fields collected_in_table held_def)
  have gen: "gen = s_generation (f_store f)"
  proof (rule ccontr)
    assume "gen \<noteq> s_generation (f_store f)"
    then obtain p where "p1 = resave_pool p" using p1(1) by (auto simp: pool_at_save_generation)
    then show False using resave_dirty same by blast
  qed
  then have p: "pool_at (f_store f) k = Some p1" using p1(1) by (auto simp: pool_at_save_generation)
  have "s_generation t = s_generation (f_store f)" "s_storage (f_store f)" using assms(4) st(1) gen by auto
  then show "stored (f_file f) (address p' (r_offset (p_heap p' i))) (r_domain (p_heap p' i))"
    using durableD [OF assms(1) _ _ _ p same(1,2)] st(2) assms(2) same by simp
qed

lemma save_collect_store:
  assumes "save_collect gen q now s = (s', r)" "s_storage s"
  shows "s' = s \<and> (r = SaveNothing \<or> r = SaveRefused) \<or>
    s_generation s' = gen \<and> (s' = save_generation gen s \<and> r = SaveNothing \<or>
    s' = fst (job_of q now (save_generation gen s)) \<and>
      (r = SaveNothing \<or> r = SaveWrite (snd (job_of q now (save_generation gen s)))))"
  using assms by (auto simp: save_collect_alt Let_def split: if_splits)

lemma agrees_collected:
  assumes "agrees f" "conf_books f" "store_ok (f_store f)" "tidy_store (f_store f)" "f_holder f = Free"
    "gen \<le> c_generation (f_file f)" "save_collect gen q now (f_store f) = (s', SaveWrite j)"
  shows "agrees (f\<lparr>f_store := s', f_holder := Saving j\<rparr>)"
proof -
  let ?s = "f_store f" and ?s1 = "save_generation gen (f_store f)"
  have st: "s_storage ?s" using assms(7) by (auto simp: save_collect_alt split: if_splits)
  have e: "s_generation s' = gen" "s' = fst (job_of q now ?s1)" "j = snd (job_of q now ?s1)"
    using save_collect_store [OF assms(7) st] by simp_all
  have "store_books ?s Free" using assms(2,5) by (simp add: conf_books_def)
  then have "store_books ?s1 Free" by (rule store_books_save_generation)
  moreover have "store_ok ?s1" using assms(3) by (rule store_ok_save_generation)
  moreover have "tidy_store ?s1" using assms(4) by (rule tidy_store_save_generation)
  ultimately have "job_ok s' j" unfolding e(2,3) by (intro job_ok_job_of)
  moreover have "durable (f\<lparr>f_store := s', f_holder := Saving j\<rparr>)"
    using agreesD(1) [OF assms(1)] assms(5) _ disjI1 [OF e(2)] by (rule durable_collected) simp
  ultimately show ?thesis using assms(6) e(1) by (intro agreesI) simp_all
qed

lemma agrees_nothing:
  assumes "agrees f" "f_holder f = Free" "conf_books f"
    "gen \<le> c_generation (f_file f)" "save_collect gen q now (f_store f) = (s', r)"
  shows "agrees (f\<lparr>f_store := s'\<rparr>)"
proof (cases "s_storage (f_store f)")
  case False
  then have "s' = f_store f" using assms(5) by (simp add: save_collect_def)
  then show ?thesis using assms(1) by simp
next
  case True
  from save_collect_store [OF assms(5) True] show ?thesis
  proof
    assume "s' = f_store f \<and> (r = SaveNothing \<or> r = SaveRefused)"
    then show ?thesis using assms(1) by simp
  next
    assume a: "s_generation s' = gen \<and> (s' = save_generation gen (f_store f) \<and> r = SaveNothing \<or>
      s' = fst (job_of q now (save_generation gen (f_store f))) \<and>
      (r = SaveNothing \<or> r = SaveWrite (snd (job_of q now (save_generation gen (f_store f))))))"
    have "durable (f\<lparr>f_store := s', f_holder := Free\<rparr>)"
      using agreesD(1) [OF assms(1)] assms(2) _ _ by (rule durable_collected [where q = q and now = now]) (use a in auto)
    then have "durable (f\<lparr>f_store := s'\<rparr>)" using assms(2) by (simp add: durable_def)
    then show ?thesis using a assms(2,4) by (intro agreesI) simp_all
  qed
qed

lemma agrees_reset_memory:
  assumes "agrees f" "f_holder f = Resetting \<or> f_holder f = Free \<and> \<not> s_storage (f_store f)"
  shows "agrees (f\<lparr>f_store := reset_pools (f_store f), f_holder := Free\<rparr>)"
proof (rule agreesI)
  have empty: "\<not> in_table (reset_pool p) i" for p i by (simp add: in_table_def reset_pool_def)
  have "s_generation (reset_pools s) = s_generation s" for s
    unfolding reset_pools_def by (rule fold_on_pool_fields) simp
  then show "s_generation (f_store (f\<lparr>f_store := reset_pools (f_store f), f_holder := Free\<rparr>))
      \<le> c_generation (f_file (f\<lparr>f_store := reset_pools (f_store f), f_holder := Free\<rparr>))"
    if "s_storage (f_store (f\<lparr>f_store := reset_pools (f_store f), f_holder := Free\<rparr>))"
    using that agreesD(3) [OF assms(1)] by simp
  show "durable (f\<lparr>f_store := reset_pools (f_store f), f_holder := Free\<rparr>)"
    using empty by (auto simp: durable_def reset_pools_def pool_at_all_pools split: if_splits)
qed simp

text \<open>A file that is recreated has a number the store does not know yet.\<close>

lemma agrees_recreated:
  assumes "agrees f" "c_generation (f_file f) + 1 \<noteq> 0" "c_generation c' = c_generation (f_file f) + 1"
    "h = f_holder f \<or> h = Free"
  shows "agrees (f\<lparr>f_file := c', f_holder := h\<rparr>)"
proof (rule agreesI)
  have g: "s_storage (f_store f) \<Longrightarrow> s_generation (f_store f) < c_generation c'"
    using agreesD(3) [OF assms(1)] word_less_inc [OF assms(2)] assms(3) by (simp add: order_le_less_trans)
  then show "durable (f\<lparr>f_file := c', f_holder := h\<rparr>)" by (auto simp: durable_def)
  show "job_ok (f_store (f\<lparr>f_file := c', f_holder := h\<rparr>)) j" if "f_holder (f\<lparr>f_file := c', f_holder := h\<rparr>) = Saving j" for j
    using that agreesD(2) [OF assms(1)] assms(4) by auto
  show "s_generation (f_store (f\<lparr>f_file := c', f_holder := h\<rparr>)) \<le> c_generation (f_file (f\<lparr>f_file := c', f_holder := h\<rparr>))"
    if "s_storage (f_store (f\<lparr>f_file := c', f_holder := h\<rparr>))" using that g by simp
qed

lemma agrees_reset_file:
  assumes "agrees f" "f_holder f = Free" "c_generation (f_file f) + 1 \<noteq> 0" "FakeIPReset t (f_file f) = (c', ok)"
  shows "agrees (f\<lparr>f_file := c', f_holder := (if ok then Resetting else Free)\<rparr>)"
proof -
  consider "ok" "c_generation c' = c_generation (f_file f)" | "\<not> ok" "c' = f_file f"
    | "\<not> ok" "c_generation c' = c_generation (f_file f) + 1"
    using assms(4) unfolding FakeIPReset_def update_tx_def
    by (cases "c_open (f_file f)"; cases "fst t") (auto simp: resetDB_def)
  then show ?thesis
  proof cases
    case 1
    then show ?thesis using agreesD(3) [OF assms(1)] by (intro agreesI) (simp_all add: durable_def)
  next
    case 2
    then have "f\<lparr>f_file := c', f_holder := (if ok then Resetting else Free)\<rparr> = f" using assms(2) by simp
    then show ?thesis using assms(1) by simp
  next
    case 3
    then show ?thesis using agrees_recreated [OF assms(1,3) 3(2), of Free] by simp
  qed
qed

lemma agrees_write:
  assumes "agrees f" "conf_books f" "tidy_store (f_store f)" "f_holder f = Saving j"
    "c_generation (f_file f) + 1 \<noteq> 0"
    "FakeIPSaveChanges t (j_puts j) (j_deletes j) (j_metadata j) (j_clean j) (f_file f) = (c', ok)"
  shows "agrees (f\<lparr>f_file := c', f_holder := Written j ok\<rparr>)"
proof (rule agreesI)
  have st: "s_storage (f_store f)" using assms(2,4) by (auto simp: conf_books_def)
  note g = agreesD(3) [OF assms(1) st]
  show "durable (f\<lparr>f_file := c', f_holder := Written j ok\<rparr>)"
    using agreesD(1) [OF assms(1)] assms(4) agreesD(2) [OF assms(1,4)] assms(2,3) g assms(5,6)
    by (rule durable_write)
  have "c_generation (f_file f) \<le> c_generation c'"
    using assms(6) word_less_inc [OF assms(5)] by (elim FakeIPSaveChanges_cases) simp_all
  then show "s_generation (f_store (f\<lparr>f_file := c', f_holder := Written j ok\<rparr>))
      \<le> c_generation (f_file (f\<lparr>f_file := c', f_holder := Written j ok\<rparr>))"
    using g by simp
qed simp

lemma agrees_found: "agrees (f\<lparr>f_found := x\<rparr>) = agrees f"
  by (simp add: agrees_def durable_def)

lemma agrees_step:
  assumes "step f g" "agrees f" "conf_books f" "store_ok (f_store f)" "tidy_store (f_store f)"
  shows "agrees g"
  using assms
proof (induction rule: step.induct)
  case (Query f now k d)
  then show ?case by (intro agrees_quiet grows_find_domain) simp_all
next
  case (Allocate d now f k s' r)
  then show ?case using grows_allocate [OF store_ok_inv] s_storage_allocate store_ok_inv
    by (intro agrees_quiet) blast+
next
  case (Room f now k)
  then show ?case by (intro agrees_quiet) simp_all
next
  case (Connection f now a)
  then show ?case by (intro agrees_quiet grows_Lookup) simp_all
next
  case (Collect f gen q now s' j)
  then show ?case by (intro agrees_collected)
next
  case (Nothing f gen q now s' r)
  then show ?case by (intro agrees_nothing)
next
  case (Write f j t c' ok)
  then show ?case by (intro agrees_write)
next
  case (Committed f j ok)
  then have "durable (f\<lparr>f_store := save_commit ok j (f_store f), f_holder := Free\<rparr>)"
    by (intro durable_commit agreesD(1))
  then show ?case using agreesD(3) [OF Committed(2)] by (intro agreesI) simp_all
next
  case (Sweep f now)
  then show ?case by (simp add: agrees_found)
next
  case (Swept f)
  then have "agrees (f\<lparr>f_store := sweep_apply (f_found f) (f_store f)\<rparr>)"
    by (intro agrees_quiet) (simp_all add: grows_sweep)
  then show ?case using agrees_found [of "[]" "f\<lparr>f_store := sweep_apply (f_found f) (f_store f)\<rparr>"] by simp
next
  case (ResetFile f t c' ok)
  then show ?case by (intro agrees_reset_file)
next
  case (ResetMemory f)
  then show ?case by (intro agrees_reset_memory)
next
  case (Damage f reopened)
  then have "agrees (f\<lparr>f_file := resetDB reopened (f_file f), f_holder := f_holder f\<rparr>)"
    by (intro agrees_recreated) (simp_all add: resetDB_def)
  then show ?case by simp
next
  case (Closing f)
  then show ?case by (intro agrees_quiet grows_close) simp_all
qed

lemma LoadTable_generation:
  assumes "FakeIPLoadTable t1 n t2 ld s c = (c', s', m, clean, ok)"
  shows "c_generation c' = c_generation c \<or> c_generation c' = c_generation c + 1"
proof -
  have u: "c_generation (fst (update_tx t2 fn c)) = c_generation c \<or>
      c_generation (fst (update_tx t2 fn c)) = c_generation c + 1" for fn
    by (cases "c_open c"; cases "fst t2") (simp_all add: update_tx_def resetDB_def)
  show ?thesis using assms u
    by (cases "load_position (c_db c)")
      (auto simp: FakeIPLoadTable_def Let_def split_beta resetDB_def split: if_splits)
qed

lemma load_record_generation: "s_generation (fst (load_record s a d)) = s_generation s"
  by (cases rule: load_record_cases [of s a d]) simp_all

lemma started_agrees: "started f \<Longrightarrow> agrees f"
proof (induction rule: started.induct)
  case (Loaded r4 r6 c t1 nread t2 y)
  let ?s1 = "(NewStore r4 r6)\<lparr>s_storage := True, s_generation := FakeIPGeneration c\<rparr>"
  obtain c' s2 m clean ok where l: "FakeIPLoadTable t1 nread t2 load_record ?s1 c = (c', s2, m, clean, ok)"
    by (cases "FakeIPLoadTable t1 nread t2 load_record ?s1 c")
  have y: "y = \<lparr>y_store = restore_pools m clean s2, y_file = c'\<rparr>"
    using Loaded(5) l by (simp add: load_table_def)
  have l1: "all_loading ?s1" using NewStore_loading [OF Loaded(1,2)] by (auto simp: all_loading_def)
  then have l2: "all_loading s2"
    by (rule FakeIPLoadTable_invariant [where P = all_loading, OF _ _ l]) (rule all_loading_load_record)
  have new: "p_byOffset p = []" if "pool_at ?s1 k = Some p" for k p
    using that by (auto simp: NewStore_pool newPool_def Let_def)
  have "s_generation s2 = c_generation c"
    by (rule FakeIPLoadTable_invariant [where P = "\<lambda>s. s_generation s = c_generation c", OF _ _ l])
      (simp add: FakeIPGeneration_def, metis load_record_generation)
  then have g: "s_generation (restore_pools m clean s2) = c_generation c"
    by (simp add: restore_pools_def fold_on_pool_fields [of s_generation])
  have "stored c' (address q (r_offset (p_heap q i))) (r_domain (p_heap q i))"
    if q: "pool_at (restore_pools m clean s2) k = Some q" "in_table q i" "\<not> held (p_heap q i)"
      "c_generation c' = c_generation c" for k q i
  proof -
    obtain p where p: "pool_at s2 k = Some p" "q = restore_pool m clean s2 k p"
      using q(1) by (auto simp: restore_pools_def pool_at_all_pools split: if_splits)
    have lp: "loading p" using l2 p(1) by (simp add: all_loading_def)
    note r = restore_pool_table [OF lp q(2,3) [unfolded p(2)]]
    show ?thesis using LoadTable_stored [OF l q(4) Loaded(4) l1 new Loaded(3) p(1) r(1)] r lp by (simp add: p(2))
  qed
  then have "durable \<lparr>f_store = y_store y, f_file = y_file y, f_holder = Free, f_found = []\<rparr>"
    using g by (intro durableI) (simp_all add: y)
  moreover have "c_generation c \<le> c_generation c'"
    using LoadTable_generation [OF l] word_less_inc [OF Loaded(4)] by auto
  ultimately show ?case using g by (intro agreesI) (simp_all add: y)
next
  case (Memory r4 r6 c)
  then show ?case by (intro agrees_memory) (simp_all add: NewStore_def)
qed

lemma reachable_agrees: "reachable f \<Longrightarrow> agrees f \<and> conf_books f \<and> store_ok (f_store f) \<and> tidy_store (f_store f)"
proof (induction rule: reachable.induct)
  case (Started f)
  then show ?case by (simp add: started_agrees started_books started_ok started_tidy)
next
  case (Step f g)
  then show ?case using agrees_step step_books step_ok tidy_step store_ok_inv by blast
qed

section \<open>What a restart finds\<close>

text \<open>A bucket has one value for a key; the operations on the file keep it so.\<close>

definition file_ok :: "cachefile \<Rightarrow> bool" where
  "file_ok c \<longleftrightarrow> distinct (map fst (bucket_of (bucketFakeIP (c_db c))))"

lemma distinct_delete_keys: "distinct (map fst b) \<Longrightarrow> distinct (map fst (delete_keys ks b))"
  unfolding delete_keys_def by (induction ks arbitrary: b) (simp_all add: distinct_delete)

lemma distinct_put_all: "distinct (map fst b) \<Longrightarrow> distinct (map fst (put_all puts b))"
  unfolding put_all_def by (induction puts arbitrary: b) (auto simp: distinct_update)

lemma file_ok_update_tx:
  assumes "file_ok c" "\<And>d. distinct (map fst (bucket_of (bucketFakeIP d))) \<Longrightarrow>
    distinct (map fst (bucket_of (bucketFakeIP (fn d))))"
  shows "file_ok (fst (update_tx t fn c))"
  using assms by (cases "c_open c"; cases "fst t")
    (simp_all add: update_tx_def file_ok_def resetDB_def empty_db_def bucket_of_def)

lemma file_ok_resetDB: "file_ok (resetDB reopened c)"
  by (simp add: file_ok_def resetDB_def empty_db_def bucket_of_def)

lemma file_ok_save: "file_ok c \<Longrightarrow> file_ok (fst (FakeIPSaveChanges t puts deletes m clean c))"
  unfolding FakeIPSaveChanges_def
  by (rule file_ok_update_tx)
    (simp_all add: save_changes_def Let_def bucket_of_def distinct_update distinct_delete distinct_put_all
      distinct_delete_keys)

lemma file_ok_reset: "file_ok c \<Longrightarrow> file_ok (fst (FakeIPReset t c))"
  unfolding FakeIPReset_def by (rule file_ok_update_tx) (simp_all add: bucket_of_def)

lemma file_ok_load:
  assumes "file_ok c" "FakeIPLoadTable t1 n t2 ld s c = (c', s', m, clean, ok)"
  shows "file_ok c'"
proof -
  have u: "file_ok (fst (update_tx t2 (\<lambda>d. d\<lparr>bucketFakeIPDomain4 := None, bucketFakeIPDomain6 := None,
     bucketFakeIP := map_option (delete_keys ks) (bucketFakeIP d)\<rparr>) c))" for ks
    using assms(1)
  proof (rule file_ok_update_tx)
    fix d :: db assume "distinct (map fst (bucket_of (bucketFakeIP d)))"
    then show "distinct (map fst (bucket_of (bucketFakeIP (d\<lparr>bucketFakeIPDomain4 := None,
        bucketFakeIPDomain6 := None, bucketFakeIP := map_option (delete_keys ks) (bucketFakeIP d)\<rparr>))))"
      by (cases "bucketFakeIP d") (simp_all add: bucket_of_def distinct_delete_keys)
  qed
  have "file_ok (fst (FakeIPLoadTable t1 n t2 ld s c))"
    by (cases "load_position (c_db c)")
      (simp_all add: FakeIPLoadTable_def Let_def split_beta u file_ok_resetDB assms(1))
  then show ?thesis by (simp add: assms(2))
qed

definition conf_file :: "conf \<Rightarrow> bool" where
  "conf_file f \<longleftrightarrow> (s_storage (f_store f) \<longrightarrow> file_ok (f_file f))"

lemma step_file: "step f g \<Longrightarrow> store_ok (f_store f) \<Longrightarrow> conf_file f \<Longrightarrow> conf_file g"
proof (induction rule: step.induct)
  case (Allocate d now f k s' r)
  then show ?case using s_storage_allocate [OF store_ok_inv] by (simp add: conf_file_def)
next
  case (Collect f gen q now s' j)
  then show ?case using s_storage_ops(7) [of gen q now "f_store f"] by (simp add: conf_file_def)
next
  case (Nothing f gen q now s' r)
  then show ?case using s_storage_ops(7) [of gen q now "f_store f"] by (simp add: conf_file_def)
next
  case (Write f j t c' ok)
  then show ?case using file_ok_save [of "f_file f" t "j_puts j" "j_deletes j" "j_metadata j" "j_clean j"]
    by (simp add: conf_file_def)
next
  case (ResetFile f t c' ok)
  then show ?case using file_ok_reset [of "f_file f" t] by (simp add: conf_file_def)
qed (simp_all add: conf_file_def file_ok_resetDB)

lemma started_file: "started f \<Longrightarrow> conf_file f"
proof (induction rule: started.induct)
  case (Loaded r4 r6 c t1 nread t2 y)
  let ?s1 = "(NewStore r4 r6)\<lparr>s_storage := True, s_generation := FakeIPGeneration c\<rparr>"
  obtain c' s2 m clean ok where l: "FakeIPLoadTable t1 nread t2 load_record ?s1 c = (c', s2, m, clean, ok)"
    by (cases "FakeIPLoadTable t1 nread t2 load_record ?s1 c")
  have "file_ok c" using Loaded(3) by (simp add: file_ok_def)
  then have "file_ok c'" using l by (rule file_ok_load)
  moreover have "y = \<lparr>y_store = restore_pools m clean s2, y_file = c'\<rparr>"
    using Loaded(5) l by (simp add: load_table_def)
  ultimately show ?case by (simp add: conf_file_def)
next
  case (Memory r4 r6 c)
  show ?case by (simp add: conf_file_def NewStore_def)
qed

lemma reachable_file: "reachable f \<Longrightarrow> conf_file f"
proof (induction rule: reachable.induct)
  case (Step f g)
  then show ?case using step_file reachable_ok by blast
qed (rule started_file)

text \<open>Ranges that have the same prefixes take the same addresses.\<close>

lemma offset_of_prefix:
  assumes "pool_static p" "pool_static q" "p_prefix p = p_prefix q"
  shows "offset_of p = offset_of q" "p_first p = p_first q"
  using assms by (auto simp: fun_eq_iff offset_of_def pool_static_def in_range_def split: addr.split)

lemma takes_prefix:
  assumes "store_ok s" "store_ok t" "prefix_of s = prefix_of t" "takes s a"
  shows "takes t a"
proof -
  obtain k p off where h: "poolOf s a = Some k" "pool_at s k = Some p" "offset_of p a = Some off" "p_first p \<le> off"
    using assms(4) by (auto simp: takes_def)
  obtain q where q: "pool_at t k = Some q" "p_prefix q = p_prefix p"
    using fun_cong [OF assms(3), of k] h(2) by (cases "pool_at t k") (auto simp: prefix_of_def)
  have "pool_static p" "pool_static q"
    using assms(1,2) h(2) q(1) by (auto simp: store_ok_def store_inv_def pool_inv_def)
  then have "offset_of q = offset_of p" "p_first q = p_first p" using offset_of_prefix q(2) by metis+
  then show ?thesis using h q poolOf_prefix [OF assms(3)] by (auto simp: takes_def)
qed

lemma Lookup_found:
  assumes "store_inv s" "snd (Lookup now a s) = Some d"
  obtains k p off i where "pool_at s k = Some p" "in_table p i" "\<not> held (p_heap p i)"
    "a = address p (r_offset (p_heap p i))" "d = r_domain (p_heap p i)" "takes s a"
proof -
  obtain k p off i where h: "poolOf s a = Some k" "pool_at s k = Some p" "offset_of p a = Some off"
    "rec_at p off = Some i" "\<not> held (p_heap p i)" "d = r_domain (p_heap p i)"
    using assms(2) by (auto simp: Lookup_def split: option.splits if_splits)
  have inv: "pool_inv p" using assms(1) h(2) by (rule store_invD)
  then have st: "pool_static p" by (simp add: pool_inv_def)
  have off: "r_offset (p_heap p i) = off" "in_ring p off" using pool_inv_rec(1,2) [OF inv h(4)] by auto
  then have "in_table p i" using h(4) by (simp add: in_table_def)
  moreover have "a = address p (r_offset (p_heap p i))" using address_of_offset [OF st h(3)] off by simp
  moreover have "takes s a" using h off by (auto simp: takes_def in_ring_def)
  ultimately show ?thesis using that h by blast
qed

lemma not_savePending:
  assumes "\<not> savePending gen s" "pool_at s k = Some p"
  shows "s_generation s = gen" "p_dirty p = []"
  using assms by (cases k; auto simp: savePending_def pools_def)+

text \<open>Between two saves nothing is pending: what a connection finds now it finds after a restart.\<close>

lemma restart_Lookup:
  assumes "reachable f" "s_storage (f_store f)" "f_holder f = Free"
    "\<not> savePending (c_generation (f_file f)) (f_store f)"
    "c_open (f_file f)" "load_position (c_db (f_file f)) \<noteq> None"
    "ranges_ok r4 r6" "start_error (NewStore r4 r6) = None" "prefix_of (NewStore r4 r6) = prefix_of (f_store f)"
    "snd (Lookup now a (f_store f)) = Some d"
  shows "snd (Lookup now' a (y_store (load_table (Commit, x) n t2 (NewStore r4 r6) (f_file f)))) = Some d"
proof -
  have inv: "agrees f" "conf_books f" "store_ok (f_store f)" "tidy_store (f_store f)"
    using reachable_agrees [OF assms(1)] by simp_all
  obtain k p off i where h: "pool_at (f_store f) k = Some p" "in_table p i" "\<not> held (p_heap p i)"
    "a = address p (r_offset (p_heap p i))" "d = r_domain (p_heap p i)" "takes (f_store f) a"
    using store_ok_inv [OF inv(3)] assms(10) by (rule Lookup_found)
  have sp: "s_generation (f_store f) = c_generation (f_file f)" "p_dirty p = []"
    using assms(4) h(1) by (rule not_savePending)+
  have "books p [] []" using store_booksD [OF _ h(1), of Free] inv(2) assms(3) by (simp add: conf_books_def)
  then have nd: "\<not> r_dirty (p_heap p i)" using booksD(6) [OF _ h(2)] sp(2) by fastforce
  have "stored (f_file f) a d"
    using durableD [OF agreesD(1) [OF inv(1)] assms(2) _ _ h(1-3)] sp(1) assms(3) nd h(4,5) by simp
  then obtain v where v: "saved_table (f_file f) a = Some v" "to_lower v = d" by (auto simp: stored_def)
  have d: "d \<noteq> []" using h(3,5) by (simp add: held_def)
  have "store_ok (NewStore r4 r6)" using started_ok [OF started.Memory [OF assms(7,8), of "f_file f"]] by simp
  then have t: "takes (NewStore r4 r6) a" using takes_prefix [OF inv(3) _ assms(9) [symmetric] h(6)] by blast
  have z: "without_zone a = a" using plain_address [of p] h(4) by (simp add: plain_def)
  have "v \<noteq> []" using v(2) d by (auto simp: to_lower_def)
  moreover have "distinct (map fst (bucket_of (bucketFakeIP (c_db (f_file f)))))"
    using reachable_file [OF assms(1)] assms(2) by (simp add: conf_file_def file_ok_def)
  ultimately have "recorded (y_store (load_table (Commit, x) n t2 (NewStore r4 r6) (f_file f))) a d"
    using restart_found [OF assms(7,8) _ assms(5,6) v(1) _ z t] v(2) by blast
  then show ?thesis using d by (rule found_Lookup)
qed

end
