(* ===== verification/FakeIP_Runs.thy ===== *)
theory FakeIP_Runs
  imports FakeIP_Restart
begin

text \<open>
  The functions of one caller are runs of the relation with all callers: a save, the making of room
  and \<open>Create\<close> lead from a reachable state at rest to a reachable state at rest. The facts about
  reachable states hold therefore after them.
\<close>

definition at_rest :: "sys \<Rightarrow> conf" where
  "at_rest y = \<lparr>f_store = y_store y, f_file = y_file y, f_holder = Free, f_found = []\<rparr>"

lemma at_rest_fields [simp]:
  "f_store (at_rest y) = y_store y" "f_file (at_rest y) = y_file y" "f_holder (at_rest y) = Free"
  "(at_rest y)\<lparr>f_store := s\<rparr> = at_rest (y\<lparr>y_store := s\<rparr>)"
  by (simp_all add: at_rest_def)

lemma at_rest_store: "reachable (at_rest y) \<Longrightarrow> store_ok (y_store y)" "reachable (at_rest y) \<Longrightarrow> store_books (y_store y) Free"
  using reachable_agrees [of "at_rest y"] by (simp_all add: conf_books_def)

lemma save_runs:
  assumes "reachable (at_rest y)" "c_generation (y_file y) + 1 \<noteq> 0" "q_clean q \<longrightarrow> s_closed (y_store y)"
  shows "reachable (at_rest (fst (save t q now y)))"
proof (cases "s_storage (y_store y)")
  case False
  then show ?thesis using assms(1) by (simp add: save_def save_collect_def)
next
  case True
  let ?g = "c_generation (y_file y)"
  have g: "s_generation (y_store y) \<le> ?g"
    using agreesD(3) [of "at_rest y"] reachable_agrees [OF assms(1)] True by simp
  obtain s' r where c: "save_collect ?g q now (y_store y) = (s', r)" by (cases "save_collect ?g q now (y_store y)")
  have none: "reachable (at_rest (y\<lparr>y_store := s'\<rparr>))" if "r = SaveNothing \<or> r = SaveRefused"
    using reachable.Step [OF assms(1) step.Nothing [of "at_rest y" ?g q now s' r]] g assms(3) c that by simp
  show ?thesis
  proof (cases r)
    case SaveNothing then show ?thesis using none c by (simp add: save_def FakeIPGeneration_def)
  next
    case SaveRefused then show ?thesis using none c by (simp add: save_def FakeIPGeneration_def)
  next
    case (SaveWrite j)
    obtain c' ok where w: "FakeIPSaveChanges t (j_puts j) (j_deletes j) (j_metadata j) (j_clean j) (y_file y) = (c', ok)"
      by (cases "FakeIPSaveChanges t (j_puts j) (j_deletes j) (j_metadata j) (j_clean j) (y_file y)")
    let ?f1 = "(at_rest y)\<lparr>f_store := s', f_holder := Saving j\<rparr>"
    let ?f2 = "?f1\<lparr>f_file := c', f_holder := Written j ok\<rparr>"
    let ?f3 = "?f2\<lparr>f_store := save_commit ok j s', f_holder := Free\<rparr>"
    have "step (at_rest y) ?f1" by (rule step.Collect [of _ ?g q now]) (use g assms(3) c SaveWrite in simp_all)
    moreover have "step ?f1 ?f2" by (rule step.Write) (use assms(2) w in \<open>simp_all add: at_rest_def\<close>)
    moreover have "step ?f2 ?f3" using step.Committed [of ?f2 j ok] by (simp add: at_rest_def)
    ultimately have "reachable ?f3" using assms(1) reachable.Step by blast
    moreover have "?f3 = at_rest (fst (save t q now y))"
      using c w SaveWrite by (simp add: save_def FakeIPGeneration_def at_rest_def)
    ultimately show ?thesis by simp
  qed
qed

lemma makeRoom_runs:
  assumes "reachable (at_rest y)" "c_generation (y_file y) + 1 \<noteq> 0"
  shows "reachable (at_rest (makeRoom t now k y))"
proof (cases "s_storage (y_store y)")
  case True
  then show ?thesis using save_runs [OF assms, of "room_save k"] by (simp add: makeRoom_def room_save_def)
next
  case False
  then have "step (at_rest y) ((at_rest y)\<lparr>f_store := makeRoom_memory now k (y_store y)\<rparr>)"
    using step.Room [of "at_rest y"] by simp
  from reachable.Step [OF assms(1) this] False show ?thesis by (simp add: makeRoom_def)
qed

text \<open>No transaction of the caller breaks the file, so it is not recreated.\<close>

definition unbroken :: "env \<Rightarrow> bool" where
  "unbroken env \<longleftrightarrow> (\<forall>n. fst (fst (env n)) \<noteq> Panic)"

lemma save_file:
  assumes "fst t \<noteq> Panic"
  shows "c_generation (y_file (fst (save t q now y))) = c_generation (y_file y)"
proof -
  have "c_generation (fst (FakeIPSaveChanges t ps ds m cl c)) = c_generation c" for ps ds m cl c
    using assms by (cases "c_open c"; cases "fst t") (simp_all add: FakeIPSaveChanges_def update_tx_def)
  then show ?thesis by (auto simp: save_def split_beta split: collected.split)
qed

lemma makeRoom_file: "fst t \<noteq> Panic \<Longrightarrow> c_generation (y_file (makeRoom t now k y)) = c_generation (y_file y)"
  by (simp add: makeRoom_def save_file)

lemma create_loop_runs:
  assumes "create_loop env n k d y = Some r"
  shows "unbroken env \<longrightarrow> d \<noteq> [] \<longrightarrow> to_lower d = d \<longrightarrow> c_generation (y_file y) + 1 \<noteq> 0 \<longrightarrow>
    reachable (at_rest y) \<longrightarrow> reachable (at_rest (fst r))"
  using assms
proof (rule create_loop.raw_induct [rotated])
  fix loop :: "env \<Rightarrow> nat \<Rightarrow> pid \<Rightarrow> string \<Rightarrow> sys \<Rightarrow> (sys \<times> (store_error + addr)) option"
  fix env n k d y r
  assume IH: "\<And>env n k d y r. loop env n k d y = Some r \<Longrightarrow>
    unbroken env \<longrightarrow> d \<noteq> [] \<longrightarrow> to_lower d = d \<longrightarrow> c_generation (y_file y) + 1 \<noteq> 0 \<longrightarrow>
    reachable (at_rest y) \<longrightarrow> reachable (at_rest (fst r))"
  assume body: "Option.bind (allocate (snd (env n)) (FakeIPGeneration (y_file y)) k d (y_store y))
      (\<lambda>(s', need, res).
        if need = needReserve then loop env (Suc n) k d
             (fst (save (fst (env n)) reserve_save (snd (env n)) (y\<lparr>y_store := s'\<rparr>)))
        else if need = needRoom then loop env (Suc n) k d
             (makeRoom (fst (env n)) (snd (env n)) k (y\<lparr>y_store := s'\<rparr>))
        else Some (y\<lparr>y_store := s'\<rparr>, res)) = Some r"
  show "unbroken env \<longrightarrow> d \<noteq> [] \<longrightarrow> to_lower d = d \<longrightarrow> c_generation (y_file y) + 1 \<noteq> 0 \<longrightarrow>
    reachable (at_rest y) \<longrightarrow> reachable (at_rest (fst r))"
  proof (intro impI)
    assume h: "unbroken env" "d \<noteq> []" "to_lower d = d" "c_generation (y_file y) + 1 \<noteq> 0" "reachable (at_rest y)"
    obtain s' need res
      where a: "allocate (snd (env n)) (FakeIPGeneration (y_file y)) k d (y_store y) = Some (s', need, res)"
      using body by (cases "allocate (snd (env n)) (FakeIPGeneration (y_file y)) k d (y_store y)") auto
    let ?y = "y\<lparr>y_store := s'\<rparr>"
    have "step (at_rest y) ((at_rest y)\<lparr>f_store := s'\<rparr>)"
      using h(2,3) a step.Allocate [of d "snd (env n)" "at_rest y" k s' "(need, res)"]
      by (simp add: FakeIPGeneration_def)
    then have s': "reachable (at_rest ?y)" using reachable.Step [OF h(5)] by simp
    have np: "fst (fst (env n)) \<noteq> Panic" using h(1) by (simp add: unbroken_def)
    show "reachable (at_rest (fst r))"
    proof (cases need)
      case needNothing
      then show ?thesis using body a s' by auto
    next
      case needReserve
      let ?z = "fst (save (fst (env n)) reserve_save (snd (env n)) ?y)"
      have "loop env (Suc n) k d ?z = Some r" using body a needReserve by simp
      moreover have "reachable (at_rest ?z)" using s' h(4) by (intro save_runs) (simp_all add: reserve_save_def)
      moreover have "c_generation (y_file ?z) = c_generation (y_file y)" using save_file [OF np] by simp
      ultimately show ?thesis using IH [of env "Suc n" k d ?z r] h(1-4) by simp
    next
      case needRoom
      let ?z = "makeRoom (fst (env n)) (snd (env n)) k ?y"
      have "loop env (Suc n) k d ?z = Some r" using body a needRoom by simp
      moreover have "reachable (at_rest ?z)" using s' h(4) by (intro makeRoom_runs) simp_all
      moreover have "c_generation (y_file ?z) = c_generation (y_file y)" using makeRoom_file [OF np] by simp
      ultimately show ?thesis using IH [of env "Suc n" k d ?z r] h(1-4) by simp
    qed
  qed
qed

lemma Create_runs:
  assumes "Create env domain v6 y = Some r" "unbroken env" "domain \<noteq> []" "c_generation (y_file y) + 1 \<noteq> 0"
    "reachable (at_rest y)"
  shows "reachable (at_rest (fst r))"
proof -
  let ?k = "if v6 then P6 else P4" and ?d = "to_lower domain"
  obtain s' o' where f: "find_domain (snd (env 0)) ?k ?d (y_store y) = (s', o')"
    by (cases "find_domain (snd (env 0)) ?k ?d (y_store y)")
  have q: "reachable (at_rest (y\<lparr>y_store := s'\<rparr>))"
    using reachable.Step [OF assms(5) step.Query [of "at_rest y" "snd (env 0)" ?k domain]] f by simp
  show ?thesis
  proof (cases "pool_at (y_store y) ?k = None")
    case True
    then have "fst r = y" using assms(1) by (auto simp: Create_def Let_def)
    then show ?thesis using assms(5) by simp
  next
    case False
    show ?thesis
    proof (cases o')
      case (Some a)
      then have "fst r = y\<lparr>y_store := s'\<rparr>" using assms(1) False f by (auto simp: Create_def Let_def)
      then show ?thesis using q by simp
    next
      case None
      then have "create_loop env 0 ?k ?d (y\<lparr>y_store := s'\<rparr>) = Some r"
        using assms(1) False f by (simp add: Create_def Let_def)
      from create_loop_runs [OF this] show ?thesis
        using assms(2-4) q by (simp add: to_lower_Nil_iff to_lower_idem)
    qed
  qed
qed

section \<open>Errors of \<open>Create\<close>\<close>

definition refused_by :: "pid \<Rightarrow> sys \<times> (store_error + addr) \<Rightarrow> bool" where
  "refused_by k r \<longleftrightarrow> (\<forall>e. snd r = Inl e \<longrightarrow>
     (if pool_at (y_store (fst r)) k = None then e = (if k = P6 then MissingRange6 else MissingRange4)
      else e = StoreClosed \<and> s_closed (y_store (fst r))))"

lemma allocate_refused:
  assumes "allocate now gen k d s = Some (s', nd, Inl e)"
  shows "s' = s \<and> nd = needNothing \<and>
    (if pool_at s k = None then e = (if k = P6 then MissingRange6 else MissingRange4) else e = StoreClosed \<and> s_closed s)"
proof (cases "pool_at s k")
  case None then show ?thesis using assms by (auto simp: allocate_def)
next
  case (Some p)
  show ?thesis
  proof (cases "p_byName p d = None \<and> \<not> s_closed s")
    case True
    then show ?thesis using assms Some
      by (cases "alloc_loop (s_storage s) (s_storageFailed s) p")
        (auto simp: allocate_def split: if_splits option.splits)
  next
    case False
    then show ?thesis using assms Some by (cases "p_byName p d") (auto simp: allocate_def)
  qed
qed

lemma create_loop_refused:
  assumes "create_loop env n k d y = Some r"
  shows "refused_by k r"
  using assms
proof (rule create_loop.raw_induct [rotated])
  fix loop :: "env \<Rightarrow> nat \<Rightarrow> pid \<Rightarrow> string \<Rightarrow> sys \<Rightarrow> (sys \<times> (store_error + addr)) option"
  fix env n k d y r
  assume IH: "\<And>env n k d y r. loop env n k d y = Some r \<Longrightarrow> refused_by k r"
  assume body: "Option.bind (allocate (snd (env n)) (FakeIPGeneration (y_file y)) k d (y_store y))
      (\<lambda>(s', need, res).
        if need = needReserve then loop env (Suc n) k d
             (fst (save (fst (env n)) reserve_save (snd (env n)) (y\<lparr>y_store := s'\<rparr>)))
        else if need = needRoom then loop env (Suc n) k d
             (makeRoom (fst (env n)) (snd (env n)) k (y\<lparr>y_store := s'\<rparr>))
        else Some (y\<lparr>y_store := s'\<rparr>, res)) = Some r"
  obtain s' need res
    where a: "allocate (snd (env n)) (FakeIPGeneration (y_file y)) k d (y_store y) = Some (s', need, res)"
    using body by (cases "allocate (snd (env n)) (FakeIPGeneration (y_file y)) k d (y_store y)") auto
  show "refused_by k r"
  proof (cases need)
    case needNothing
    then have r: "r = (y\<lparr>y_store := s'\<rparr>, res)" using body a by simp
    show ?thesis unfolding refused_by_def
    proof (intro allI impI)
      fix e assume "snd r = Inl e"
      then have "res = Inl e" using r by simp
      from allocate_refused [OF a [unfolded this]] show "if pool_at (y_store (fst r)) k = None
          then e = (if k = P6 then MissingRange6 else MissingRange4)
          else e = StoreClosed \<and> s_closed (y_store (fst r))" by (simp add: r)
    qed
  next
    case needReserve then show ?thesis using body a IH by auto
  next
    case needRoom then show ?thesis using body a IH by auto
  qed
qed

lemma Create_refused:
  assumes "Create env domain v6 y = Some r"
  shows "refused_by (if v6 then P6 else P4) r"
proof -
  let ?k = "if v6 then P6 else P4"
  obtain s' o' where f: "find_domain (snd (env 0)) ?k (to_lower domain) (y_store y) = (s', o')"
    by (cases "find_domain (snd (env 0)) ?k (to_lower domain) (y_store y)")
  show ?thesis
  proof (cases "pool_at (y_store y) ?k = None")
    case True
    then have "r = (y, Inl (if v6 then MissingRange6 else MissingRange4))" using assms by (simp add: Create_def Let_def)
    then show ?thesis using True by (auto simp: refused_by_def)
  next
    case False
    show ?thesis
    proof (cases o')
      case (Some a)
      then have "snd r = Inr a" using assms False f by (auto simp: Create_def Let_def)
      then show ?thesis by (simp add: refused_by_def)
    next
      case None
      then have "create_loop env 0 ?k (to_lower domain) (y\<lparr>y_store := s'\<rparr>) = Some r"
        using assms False f by (simp add: Create_def Let_def)
      then show ?thesis by (rule create_loop_refused)
    qed
  qed
qed

end
