(* ===== verification/FakeIP_Properties.thy ===== *)
theory FakeIP_Properties
  imports FakeIP_Runs
begin

text \<open>
  The properties of the FakeIP store and of its table in the cache file, over the definitions of
  \<open>FakeIP_Store\<close>, \<open>FakeIP_System\<close> and \<open>Cache_FakeIP\<close>. Each one with a hypothesis is applied
  to a small configuration: the range 198.18.0.0/28 with an empty cache file.
\<close>

section \<open>A small configuration\<close>

definition demo4 :: prefix where
  "demo4 = \<lparr>pfx_addr = Addr4 0xC6120000, pfx_bits = 28\<rparr>"

definition demo_file :: cachefile where
  "demo_file = \<lparr>c_db = empty_db, c_open = True, c_generation = 1\<rparr>"

definition demo_env :: env where
  "demo_env = (\<lambda>n. ((Commit, True), 900000 + word_of_nat n))"

definition demo0 :: sys where
  "demo0 = load_table (Commit, True) 0 (Commit, True) (NewStore (Some demo4) None) demo_file"

definition demo_create :: "string \<Rightarrow> sys \<Rightarrow> sys" where
  "demo_create d y = (case Create demo_env d False y of Some (y', _) \<Rightarrow> y' | None \<Rightarrow> y)"

definition demo1 :: sys where
  "demo1 = demo_create ''Example.org'' demo0"

definition demo2 :: sys where
  "demo2 = fst (save (Commit, True) plain_save 900100 demo1)"

definition demo_address :: addr where
  "demo_address = Addr4 0xC6120002"

definition demo_pool :: pool where
  "demo_pool = the (pool_at (y_store demo2) P4)"

lemma demo_ranges: "ranges_ok (Some demo4) None" "start_error (NewStore (Some demo4) None) = None"
  by code_simp+

lemma demo_started: "started (at_rest demo0)"
  unfolding at_rest_def demo0_def
  by (rule started.Loaded [OF demo_ranges _ _ refl]) code_simp+

lemma demo0_reachable: "reachable (at_rest demo0)"
  using demo_started by (rule reachable.Started)

lemma demo_env_unbroken: "unbroken demo_env"
  by (simp add: unbroken_def demo_env_def)

lemma demo_Create: "map_option snd (Create demo_env ''Example.org'' False demo0) = Some (Inr demo_address)"
  by code_simp

lemma demo1_Create: "Create demo_env ''Example.org'' False demo0 = Some (demo1, Inr demo_address)"
  using demo_Create by (auto simp: demo1_def demo_create_def)

lemma demo1_reachable: "reachable (at_rest demo1)"
proof -
  have "c_generation (y_file demo0) + 1 \<noteq> 0" by code_simp
  from Create_runs [OF demo1_Create demo_env_unbroken _ this demo0_reachable] show ?thesis by simp
qed

lemma demo2_reachable: "reachable (at_rest demo2)"
  unfolding demo2_def by (rule save_runs [OF demo1_reachable]) code_simp+

lemma demo_pool_at: "pool_at (y_store demo2) P4 = Some demo_pool"
proof -
  have "\<not> Option.is_none (pool_at (y_store demo2) P4)" by code_simp
  then show ?thesis by (cases "pool_at (y_store demo2) P4") (simp_all add: demo_pool_def)
qed

lemma demo_pool_inv: "pool_inv demo_pool"
  by (rule store_invD [OF store_ok_inv [OF at_rest_store(1) [OF demo2_reachable]] demo_pool_at])

section \<open>Every reachable state\<close>









text \<open>C5: \<open>Create\<close> returns: in a reachable state at rest it gives an address or an error after
  finitely many rounds of its loop, whatever the transactions do, as long as from some round on
  none of them breaks the file (a transaction may still fail in every round).\<close>

theorem Create_terminates:
  assumes "reachable (at_rest y)" "\<forall>n \<ge> N. fst (fst (env n)) \<noteq> Panic" "domain \<noteq> []"
  shows "\<exists>r. Create env domain v6 y = Some r"
  using at_rest_store(2) [OF assms(1)] assms(2,3) by (rule Create_returns)

theorem Create_terminates_witness:
  "\<exists>r. Create (\<lambda>n. ((if n < 3 then Panic else Fail, True), word_of_nat n)) ''a.example'' False demo1 = Some r"
  by (rule Create_terminates [OF demo1_reachable, of 3]) simp_all





text \<open>C8: The answer for a domain is stable: the query repeated at once, in any spelling, gets the
  same address.\<close>

theorem Create_stable:
  assumes "reachable (at_rest y)" "domain \<noteq> []" "Create env domain v6 y = Some (y', Inr a)"
    "to_lower domain' = to_lower domain"
  shows "\<exists>y''. Create env' domain' v6 y' = Some (y'', Inr a)"
proof -
  have "answered (if v6 then P6 else P4) (to_lower domain) (y', Inr a)"
    using assms(3) at_rest_store(1) [OF assms(1)] assms(2) by (rule Create_answered)
  then show ?thesis using Create_known [of y' v6 domain' a env'] assms(4) by (simp add: answered_def)
qed

theorem Create_stable_witness: "\<exists>y''. Create demo_env ''EXAMPLE.org'' False demo1 = Some (y'', Inr demo_address)"
proof -
  have "to_lower ''EXAMPLE.org'' = to_lower ''Example.org''" by code_simp
  from Create_stable [OF demo0_reachable _ demo1_Create this] show ?thesis by simp
qed

text \<open>C9: An answer is an address of the configured range of the family that was asked for.\<close>

theorem Create_in_range:
  assumes "reachable (at_rest y)" "domain \<noteq> []" "Create env domain v6 y = Some (y', Inr a)"
  shows "\<exists>pre. prefix_of (y_store y') (if v6 then P6 else P4) = Some pre \<and> contains pre a \<and> is4 a = (\<not> v6)"
proof -
  have "answered (if v6 then P6 else P4) (to_lower domain) (y', Inr a)"
    using assms(3) at_rest_store(1) [OF assms(1)] assms(2) by (rule Create_answered)
  then show ?thesis using known_contains [of "y_store y'" "if v6 then P6 else P4" "to_lower domain" a]
    by (cases v6) (auto simp: answered_def)
qed

theorem Create_in_range_witness:
  "\<exists>pre. prefix_of (y_store demo1) P4 = Some pre \<and> contains pre demo_address \<and> is4 demo_address"
  using Create_in_range [OF demo0_reachable _ demo1_Create] by simp

text \<open>C10: The search for a free address ends: in a well-formed range that is not full it stops within
  one turn of the ring, and it stops with the first free offset after the position or because the
  reserved addresses are used up.\<close>

theorem alloc_loop_stops:
  assumes "pool_inv p" "\<not> full p"
  shows "\<exists>n p' r. n < unat (usable p) \<and> alloc_loop saved failed p = Some (p', r) \<and>
    (\<forall>j < n. rec_at p (tried p j) \<noteq> None) \<and>
    (r = None \<and> reserve_ends saved failed p n \<or> r = Some (tried p n) \<and> in_ring p (tried p n) \<and> rec_at p (tried p n) = None)"
proof (rule alloc_loop_cases [OF assms, of saved failed], goal_cases)
  case (1 n) then show ?case by (intro exI [of _ n]) simp
next
  case (2 n) then show ?case by (intro exI [of _ n]) simp
qed

theorem alloc_loop_stops_witness:
  "\<exists>n p' r. n < unat (usable demo_pool) \<and> alloc_loop False False demo_pool = Some (p', r) \<and>
    (\<forall>j < n. rec_at demo_pool (tried demo_pool j) \<noteq> None) \<and>
    (r = None \<and> reserve_ends False False demo_pool n \<or>
     r = Some (tried demo_pool n) \<and> in_ring demo_pool (tried demo_pool n) \<and> rec_at demo_pool (tried demo_pool n) = None)"
proof (rule alloc_loop_stops)
  show "pool_inv demo_pool" by (rule demo_pool_inv)
  show "\<not> full demo_pool" by code_simp
qed

text \<open>C16: Offsets and addresses of a range are in one-to-one correspondence: an offset below the end
  of the range is the offset of its address, and an address that has an offset is the address of
  that offset, which is below the end.\<close>

theorem address_offset_roundtrip:
  assumes "pool_static p"
  shows "(off < p_end p \<longleftrightarrow> offset_of p (address p off) = Some off) \<and>
    (offset_of p a = Some off' \<longrightarrow> address p off' = a \<and> off' < p_end p)"
  using offset_of_address [OF assms] address_of_offset [OF assms] by blast

theorem address_offset_roundtrip_witness:
  "offset_of (newPool demo4) (address (newPool demo4) 7) = Some 7 \<and> address (newPool demo4) 2 = demo_address"
proof -
  have st: "pool_static (newPool demo4)" by code_simp
  have "7 < p_end (newPool demo4)" "offset_of (newPool demo4) demo_address = Some 2" by code_simp+
  with address_offset_roundtrip [OF st, of 7 demo_address 2] show ?thesis by simp
qed

text \<open>C17: The saved position survives the file: decoding the encoding of a position with valid ranges
  gives the position back.\<close>

theorem metadata_roundtrip: "metadata_ok m \<Longrightarrow> UnmarshalBinary (MarshalBinary m) = Inr m"
  by (rule UnmarshalBinary_MarshalBinary)

theorem metadata_roundtrip_witness:
  "UnmarshalBinary (MarshalBinary \<lparr>m_inet4Range = Some demo4, m_inet6Range = None, m_inet4Current = demo_address,
     m_inet6Current = NoAddr\<rparr>) = Inr \<lparr>m_inet4Range = Some demo4, m_inet6Range = None,
     m_inet4Current = demo_address, m_inet6Current = NoAddr\<rparr>"
  by (rule metadata_roundtrip) (simp add: metadata_ok_def demo4_def demo_address_def prefix_valid.simps)

text \<open>C14: What a save writes is what the file has afterwards: after a successful transaction an address
  has the domain put for it, an address only deleted has none, every other address what it had;
  after a failed one nothing has changed unless the file was recreated, which its number tells.\<close>

theorem save_changes_stored:
  assumes "changes_ok puts deletes" "plain a"
    "FakeIPSaveChanges t puts deletes m clean c = (c', ok)"
  shows "(ok \<longrightarrow> saved_table c' a = (case map_of puts a of Some d \<Rightarrow> Some d
            | None \<Rightarrow> if a \<in> set deletes then None else saved_table c a)) \<and>
    (\<not> ok \<longrightarrow> c_generation c' = c_generation c + 1 \<or> saved_table c' a = saved_table c a)"
  using cache.put_saved [OF _ assms(1,2), of t m clean c c'] cache.put_failed [of t puts deletes m clean c c'] assms(3)
  by (cases ok) auto

theorem save_changes_stored_witness:
  "saved_table (fst (FakeIPSaveChanges (Commit, True) [(demo_address, ''a.example'')] [Addr4 9]
     \<lparr>m_inet4Range = Some demo4, m_inet6Range = None, m_inet4Current = demo_address, m_inet6Current = NoAddr\<rparr>
     False demo_file)) demo_address = Some ''a.example''"
proof -
  let ?m = "\<lparr>m_inet4Range = Some demo4, m_inet6Range = None, m_inet4Current = demo_address, m_inet6Current = NoAddr\<rparr>"
  let ?puts = "[(demo_address, ''a.example'')]"
  obtain c' ok where e: "FakeIPSaveChanges (Commit, True) ?puts [Addr4 9] ?m False demo_file = (c', ok)"
    by (cases "FakeIPSaveChanges (Commit, True) ?puts [Addr4 9] ?m False demo_file")
  have "snd (FakeIPSaveChanges (Commit, True) ?puts [Addr4 9] ?m False demo_file)" by code_simp
  moreover have "changes_ok ?puts [Addr4 9]" "plain demo_address"
    by (simp_all add: changes_ok_def plain_def demo_address_def)
  ultimately show ?thesis using save_changes_stored [OF _ _ e, of demo_address] e by simp
qed

text \<open>C15: Addresses a crash may have left in use are not given to others: after an unclean stop, every
  offset of the reserve that ends in the saved position has a record, so that the search for free
  addresses skips it.\<close>

theorem hold_covers_reserve:
  assumes "pool_inv p" "in_ring p l" "back < unat (p_step p)"
  shows "rec_at (hold l u p) (ahead p l (usable p - word_of_nat back)) \<noteq> None"
  using assms by (rule hold_covers)

theorem hold_covers_reserve_witness:
  "rec_at (hold 6 1 demo_pool) (ahead demo_pool 6 (usable demo_pool - word_of_nat 2)) \<noteq> None"
proof (rule hold_covers_reserve)
  show "pool_inv demo_pool" by (rule demo_pool_inv)
  show "in_ring demo_pool 6" "2 < unat (p_step demo_pool)" by code_simp+
qed



text \<open>C13: Making room makes room: with a storage that takes the changes, that fails or that breaks, and
  without one, a full range of an open store has fewer records afterwards.\<close>

theorem makeRoom_frees:
  assumes "reachable (at_rest y)" "\<not> s_closed (y_store y)" "pool_at (y_store y) k = Some p" "full p"
  shows "\<exists>p'. pool_at (y_store (makeRoom t now k y)) k = Some p' \<and> length (p_byOffset p') < length (p_byOffset p)"
proof (cases "s_storage (y_store y)")
  case True
  show ?thesis
    using at_rest_store(2) [OF assms(1)] True assms(2-4) by (rule room_save_less) (auto simp: makeRoom_def True)
next
  case False
  show ?thesis
    using at_rest_store(2) [OF assms(1)] assms(3,4) by (rule makeRoom_memory_less) (auto simp: makeRoom_def False)
qed

text \<open>A range with a single address to give.\<close>

definition tiny4 :: prefix where
  "tiny4 = \<lparr>pfx_addr = Addr4 0xC6120000, pfx_bits = 30\<rparr>"

definition tiny0 :: sys where
  "tiny0 = \<lparr>y_store = NewStore (Some tiny4) None, y_file = demo_file\<rparr>"

definition tiny1 :: sys where
  "tiny1 = demo_create ''a.example'' tiny0"

definition tiny_pool :: pool where
  "tiny_pool = the (pool_at (y_store tiny1) P4)"

lemma tiny0_reachable: "reachable (at_rest tiny0)"
proof -
  have "ranges_ok (Some tiny4) None" "start_error (NewStore (Some tiny4) None) = None" by code_simp+
  from started.Memory [OF this, of demo_file] show ?thesis
    by (intro reachable.Started) (simp add: at_rest_def tiny0_def)
qed

lemma tiny1_reachable: "reachable (at_rest tiny1)"
proof -
  have "map_option snd (Create demo_env ''a.example'' False tiny0) = Some (Inr demo_address)" by code_simp
  then have c: "Create demo_env ''a.example'' False tiny0 = Some (tiny1, Inr demo_address)"
    by (auto simp: tiny1_def demo_create_def)
  have "c_generation (y_file tiny0) + 1 \<noteq> 0" by code_simp
  from Create_runs [OF c demo_env_unbroken _ this tiny0_reachable] show ?thesis by simp
qed

theorem makeRoom_frees_witness:
  "\<exists>p'. pool_at (y_store (makeRoom (Fail, True) 900001 P4 tiny1)) P4 = Some p' \<and>
     length (p_byOffset p') < length (p_byOffset tiny_pool)"
proof (rule makeRoom_frees)
  show "reachable (at_rest tiny1)" by (rule tiny1_reachable)
  have "\<not> Option.is_none (pool_at (y_store tiny1) P4)" by code_simp
  then show "pool_at (y_store tiny1) P4 = Some tiny_pool"
    by (cases "pool_at (y_store tiny1) P4") (simp_all add: tiny_pool_def)
  show "\<not> s_closed (y_store tiny1)" "full tiny_pool" by code_simp+
qed



section \<open>The root name\<close>






end
