(* ===== verification/Rule_Context.thy ===== *)
theory Rule_Context
  imports Netip "HOL-Library.Sublist"
begin

text \<open>
  What a routing rule looks at: the part of \<open>adapter.InboundContext\<close> (\<open>adapter/inbound.go\<close>)
  that the rule items read, with the rule cache the matching writes; DNS responses; and the
  surroundings of the rules (\<open>world\<close>): the services and the functions of other packages they ask.
\<close>

section \<open>Addresses once more\<close>

text \<open>\<open>Addr.Unmap\<close> and \<open>Prefix.Overlaps\<close> of \<open>net/netip\<close>.\<close>

fun unmap :: "addr \<Rightarrow> addr" where
  "unmap (Addr6 h l z) = (if h = 0 \<and> drop_bit 32 l = 0xffff then Addr4 (ucast l) else Addr6 h l z)"
| "unmap a = a"

definition overlaps :: "prefix \<Rightarrow> prefix \<Rightarrow> bool" where
  "overlaps p q =
     (prefix_valid p \<and> prefix_valid q \<and>
      (p = q \<or>
       is4 (pfx_addr p) = is4 (pfx_addr q) \<and>
       (let n = min (pfx_bits p) (pfx_bits q) in
        n = 0 \<or> mask_addr (pfx_addr p) n = mask_addr (pfx_addr q) n)))"

section \<open>DNS responses\<close>

text \<open>The records of an answer, as far as addresses are taken from them.\<close>

datatype hint = IPv4Hint "bytes list" | IPv6Hint "bytes list" | OtherHint

datatype rr_data = RR_A bytes | RR_AAAA bytes | RR_HTTPS "hint list" | RR_Other

record rr =
  rr_data :: rr_data
  rr_text :: string

record msg =
  msg_Rcode :: int
  msg_Answer :: "rr list"
  msg_Ns :: "rr list"
  msg_Extra :: "rr list"

text \<open>\<open>M.AddrFromIP\<close> of the library sing is the argument \<open>addrFromIP\<close>.\<close>

fun hint_addresses :: "(bytes \<Rightarrow> addr) \<Rightarrow> hint \<Rightarrow> addr list" where
  "hint_addresses addrFromIP (IPv4Hint ips) = filter addr_valid (map (\<lambda>ip. unmap (addrFromIP ip)) ips)"
| "hint_addresses addrFromIP (IPv6Hint ips) = filter addr_valid (map addrFromIP ips)"
| "hint_addresses addrFromIP OtherHint = []"

fun record_addresses :: "(bytes \<Rightarrow> addr) \<Rightarrow> rr_data \<Rightarrow> addr list" where
  "record_addresses addrFromIP (RR_A ip) = filter addr_valid [addrFromIP ip]"
| "record_addresses addrFromIP (RR_AAAA ip) = filter addr_valid [addrFromIP ip]"
| "record_addresses addrFromIP (RR_HTTPS hints) = concat (map (hint_addresses addrFromIP) hints)"
| "record_addresses addrFromIP RR_Other = []"

definition DNSResponseAddresses :: "(bytes \<Rightarrow> addr) \<Rightarrow> msg option \<Rightarrow> addr list" where
  "DNSResponseAddresses addrFromIP response =
     (case response of
        None \<Rightarrow> []
      | Some r \<Rightarrow>
          if msg_Rcode r \<noteq> 0 then []
          else concat (map (\<lambda>x. record_addresses addrFromIP (rr_data x)) (msg_Answer r)))"

section \<open>The connection\<close>

record socksaddr =
  sa_Addr :: addr
  sa_Port :: u16
  sa_Fqdn :: string

record owner =
  o_UserId :: int
  o_UserName :: string
  o_ProcessPath :: string
  o_AndroidPackageNames :: "string list"

text \<open>\<open>InboundContext\<close>: what is known about the connection, then the rule cache.\<close>

record ctx =
  m_Inbound :: string
  m_IPVersion :: u8
  m_Network :: string
  m_Source :: socksaddr
  m_Destination :: socksaddr
  m_User :: string
  m_Outbound :: string
  m_Protocol :: string
  m_Domain :: string
  m_Client :: string
  m_DestinationAddresses :: "addr list"
  m_DNSResponse :: "msg option"
  m_NamedDNSResponses :: "string \<rightharpoonup> msg"
  m_MatchFromResponse :: bool \<comment> \<open>\<open>DestinationAddressMatchFromResponse\<close>\<close>
  m_ProcessInfo :: "owner option"
  m_SourceMACAddress :: "bytes option"
  m_SourceHostname :: string
  m_QueryType :: u16
  m_QueryClientSubnet :: "prefix option"
  m_QueryDNSSEC :: bool
  m_PreMatch :: bool
  m_IPCIDRMatchSource :: bool
  m_IPCIDRAcceptEmpty :: bool
  m_SourceAddressMatch :: bool
  m_SourcePortMatch :: bool
  m_DestinationAddressMatch :: bool
  m_DestinationPortMatch :: bool
  m_DeferredGroups :: u8 \<comment> \<open>\<open>DeferredIPCIDRMatchGroups\<close>\<close>
  m_IgnoreDestinationIPCIDR :: bool
  m_RuleSetDomainOnly :: bool
  m_RuleSetDomainMatched :: bool

definition ResetRuleMatchCache :: "ctx \<Rightarrow> ctx" where
  "ResetRuleMatchCache m =
     m\<lparr>m_SourceAddressMatch := False, m_SourcePortMatch := False, m_DestinationAddressMatch := False,
       m_DestinationPortMatch := False, m_DeferredGroups := 0\<rparr>"

definition ResetRuleCache :: "ctx \<Rightarrow> ctx" where
  "ResetRuleCache m = ResetRuleMatchCache (m\<lparr>m_IPCIDRMatchSource := False, m_IPCIDRAcceptEmpty := False\<rparr>)"

section \<open>The surroundings\<close>

text \<open>\<open>C.InterfaceType\<close>\<close>

datatype interface_type = WIFI | Cellular | Ethernet | OtherInterface

fun interface_type_string :: "interface_type \<Rightarrow> string" where
  "interface_type_string WIFI = ''wifi''"
| "interface_type_string Cellular = ''cellular''"
| "interface_type_string Ethernet = ''ethernet''"
| "interface_type_string OtherInterface = ''other''"

record iface =
  if_Name :: string
  if_Addresses :: "prefix list"

record net_iface =
  ni_Interface :: iface
  ni_Type :: interface_type
  ni_Expensive :: bool
  ni_Constrained :: bool

text \<open>
  Functions of other packages: \<open>M.AddrFromIP\<close>, \<open>N.IsPublicAddr\<close>, \<open>Socksaddr.IsIP\<close> and
  \<open>Socksaddr.IsIPv6\<close> of sing, \<open>CanonicalName\<close> and the names of types and codes of the DNS
  library, \<open>filepath.Base\<close> of the platform, the text of a prefix. State of services: the mode of
  the Clash API, the network manager with the default interface, the Wi-Fi network and the
  interfaces, and the monitor of the default interface.
\<close>

record world =
  w_addrFromIP :: "bytes \<Rightarrow> addr"
  w_IsPublicAddr :: "addr \<Rightarrow> bool"
  w_IsIP :: "socksaddr \<Rightarrow> bool"
  w_IsIPv6 :: "socksaddr \<Rightarrow> bool"
  w_canonicalName :: "string \<Rightarrow> string"
  w_typeString :: "u16 \<Rightarrow> string"
  w_rcodeString :: "int \<Rightarrow> string"
  w_filepathBase :: "string \<Rightarrow> string"
  w_prefixString :: "prefix \<Rightarrow> string"
  w_isAndroid :: bool
  w_clashMode :: "string option"
  w_defaultNetworkInterface :: "net_iface option"
  w_networkInterfaces :: "net_iface list"
  w_SSID :: string
  w_BSSID :: string
  w_interfaces :: "iface list"
  w_monitor :: "(iface option \<times> string list) option" \<comment> \<open>default interface, own interfaces\<close>

definition DNSResponseAddressesForMatch :: "world \<Rightarrow> ctx \<Rightarrow> addr list" where
  "DNSResponseAddressesForMatch w m = DNSResponseAddresses (w_addrFromIP w) (m_DNSResponse m)"

text \<open>The domain of a connection, as every item that looks at it takes it.\<close>

definition domain_host :: "ctx \<Rightarrow> string" where
  "domain_host m = (if m_Domain m \<noteq> [] then m_Domain m else sa_Fqdn (m_Destination m))"

section \<open>Text\<close>

fun join :: "string \<Rightarrow> string list \<Rightarrow> string" where
  "join sep [] = []"
| "join sep [x] = x"
| "join sep (x # xs) = x @ sep @ join sep xs"

fun dec :: "nat \<Rightarrow> string" where
  "dec n = (if n < 10 then [char_of (48 + n)] else dec (n div 10) @ [char_of (48 + n mod 10)])"

declare dec.simps [simp del]

definition dec_int :: "int \<Rightarrow> string" where
  "dec_int i = (if i < 0 then CHR ''-'' # dec (nat (- i)) else dec (nat i))"

text \<open>A list of values after its name: alone, or all of them in brackets.\<close>

definition listed :: "string \<Rightarrow> string list \<Rightarrow> string" where
  "listed name xs = (case xs of [x] \<Rightarrow> name @ x | _ \<Rightarrow> name @ ''['' @ join '' '' xs @ '']'')"

text \<open>The same with at most three values; \<open>dots\<close> tells that there are others.\<close>

definition listed3 :: "string \<Rightarrow> string \<Rightarrow> string list \<Rightarrow> string" where
  "listed3 dots name xs =
     (if length xs = 1 then name @ hd xs
      else if 3 < length xs then name @ ''['' @ join '' '' (take 3 xs) @ dots @ '']''
      else name @ ''['' @ join '' '' xs @ '']'')"

end
