(* ===== verification/Rule_Items.thy ===== *)
theory Rule_Items
  imports Rule_Context
begin

text \<open>
  The conditions a rule is made of, one group of definitions per file \<open>route/rule/rule_item_*.go\<close>
  and \<open>rule_*interface_address.go\<close>: what the constructor makes, when the item matches and what it
  prints. A Go map that is only asked for membership is the list it is built from.

  A compiled regular expression, a domain matcher and a set of addresses come from other packages
  (\<open>regexp\<close>, \<open>sing/common/domain\<close>, \<open>netipx\<close>): they are functions to \<open>bool\<close> in the items, and
  making them from their text is an argument of the constructors.
\<close>

datatype rule_error =
    MissingConditions
  | UnknownType string
  | UnknownMode string
  | InvalidIPVersion int
  | EmptyDomain
  | EmptyDomainSuffix
  | BadMatcher
  | BadExpression nat
  | BadPrefix nat
  | BadIPSet
  | BadPortRange string
  | BadPort string
  | Removed string
  | NotTopLevel string
  | MissingField string
  | Unsupported string
  | Exclusive
  | RaceNeedsFinal
  | RaceAndSpeculative
  | RaceNeedsResponse
  | NestedAction
  | RuleSetNotFound string
  | OutboundNotFound string
  | Cause string rule_error
  | SubRule nat rule_error
  | Panicked

section \<open>Lists of names\<close>

definition InboundItem_Match :: "string list \<Rightarrow> ctx \<Rightarrow> bool" where
  "InboundItem_Match inbounds m = (m_Inbound m \<in> set inbounds)"

definition InboundItem_String :: "string list \<Rightarrow> string" where
  "InboundItem_String inbounds = listed ''inbound='' inbounds"

definition AuthUserItem_Match :: "string list \<Rightarrow> ctx \<Rightarrow> bool" where
  "AuthUserItem_Match users m = (m_User m \<in> set users)"

definition AuthUserItem_String :: "string list \<Rightarrow> string" where
  "AuthUserItem_String users = listed ''auth_user='' users"

definition ClientItem_Match :: "string list \<Rightarrow> ctx \<Rightarrow> bool" where
  "ClientItem_Match clients m = (m_Client m \<in> set clients)"

definition ClientItem_String :: "string list \<Rightarrow> string" where
  "ClientItem_String clients = listed ''client='' clients"

definition NetworkItem_Match :: "string list \<Rightarrow> ctx \<Rightarrow> bool" where
  "NetworkItem_Match networks m = (m_Network m \<in> set networks)"

definition NetworkItem_String :: "string list \<Rightarrow> string" where
  "NetworkItem_String networks = listed ''network='' networks"

definition ProtocolItem_Match :: "string list \<Rightarrow> ctx \<Rightarrow> bool" where
  "ProtocolItem_Match protocols m = (m_Protocol m \<in> set protocols)"

definition ProtocolItem_String :: "string list \<Rightarrow> string" where
  "ProtocolItem_String protocols = listed ''protocol='' protocols"

text \<open>\<open>any\<close> among the outbounds sets \<open>matchAny\<close> and is not in the map.\<close>

definition OutboundItem_Match :: "string list \<Rightarrow> ctx \<Rightarrow> bool" where
  "OutboundItem_Match outbounds m =
     (if ''any'' \<in> set outbounds then m_Outbound m \<noteq> []
      else m_Outbound m \<in> set (filter (\<lambda>x. x \<noteq> ''any'') outbounds))"

definition OutboundItem_String :: "string list \<Rightarrow> string" where
  "OutboundItem_String outbounds = listed ''outbound='' outbounds"

definition SourceHostnameItem_Match :: "string list \<Rightarrow> ctx \<Rightarrow> bool" where
  "SourceHostnameItem_Match hostnames m =
     (if m_SourceHostname m = [] then False else m_SourceHostname m \<in> set hostnames)"

definition SourceHostnameItem_String :: "string list \<Rightarrow> string" where
  "SourceHostnameItem_String hostnames = listed ''source_hostname='' hostnames"

text \<open>\<open>net.HardwareAddr.String\<close>; \<open>parseMAC\<close> is \<open>net.ParseMAC\<close>.\<close>

definition hex_digit :: "nat \<Rightarrow> char" where
  "hex_digit n = (if n < 10 then char_of (48 + n) else char_of (87 + n))"

definition mac_string :: "bytes \<Rightarrow> string" where
  "mac_string bs = join '':'' (map (\<lambda>b. [hex_digit (unat b div 16), hex_digit (unat b mod 16)]) bs)"

definition NewSourceMACAddressItem :: "(string \<Rightarrow> bytes option) \<Rightarrow> string list \<Rightarrow> string list" where
  "NewSourceMACAddressItem parseMAC addresses =
     map (\<lambda>a. case parseMAC a of Some p \<Rightarrow> mac_string p | None \<Rightarrow> a) addresses"

definition SourceMACAddressItem_Match :: "string list \<Rightarrow> ctx \<Rightarrow> bool" where
  "SourceMACAddressItem_Match addressMap m =
     (case m_SourceMACAddress m of None \<Rightarrow> False | Some a \<Rightarrow> mac_string a \<in> set addressMap)"

definition SourceMACAddressItem_String :: "string list \<Rightarrow> string" where
  "SourceMACAddressItem_String addresses = listed ''source_mac_address='' addresses"

section \<open>Domains\<close>

definition NewDomainItem ::
  "(string list \<Rightarrow> string list \<Rightarrow> (string \<Rightarrow> bool) option) \<Rightarrow> string list \<Rightarrow> string list
    \<Rightarrow> rule_error + (string \<Rightarrow> bool) \<times> string" where
  "NewDomainItem newMatcher domains domainSuffixes =
     (if [] \<in> set domains then Inl EmptyDomain
      else if [] \<in> set domainSuffixes then Inl EmptyDomainSuffix
      else
        let d = (if domains = [] then [] else listed3 ''...'' ''domain='' domains);
            s = (if domainSuffixes = [] then [] else listed3 ''...'' ''domain_suffix='' domainSuffixes) in
        (case newMatcher domains domainSuffixes of
           None \<Rightarrow> Inl BadMatcher
         | Some matcher \<Rightarrow>
             Inr (matcher, d @ (if d \<noteq> [] \<and> domainSuffixes \<noteq> [] then '' '' else []) @ s)))"

definition DomainItem_Match :: "(string \<Rightarrow> bool) \<Rightarrow> ctx \<Rightarrow> bool" where
  "DomainItem_Match matcher m =
     (if domain_host m = [] then False else matcher (to_lower (domain_host m)))"

definition DomainKeywordItem_Match :: "string list \<Rightarrow> ctx \<Rightarrow> bool" where
  "DomainKeywordItem_Match keywords m =
     (if domain_host m = [] then False
      else list_ex (\<lambda>k. sublist k (to_lower (domain_host m))) keywords)"

definition DomainKeywordItem_String :: "string list \<Rightarrow> string" where
  "DomainKeywordItem_String keywords = listed3 ''...'' ''domain_keyword='' keywords"

text \<open>The expressions of a list, compiled up to the first that is wrong.\<close>

fun compile_all :: "(string \<Rightarrow> (string \<Rightarrow> bool) option) \<Rightarrow> nat \<Rightarrow> string list \<Rightarrow> rule_error + (string \<Rightarrow> bool) list" where
  "compile_all compile i [] = Inr []"
| "compile_all compile i (e # es) =
     (case compile e of
        None \<Rightarrow> Inl (BadExpression i)
      | Some f \<Rightarrow>
          (case compile_all compile (Suc i) es of Inl err \<Rightarrow> Inl err | Inr fs \<Rightarrow> Inr (f # fs)))"

definition NewDomainRegexItem ::
  "(string \<Rightarrow> (string \<Rightarrow> bool) option) \<Rightarrow> string list \<Rightarrow> rule_error + (string \<Rightarrow> bool) list \<times> string" where
  "NewDomainRegexItem compile expressions =
     (case compile_all compile 0 expressions of
        Inl e \<Rightarrow> Inl e
      | Inr fs \<Rightarrow> Inr (fs, listed3 [] ''domain_regex='' expressions))"

definition DomainRegexItem_Match :: "(string \<Rightarrow> bool) list \<Rightarrow> ctx \<Rightarrow> bool" where
  "DomainRegexItem_Match matchers m =
     (if domain_host m = [] then False else list_ex (\<lambda>f. f (to_lower (domain_host m))) matchers)"

definition AdGuardDomainItem_Match :: "(string \<Rightarrow> bool) \<Rightarrow> ctx \<Rightarrow> bool" where
  "AdGuardDomainItem_Match matcher m =
     (if domain_host m = [] then False else matcher (to_lower (domain_host m)))"

section \<open>Addresses\<close>

fun parse_prefixes ::
  "(string \<Rightarrow> prefix option) \<Rightarrow> (string \<Rightarrow> addr option) \<Rightarrow> nat \<Rightarrow> string list \<Rightarrow> rule_error + (prefix + addr) list" where
  "parse_prefixes parsePrefix parseAddr i [] = Inr []"
| "parse_prefixes parsePrefix parseAddr i (s # ss) =
     (let rest = parse_prefixes parsePrefix parseAddr (Suc i) ss in
      case parsePrefix s of
        Some p \<Rightarrow> (case rest of Inl e \<Rightarrow> Inl e | Inr xs \<Rightarrow> Inr (Inl p # xs))
      | None \<Rightarrow>
          (case parseAddr s of
             Some a \<Rightarrow> (case rest of Inl e \<Rightarrow> Inl e | Inr xs \<Rightarrow> Inr (Inr a # xs))
           | None \<Rightarrow> Inl (BadPrefix i)))"

definition cidr_name :: "bool \<Rightarrow> string" where
  "cidr_name isSource = (if isSource then ''source_ip_cidr='' else ''ip_cidr='')"

text \<open>\<open>ipSet\<close> stands for the building of a \<open>netipx.IPSet\<close>; \<open>None\<close> is its error.\<close>

definition NewIPCIDRItem ::
  "(string \<Rightarrow> prefix option) \<Rightarrow> (string \<Rightarrow> addr option) \<Rightarrow> ((prefix + addr) list \<Rightarrow> (addr \<Rightarrow> bool) option)
    \<Rightarrow> bool \<Rightarrow> string list \<Rightarrow> rule_error + (addr \<Rightarrow> bool) \<times> bool \<times> string" where
  "NewIPCIDRItem parsePrefix parseAddr ipSet isSource prefixStrings =
     (case parse_prefixes parsePrefix parseAddr 0 prefixStrings of
        Inl e \<Rightarrow> Inl e
      | Inr entries \<Rightarrow>
          (case ipSet entries of
             None \<Rightarrow> Inl BadIPSet
           | Some s \<Rightarrow> Inr (s, isSource, listed3 ''...'' (cidr_name isSource) prefixStrings)))"

definition NewRawIPCIDRItem :: "bool \<Rightarrow> (addr \<Rightarrow> bool) \<Rightarrow> (addr \<Rightarrow> bool) \<times> bool \<times> string" where
  "NewRawIPCIDRItem isSource ipSet = (ipSet, isSource, cidr_name isSource @ ''<binary>'')"

definition IPCIDRItem_Match :: "world \<Rightarrow> (addr \<Rightarrow> bool) \<Rightarrow> bool \<Rightarrow> ctx \<Rightarrow> bool" where
  "IPCIDRItem_Match w ipSet isSource m =
     (if isSource \<or> m_IPCIDRMatchSource m then ipSet (sa_Addr (m_Source m))
      else if m_MatchFromResponse m
      then
        let addresses = DNSResponseAddressesForMatch w m in
        if addresses = [] then m_IPCIDRAcceptEmpty m else list_ex ipSet addresses
      else if w_IsIP w (m_Destination m) then ipSet (sa_Addr (m_Destination m))
      else if m_DestinationAddresses m \<noteq> [] then list_ex ipSet (m_DestinationAddresses m)
      else m_IPCIDRAcceptEmpty m)"

definition IPIsPrivateItem_Match :: "world \<Rightarrow> bool \<Rightarrow> ctx \<Rightarrow> bool" where
  "IPIsPrivateItem_Match w isSource m =
     (if isSource then \<not> w_IsPublicAddr w (sa_Addr (m_Source m))
      else if m_MatchFromResponse m
      then list_ex (\<lambda>a. \<not> w_IsPublicAddr w a) (DNSResponseAddressesForMatch w m)
      else if addr_valid (sa_Addr (m_Destination m)) then \<not> w_IsPublicAddr w (sa_Addr (m_Destination m))
      else list_ex (\<lambda>a. \<not> w_IsPublicAddr w a) (m_DestinationAddresses m))"

definition IPIsPrivateItem_String :: "bool \<Rightarrow> string" where
  "IPIsPrivateItem_String isSource = (if isSource then ''source_ip_is_private=true'' else ''ip_is_private=true'')"

definition IPAcceptAnyItem_Match :: "world \<Rightarrow> ctx \<Rightarrow> bool" where
  "IPAcceptAnyItem_Match w m =
     (if m_MatchFromResponse m then DNSResponseAddressesForMatch w m \<noteq> [] else m_DestinationAddresses m \<noteq> [])"

definition IPVersionItem_Match :: "world \<Rightarrow> bool \<Rightarrow> ctx \<Rightarrow> bool" where
  "IPVersionItem_Match w isIPv6 m =
     (m_IPVersion m \<noteq> 0 \<and> (m_IPVersion m = 6) = isIPv6 \<or>
      w_IsIP w (m_Destination m) \<and> w_IsIPv6 w (m_Destination m) = isIPv6)"

definition IPVersionItem_String :: "bool \<Rightarrow> string" where
  "IPVersionItem_String isIPv6 = ''ip_version='' @ (if isIPv6 then ''6'' else ''4'')"

section \<open>Ports\<close>

definition port_of :: "bool \<Rightarrow> ctx \<Rightarrow> u16" where
  "port_of isSource m = (if isSource then sa_Port (m_Source m) else sa_Port (m_Destination m))"

definition PortItem_Match :: "u16 list \<Rightarrow> bool \<Rightarrow> ctx \<Rightarrow> bool" where
  "PortItem_Match ports isSource m = (port_of isSource m \<in> set ports)"

definition PortItem_String :: "u16 list \<Rightarrow> bool \<Rightarrow> string" where
  "PortItem_String ports isSource =
     listed (if isSource then ''source_port='' else ''port='') (map (\<lambda>p. dec (unat p)) ports)"

text \<open>\<open>strconv.ParseUint\<close> with base 10 and 16 bits: decimal digits, at least one, no overflow.\<close>

definition is_digit :: "char \<Rightarrow> bool" where
  "is_digit c = (48 \<le> (of_char c :: nat) \<and> (of_char c :: nat) \<le> 57)"

fun digits_value :: "nat \<Rightarrow> string \<Rightarrow> nat" where
  "digits_value v [] = v"
| "digits_value v (c # cs) = digits_value (10 * v + (of_char c - 48)) cs"

definition parse_uint16 :: "string \<Rightarrow> u16 option" where
  "parse_uint16 s =
     (if s \<noteq> [] \<and> list_all is_digit s \<and> digits_value 0 s < 65536
      then Some (word_of_nat (digits_value 0 s)) else None)"

text \<open>One range \<open>start:end\<close>; a missing start is 0, a missing end 65535.\<close>

definition parse_port_range :: "string \<Rightarrow> rule_error + u16 \<times> u16" where
  "parse_port_range s =
     (if CHR '':'' \<notin> set s then Inl (BadPortRange s)
      else
        let before = takeWhile (\<lambda>c. c \<noteq> CHR '':'') s; rest = tl (dropWhile (\<lambda>c. c \<noteq> CHR '':'') s) in
        case (if before = [] then Some 0 else parse_uint16 before) of
          None \<Rightarrow> Inl (BadPort s)
        | Some start \<Rightarrow>
            (case (if rest = [] then Some 0xFFFF else parse_uint16 rest) of
               None \<Rightarrow> Inl (BadPort s)
             | Some stop \<Rightarrow> Inr (start, stop)))"

fun parse_port_ranges :: "string list \<Rightarrow> rule_error + (u16 \<times> u16) list" where
  "parse_port_ranges [] = Inr []"
| "parse_port_ranges (s # ss) =
     (case parse_port_range s of
        Inl e \<Rightarrow> Inl e
      | Inr r \<Rightarrow> (case parse_port_ranges ss of Inl e \<Rightarrow> Inl e | Inr rs \<Rightarrow> Inr (r # rs)))"

definition NewPortRangeItem :: "bool \<Rightarrow> string list \<Rightarrow> rule_error + bool \<times> string list \<times> (u16 \<times> u16) list" where
  "NewPortRangeItem isSource rangeList =
     (case parse_port_ranges rangeList of Inl e \<Rightarrow> Inl e | Inr rs \<Rightarrow> Inr (isSource, rangeList, rs))"

definition PortRangeItem_Match :: "bool \<Rightarrow> (u16 \<times> u16) list \<Rightarrow> ctx \<Rightarrow> bool" where
  "PortRangeItem_Match isSource ranges m =
     list_ex (\<lambda>(start, stop). start \<le> port_of isSource m \<and> port_of isSource m \<le> stop) ranges"

definition PortRangeItem_String :: "bool \<Rightarrow> string list \<Rightarrow> string" where
  "PortRangeItem_String isSource ranges = listed (if isSource then ''source_port_range='' else ''port_range='') ranges"

section \<open>Processes and users\<close>

definition ProcessItem_Match :: "world \<Rightarrow> string list \<Rightarrow> ctx \<Rightarrow> bool" where
  "ProcessItem_Match w processes m =
     (case m_ProcessInfo m of
        None \<Rightarrow> False
      | Some o' \<Rightarrow> if o_ProcessPath o' = [] then False else w_filepathBase w (o_ProcessPath o') \<in> set processes)"

definition ProcessItem_String :: "string list \<Rightarrow> string" where
  "ProcessItem_String processes = listed ''process_name='' processes"

definition ProcessPathItem_Match :: "world \<Rightarrow> string list \<Rightarrow> ctx \<Rightarrow> bool" where
  "ProcessPathItem_Match w processes m =
     (case m_ProcessInfo m of
        None \<Rightarrow> False
      | Some o' \<Rightarrow>
          o_ProcessPath o' \<noteq> [] \<and> o_ProcessPath o' \<in> set processes \<or>
          w_isAndroid w \<and> list_ex (\<lambda>n. n \<in> set processes) (o_AndroidPackageNames o'))"

definition ProcessPathItem_String :: "string list \<Rightarrow> string" where
  "ProcessPathItem_String processes = listed ''process_path='' processes"

definition NewProcessPathRegexItem ::
  "(string \<Rightarrow> (string \<Rightarrow> bool) option) \<Rightarrow> string list \<Rightarrow> rule_error + (string \<Rightarrow> bool) list \<times> string" where
  "NewProcessPathRegexItem compile expressions =
     (case compile_all compile 0 expressions of
        Inl e \<Rightarrow> Inl e
      | Inr fs \<Rightarrow> Inr (fs, listed3 [] ''process_path_regex='' expressions))"

definition ProcessPathRegexItem_Match :: "(string \<Rightarrow> bool) list \<Rightarrow> ctx \<Rightarrow> bool" where
  "ProcessPathRegexItem_Match matchers m =
     (case m_ProcessInfo m of
        None \<Rightarrow> False
      | Some o' \<Rightarrow> if o_ProcessPath o' = [] then False else list_ex (\<lambda>f. f (o_ProcessPath o')) matchers)"

definition PackageNameItem_Match :: "string list \<Rightarrow> ctx \<Rightarrow> bool" where
  "PackageNameItem_Match names m =
     (case m_ProcessInfo m of
        None \<Rightarrow> False
      | Some o' \<Rightarrow> if o_AndroidPackageNames o' = [] then False
                   else list_ex (\<lambda>n. n \<in> set names) (o_AndroidPackageNames o'))"

definition PackageNameItem_String :: "string list \<Rightarrow> string" where
  "PackageNameItem_String names = listed ''package_name='' names"

definition NewPackageNameRegexItem ::
  "(string \<Rightarrow> (string \<Rightarrow> bool) option) \<Rightarrow> string list \<Rightarrow> rule_error + (string \<Rightarrow> bool) list \<times> string" where
  "NewPackageNameRegexItem compile expressions =
     (case compile_all compile 0 expressions of
        Inl e \<Rightarrow> Inl e
      | Inr fs \<Rightarrow> Inr (fs, listed3 [] ''package_name_regex='' expressions))"

definition PackageNameRegexItem_Match :: "(string \<Rightarrow> bool) list \<Rightarrow> ctx \<Rightarrow> bool" where
  "PackageNameRegexItem_Match matchers m =
     (case m_ProcessInfo m of
        None \<Rightarrow> False
      | Some o' \<Rightarrow> if o_AndroidPackageNames o' = [] then False
                   else list_ex (\<lambda>f. list_ex f (o_AndroidPackageNames o')) matchers)"

definition UserItem_Match :: "string list \<Rightarrow> ctx \<Rightarrow> bool" where
  "UserItem_Match users m =
     (case m_ProcessInfo m of
        None \<Rightarrow> False
      | Some o' \<Rightarrow> if o_UserName o' = [] then False else o_UserName o' \<in> set users)"

definition UserItem_String :: "string list \<Rightarrow> string" where
  "UserItem_String users = listed ''user='' users"

definition UserIdItem_Match :: "int list \<Rightarrow> ctx \<Rightarrow> bool" where
  "UserIdItem_Match ids m =
     (case m_ProcessInfo m of
        None \<Rightarrow> False
      | Some o' \<Rightarrow> if o_UserId o' = - 1 then False else o_UserId o' \<in> set ids)"

definition UserIdItem_String :: "int list \<Rightarrow> string" where
  "UserIdItem_String ids = listed ''user_id='' (map dec_int ids)"

section \<open>Networks\<close>

text \<open>\<open>strings.EqualFold\<close> for ASCII.\<close>

definition ClashModeItem_Match :: "world \<Rightarrow> string \<Rightarrow> bool" where
  "ClashModeItem_Match w mode =
     (case w_clashMode w of None \<Rightarrow> False | Some current \<Rightarrow> to_lower current = to_lower mode)"

definition NetworkTypeItem_Match :: "world \<Rightarrow> interface_type list \<Rightarrow> bool" where
  "NetworkTypeItem_Match w types =
     (case w_defaultNetworkInterface w of None \<Rightarrow> False | Some i \<Rightarrow> ni_Type i \<in> set types)"

definition NetworkTypeItem_String :: "interface_type list \<Rightarrow> string" where
  "NetworkTypeItem_String types = listed ''network_type='' (map interface_type_string types)"

definition NetworkIsExpensiveItem_Match :: "world \<Rightarrow> bool" where
  "NetworkIsExpensiveItem_Match w =
     (case w_defaultNetworkInterface w of None \<Rightarrow> False | Some i \<Rightarrow> ni_Expensive i)"

definition NetworkIsExpensiveItem_String :: string where
  "NetworkIsExpensiveItem_String = ''network_is_expensive=true''"

definition NetworkIsConstrainedItem_Match :: "world \<Rightarrow> bool" where
  "NetworkIsConstrainedItem_Match w =
     (case w_defaultNetworkInterface w of None \<Rightarrow> False | Some i \<Rightarrow> ni_Constrained i)"

definition NetworkIsConstrainedItem_String :: string where
  "NetworkIsConstrainedItem_String = ''network_is_expensive=true''"

definition WIFISSIDItem_Match :: "world \<Rightarrow> string list \<Rightarrow> bool" where
  "WIFISSIDItem_Match w ssids = (w_SSID w \<in> set ssids)"

definition WIFISSIDItem_String :: "string list \<Rightarrow> string" where
  "WIFISSIDItem_String ssids = listed ''wifi_ssid='' ssids"

text \<open>
  \<open>adapter.NormalizeWIFIBSSID\<close>. Of \<open>strings.TrimSpace\<close> the ASCII white space is modelled, of
  \<open>net.ParseMAC\<close> the forms with six bytes (\<open>parse_mac\<close>), which are the only ones the code keeps.
\<close>

definition is_space :: "char \<Rightarrow> bool" where
  "is_space c = ((of_char c :: nat) \<in> {9, 10, 11, 12, 13, 32})"

definition TrimSpace :: "string \<Rightarrow> string" where
  "TrimSpace s = rev (dropWhile is_space (rev (dropWhile is_space s)))"

definition hex_value :: "char \<Rightarrow> nat option" where
  "hex_value c =
     (let n = of_char c in
      if 48 \<le> n \<and> n \<le> 57 then Some (n - 48)
      else if 97 \<le> n \<and> n \<le> 102 then Some (n - 87)
      else if 65 \<le> n \<and> n \<le> 70 then Some (n - 55)
      else None)"

definition hex_byte :: "char \<Rightarrow> char \<Rightarrow> u8 option" where
  "hex_byte a b =
     (case (hex_value a, hex_value b) of (Some x, Some y) \<Rightarrow> Some (word_of_nat (16 * x + y)) | _ \<Rightarrow> None)"

fun hex_bytes :: "string \<Rightarrow> u8 list option" where
  "hex_bytes [] = Some []"
| "hex_bytes (a # b # s) =
     (case (hex_byte a b, hex_bytes s) of (Some n, Some ns) \<Rightarrow> Some (n # ns) | _ \<Rightarrow> None)"
| "hex_bytes [a] = None"

fun sep_bytes :: "char \<Rightarrow> string \<Rightarrow> u8 list option" where
  "sep_bytes c (a # b # s) =
     (case hex_byte a b of
        None \<Rightarrow> None
      | Some n \<Rightarrow>
          (case s of
             [] \<Rightarrow> Some [n]
           | c' # s' \<Rightarrow> if c' \<noteq> c then None else (case sep_bytes c s' of None \<Rightarrow> None | Some ns \<Rightarrow> Some (n # ns))))"
| "sep_bytes c s = None"

definition parse_mac :: "string \<Rightarrow> u8 list option" where
  "parse_mac s =
     (if length s = 17 \<and> (s ! 2 = CHR '':'' \<or> s ! 2 = CHR ''-'') then sep_bytes (s ! 2) s
      else if length s = 14 \<and> s ! 4 = CHR ''.'' \<and> s ! 9 = CHR ''.''
      then hex_bytes (take 4 s @ take 4 (drop 5 s) @ drop 10 s)
      else None)"

definition NormalizeWIFIBSSID :: "string \<Rightarrow> string" where
  "NormalizeWIFIBSSID bssid0 =
     (let bssid = TrimSpace bssid0 in
      if bssid = [] then []
      else case parse_mac bssid of
        Some parsed \<Rightarrow> mac_string parsed
      | None \<Rightarrow>
          if length bssid = 12
          then (case hex_bytes bssid of Some decoded \<Rightarrow> mac_string decoded | None \<Rightarrow> bssid)
          else bssid)"

definition NewWIFIBSSIDItem :: "string list \<Rightarrow> string list" where
  "NewWIFIBSSIDItem bssidList = map NormalizeWIFIBSSID bssidList"

definition WIFIBSSIDItem_Match :: "world \<Rightarrow> string list \<Rightarrow> bool" where
  "WIFIBSSIDItem_Match w bssidMap = (w_BSSID w \<in> set bssidMap)"

definition WIFIBSSIDItem_String :: "string list \<Rightarrow> string" where
  "WIFIBSSIDItem_String bssids = listed ''wifi_bssid='' bssids"

text \<open>Every named interface exists and one of its addresses lies in one of the prefixes.\<close>

definition InterfaceAddressItem_Match :: "world \<Rightarrow> (string \<times> prefix list) list \<Rightarrow> bool" where
  "InterfaceAddressItem_Match w addresses =
     list_all (\<lambda>(name, prefixes).
       case find (\<lambda>i. if_Name i = name) (w_interfaces w) of
         None \<Rightarrow> False
       | Some i \<Rightarrow> if_Name i \<noteq> [] \<and>
           \<not> list_all (\<lambda>a. list_all (\<lambda>it. \<not> overlaps a it) (if_Addresses i)) prefixes) addresses"

definition DefaultInterfaceAddressItem_Match :: "world \<Rightarrow> prefix list \<Rightarrow> bool" where
  "DefaultInterfaceAddressItem_Match w addresses =
     (case w_monitor w of
        None \<Rightarrow> False
      | Some (dflt, _) \<Rightarrow>
          (case dflt of
             None \<Rightarrow> False
           | Some i \<Rightarrow> list_all (\<lambda>a. \<not> list_all (\<lambda>it. \<not> overlaps a it) (if_Addresses i)) addresses))"

definition DefaultInterfaceAddressItem_String :: "world \<Rightarrow> prefix list \<Rightarrow> string" where
  "DefaultInterfaceAddressItem_String w addresses =
     listed3 ''...'' ''default_interface_address='' (map (w_prefixString w) addresses)"

definition NetworkInterfaceAddressItem_Match :: "world \<Rightarrow> (interface_type \<times> prefix list) list \<Rightarrow> bool" where
  "NetworkInterfaceAddressItem_Match w addresses =
     (let mine = (case w_monitor w of None \<Rightarrow> [] | Some (_, names) \<Rightarrow> names) in
      list_all (\<lambda>(type, prefixes).
        list_ex (\<lambda>n. if_Name (ni_Interface n) \<notin> set mine \<and> ni_Type n = type \<and>
            list_ex (\<lambda>it. list_ex (\<lambda>p. overlaps p it) prefixes) (if_Addresses (ni_Interface n)))
          (w_networkInterfaces w)) addresses)"

section \<open>DNS\<close>

definition QueryTypeItem_Match :: "u16 list \<Rightarrow> ctx \<Rightarrow> bool" where
  "QueryTypeItem_Match types m = (if m_QueryType m = 0 then False else m_QueryType m \<in> set types)"

definition QueryTypeItem_String :: "world \<Rightarrow> u16 list \<Rightarrow> string" where
  "QueryTypeItem_String w types = listed ''query_type='' (map (w_typeString w) types)"

definition QueryClientSubnetItem_Match :: "prefix list \<Rightarrow> ctx \<Rightarrow> bool" where
  "QueryClientSubnetItem_Match subnets m =
     (case m_QueryClientSubnet m of
        None \<Rightarrow> False
      | Some subnet \<Rightarrow>
          if \<not> prefix_valid subnet then False
          else list_ex (\<lambda>p. pfx_bits p \<le> pfx_bits subnet \<and> contains p (pfx_addr subnet)) subnets)"

definition QueryClientSubnetItem_String :: "world \<Rightarrow> prefix list \<Rightarrow> string" where
  "QueryClientSubnetItem_String w subnets = listed ''query_client_subnet='' (map (w_prefixString w) subnets)"

definition QueryDNSSECItem_Match :: "ctx \<Rightarrow> bool" where
  "QueryDNSSECItem_Match m = m_QueryDNSSEC m"

definition DNSResponseRCodeItem_Match :: "int \<Rightarrow> ctx \<Rightarrow> bool" where
  "DNSResponseRCodeItem_Match rcode m = (case m_DNSResponse m of None \<Rightarrow> False | Some r \<Rightarrow> msg_Rcode r = rcode)"

text \<open>\<open>dnsResponseAnswers\<close>, \<open>dnsResponseNS\<close>, \<open>dnsResponseExtra\<close>\<close>

datatype selector = Answers | NS | Extra

fun select_records :: "selector \<Rightarrow> msg \<Rightarrow> rr list" where
  "select_records Answers r = msg_Answer r"
| "select_records NS r = msg_Ns r"
| "select_records Extra r = msg_Extra r"

text \<open>
  An expected record is its text, if there is one, and which records are equal to it
  (\<open>DNSRecordOptions.Match\<close>, which asks the DNS library).
\<close>

definition DNSResponseRecordItem_Match :: "((rr \<Rightarrow> bool) \<times> string option) list \<Rightarrow> selector \<Rightarrow> ctx \<Rightarrow> bool" where
  "DNSResponseRecordItem_Match records sel m =
     (case m_DNSResponse m of
        None \<Rightarrow> False
      | Some r \<Rightarrow> list_ex (\<lambda>(expected, _). list_ex expected (select_records sel r)) records)"

definition DNSResponseRecordItem_String :: "string \<Rightarrow> ((rr \<Rightarrow> bool) \<times> string option) list \<Rightarrow> string" where
  "DNSResponseRecordItem_String field records =
     field @ ''=['' @ join '' '' (List.map_filter snd records) @ '']''"

section \<open>Outbounds and servers that prefer a destination\<close>

text \<open>
  The routes an outbound prefers: its \<open>PreferredDomain\<close> and \<open>PreferredAddress\<close>. Of the context they
  are given, the outbounds of the repository look at \<open>PreMatch\<close> alone.
\<close>

type_synonym prefers = "(string \<Rightarrow> bool) \<times> (bool \<Rightarrow> addr \<Rightarrow> bool)"

definition PreferredByItem_Match :: "world \<Rightarrow> prefers list \<Rightarrow> ctx \<Rightarrow> bool" where
  "PreferredByItem_Match w outbounds m =
     (domain_host m \<noteq> [] \<and> list_ex (\<lambda>(domain, _). domain (domain_host m)) outbounds \<or>
      w_IsIP w (m_Destination m) \<and>
        list_ex (\<lambda>(_, address). address (m_PreMatch m) (sa_Addr (m_Destination m))) outbounds \<or>
      list_ex (\<lambda>a. list_ex (\<lambda>(_, address). address (m_PreMatch m) a) outbounds) (m_DestinationAddresses m))"

definition PreferredByItem_String :: "string list \<Rightarrow> string" where
  "PreferredByItem_String tags = listed ''preferred_by='' tags"

definition PreferredByDNSItem_Match :: "world \<Rightarrow> (string \<Rightarrow> bool) list \<Rightarrow> ctx \<Rightarrow> bool" where
  "PreferredByDNSItem_Match w transports m =
     (if domain_host m = [] then False
      else list_ex (\<lambda>f. f (w_canonicalName w (domain_host m))) transports)"

definition PreferredByDNSItem_String :: "string list \<Rightarrow> string" where
  "PreferredByDNSItem_String tags = listed ''preferred_by='' tags"

end
