(* ===== verification/Rule_Match.thy ===== *)
theory Rule_Match
  imports Rule_Items
begin

text \<open>
  Matching a connection against rules: \<open>route/rule/match_state.go\<close>, \<open>rule_abstract.go\<close>,
  \<open>rule_item_rule_set.go\<close> and the parts of \<open>rule_dns.go\<close> that match. The Go code passes one
  \<open>*InboundContext\<close> down and writes its rule cache; here every matching function returns the
  context it leaves behind.

  A rule set is the list of its rules, as both kinds of rule sets (\<open>rule_set_local.go\<close>,
  \<open>rule_set_remote.go\<close>) hold it; a rule of a rule set has no rule set of its own.
\<close>

section \<open>Items\<close>

datatype item =
    QueryTypeItem "u16 list"
  | QueryClientSubnetItem "prefix list"
  | QueryDNSSECItem
  | InboundItem "string list"
  | IPVersionItem bool
  | NetworkItem "string list"
  | AuthUserItem "string list"
  | ProtocolItem "string list"
  | ClientItem "string list"
  | OutboundItem "string list"
  | DomainItem "string \<Rightarrow> bool" string
  | DomainKeywordItem "string list"
  | DomainRegexItem "(string \<Rightarrow> bool) list" string
  | AdGuardDomainItem "string \<Rightarrow> bool"
  | IPCIDRItem "addr \<Rightarrow> bool" bool string
  | IPIsPrivateItem bool
  | IPAcceptAnyItem
  | PortItem "u16 list" bool
  | PortRangeItem bool "string list" "(u16 \<times> u16) list"
  | ProcessItem "string list"
  | ProcessPathItem "string list"
  | ProcessPathRegexItem "(string \<Rightarrow> bool) list" string
  | PackageNameItem "string list"
  | PackageNameRegexItem "(string \<Rightarrow> bool) list" string
  | UserItem "string list"
  | UserIdItem "int list"
  | ClashModeItem string
  | NetworkTypeItem "interface_type list"
  | NetworkIsExpensiveItem
  | NetworkIsConstrainedItem
  | WIFISSIDItem "string list"
  | WIFIBSSIDItem "string list" "string list"
  | InterfaceAddressItem "(string \<times> prefix list) list" string
  | NetworkInterfaceAddressItem "(interface_type \<times> prefix list) list" string
  | DefaultInterfaceAddressItem "prefix list"
  | SourceMACAddressItem "string list" "string list"
  | SourceHostnameItem "string list"
  | PreferredByItem "string list" "prefers list"
  | PreferredByDNSItem "string list" "(string \<Rightarrow> bool) list"
  | DNSResponseRCodeItem int
  | DNSResponseRecordItem string "((rr \<Rightarrow> bool) \<times> string option) list" selector

fun item_Match :: "world \<Rightarrow> ctx \<Rightarrow> item \<Rightarrow> bool" where
  "item_Match w m (QueryTypeItem ts) = QueryTypeItem_Match ts m"
| "item_Match w m (QueryClientSubnetItem ps) = QueryClientSubnetItem_Match ps m"
| "item_Match w m QueryDNSSECItem = QueryDNSSECItem_Match m"
| "item_Match w m (InboundItem xs) = InboundItem_Match xs m"
| "item_Match w m (IPVersionItem v6) = IPVersionItem_Match w v6 m"
| "item_Match w m (NetworkItem xs) = NetworkItem_Match xs m"
| "item_Match w m (AuthUserItem xs) = AuthUserItem_Match xs m"
| "item_Match w m (ProtocolItem xs) = ProtocolItem_Match xs m"
| "item_Match w m (ClientItem xs) = ClientItem_Match xs m"
| "item_Match w m (OutboundItem xs) = OutboundItem_Match xs m"
| "item_Match w m (DomainItem f _) = DomainItem_Match f m"
| "item_Match w m (DomainKeywordItem ks) = DomainKeywordItem_Match ks m"
| "item_Match w m (DomainRegexItem fs _) = DomainRegexItem_Match fs m"
| "item_Match w m (AdGuardDomainItem f) = AdGuardDomainItem_Match f m"
| "item_Match w m (IPCIDRItem ipSet src _) = IPCIDRItem_Match w ipSet src m"
| "item_Match w m (IPIsPrivateItem src) = IPIsPrivateItem_Match w src m"
| "item_Match w m IPAcceptAnyItem = IPAcceptAnyItem_Match w m"
| "item_Match w m (PortItem ports src) = PortItem_Match ports src m"
| "item_Match w m (PortRangeItem src _ ranges) = PortRangeItem_Match src ranges m"
| "item_Match w m (ProcessItem xs) = ProcessItem_Match w xs m"
| "item_Match w m (ProcessPathItem xs) = ProcessPathItem_Match w xs m"
| "item_Match w m (ProcessPathRegexItem fs _) = ProcessPathRegexItem_Match fs m"
| "item_Match w m (PackageNameItem xs) = PackageNameItem_Match xs m"
| "item_Match w m (PackageNameRegexItem fs _) = PackageNameRegexItem_Match fs m"
| "item_Match w m (UserItem xs) = UserItem_Match xs m"
| "item_Match w m (UserIdItem xs) = UserIdItem_Match xs m"
| "item_Match w m (ClashModeItem mode) = ClashModeItem_Match w mode"
| "item_Match w m (NetworkTypeItem ts) = NetworkTypeItem_Match w ts"
| "item_Match w m NetworkIsExpensiveItem = NetworkIsExpensiveItem_Match w"
| "item_Match w m NetworkIsConstrainedItem = NetworkIsConstrainedItem_Match w"
| "item_Match w m (WIFISSIDItem xs) = WIFISSIDItem_Match w xs"
| "item_Match w m (WIFIBSSIDItem _ normalized) = WIFIBSSIDItem_Match w normalized"
| "item_Match w m (InterfaceAddressItem as _) = InterfaceAddressItem_Match w as"
| "item_Match w m (NetworkInterfaceAddressItem as _) = NetworkInterfaceAddressItem_Match w as"
| "item_Match w m (DefaultInterfaceAddressItem as) = DefaultInterfaceAddressItem_Match w as"
| "item_Match w m (SourceMACAddressItem _ normalized) = SourceMACAddressItem_Match normalized m"
| "item_Match w m (SourceHostnameItem xs) = SourceHostnameItem_Match xs m"
| "item_Match w m (PreferredByItem _ outbounds) = PreferredByItem_Match w outbounds m"
| "item_Match w m (PreferredByDNSItem _ transports) = PreferredByDNSItem_Match w transports m"
| "item_Match w m (DNSResponseRCodeItem rcode) = DNSResponseRCodeItem_Match rcode m"
| "item_Match w m (DNSResponseRecordItem _ records sel) = DNSResponseRecordItem_Match records sel m"

fun item_String :: "world \<Rightarrow> item \<Rightarrow> string" where
  "item_String w (QueryTypeItem ts) = QueryTypeItem_String w ts"
| "item_String w (QueryClientSubnetItem ps) = QueryClientSubnetItem_String w ps"
| "item_String w QueryDNSSECItem = ''query_dnssec=true''"
| "item_String w (InboundItem xs) = InboundItem_String xs"
| "item_String w (IPVersionItem v6) = IPVersionItem_String v6"
| "item_String w (NetworkItem xs) = NetworkItem_String xs"
| "item_String w (AuthUserItem xs) = AuthUserItem_String xs"
| "item_String w (ProtocolItem xs) = ProtocolItem_String xs"
| "item_String w (ClientItem xs) = ClientItem_String xs"
| "item_String w (OutboundItem xs) = OutboundItem_String xs"
| "item_String w (DomainItem _ description) = description"
| "item_String w (DomainKeywordItem ks) = DomainKeywordItem_String ks"
| "item_String w (DomainRegexItem _ description) = description"
| "item_String w (AdGuardDomainItem _) = ''!adguard_domain_rules=<binary>''"
| "item_String w (IPCIDRItem _ _ description) = description"
| "item_String w (IPIsPrivateItem src) = IPIsPrivateItem_String src"
| "item_String w IPAcceptAnyItem = ''ip_accept_any=true''"
| "item_String w (PortItem ports src) = PortItem_String ports src"
| "item_String w (PortRangeItem src ranges _) = PortRangeItem_String src ranges"
| "item_String w (ProcessItem xs) = ProcessItem_String xs"
| "item_String w (ProcessPathItem xs) = ProcessPathItem_String xs"
| "item_String w (ProcessPathRegexItem _ description) = description"
| "item_String w (PackageNameItem xs) = PackageNameItem_String xs"
| "item_String w (PackageNameRegexItem _ description) = description"
| "item_String w (UserItem xs) = UserItem_String xs"
| "item_String w (UserIdItem xs) = UserIdItem_String xs"
| "item_String w (ClashModeItem mode) = ''clash_mode='' @ mode"
| "item_String w (NetworkTypeItem ts) = NetworkTypeItem_String ts"
| "item_String w NetworkIsExpensiveItem = NetworkIsExpensiveItem_String"
| "item_String w NetworkIsConstrainedItem = NetworkIsConstrainedItem_String"
| "item_String w (WIFISSIDItem xs) = WIFISSIDItem_String xs"
| "item_String w (WIFIBSSIDItem xs _) = WIFIBSSIDItem_String xs"
| "item_String w (InterfaceAddressItem _ description) = description"
| "item_String w (NetworkInterfaceAddressItem _ description) = description"
| "item_String w (DefaultInterfaceAddressItem as) = DefaultInterfaceAddressItem_String w as"
| "item_String w (SourceMACAddressItem xs _) = SourceMACAddressItem_String xs"
| "item_String w (SourceHostnameItem xs) = SourceHostnameItem_String xs"
| "item_String w (PreferredByItem tags _) = PreferredByItem_String tags"
| "item_String w (PreferredByDNSItem tags _) = PreferredByDNSItem_String tags"
| "item_String w (DNSResponseRCodeItem rcode) = ''response_rcode='' @ w_rcodeString w rcode"
| "item_String w (DNSResponseRecordItem field records _) = DNSResponseRecordItem_String field records"

section \<open>Groups\<close>

text \<open>\<open>ruleMatchState\<close>: one bit for each group of conditions.\<close>

definition ruleMatchSourceAddress :: u8 where "ruleMatchSourceAddress = 1"
definition ruleMatchSourcePort :: u8 where "ruleMatchSourcePort = 2"
definition ruleMatchDestinationAddress :: u8 where "ruleMatchDestinationAddress = 4"
definition ruleMatchDestinationPort :: u8 where "ruleMatchDestinationPort = 8"

record ruleGroupMatch =
  g_required :: u8
  g_satisfied :: u8

definition has :: "u8 \<Rightarrow> u8 \<Rightarrow> bool" where
  "has s target = (s AND target \<noteq> 0)"

definition groups_done :: "ruleGroupMatch \<Rightarrow> bool" where
  "groups_done g = (g_required g AND NOT (g_satisfied g) = 0)"

definition mergeWith :: "ruleGroupMatch \<Rightarrow> ruleGroupMatch \<Rightarrow> ruleGroupMatch" where
  "mergeWith g other =
     \<lparr>g_required = g_required g OR g_required other, g_satisfied = g_satisfied g OR g_satisfied other\<rparr>"

record ruleMatchSnapshot =
  sn_ipCidrMatchSource :: bool
  sn_ipCidrAcceptEmpty :: bool
  sn_deferredGroups :: u8
  sn_ignoreDestinationIPCIDR :: bool
  sn_ruleSetDomainOnly :: bool

definition snapshotRuleMatch :: "ctx \<Rightarrow> ruleMatchSnapshot" where
  "snapshotRuleMatch m =
     \<lparr>sn_ipCidrMatchSource = m_IPCIDRMatchSource m, sn_ipCidrAcceptEmpty = m_IPCIDRAcceptEmpty m,
      sn_deferredGroups = m_DeferredGroups m, sn_ignoreDestinationIPCIDR = m_IgnoreDestinationIPCIDR m,
      sn_ruleSetDomainOnly = m_RuleSetDomainOnly m\<rparr>"

definition snapshot_restore :: "ruleMatchSnapshot \<Rightarrow> ctx \<Rightarrow> ctx" where
  "snapshot_restore s m =
     m\<lparr>m_IPCIDRMatchSource := sn_ipCidrMatchSource s, m_IPCIDRAcceptEmpty := sn_ipCidrAcceptEmpty s,
       m_DeferredGroups := sn_deferredGroups s, m_IgnoreDestinationIPCIDR := sn_ignoreDestinationIPCIDR s,
       m_RuleSetDomainOnly := sn_ruleSetDomainOnly s\<rparr>"

section \<open>Rules\<close>

text \<open>The lists of conditions of an \<open>abstractDefaultRule\<close>.\<close>

record conditions =
  r_items :: "item list"
  r_sourceAddressItems :: "item list"
  r_sourcePortItems :: "item list"
  r_destinationAddressItems :: "item list"
  r_destinationIPCIDRItems :: "item list"
  r_destinationPortItems :: "item list"
  r_allItems :: "item list" \<comment> \<open>without the rule set item, which is always last\<close>

text \<open>
  Rules, with the dynamic type that decides which \<open>Match\<close> runs. \<open>response\<close> is the
  \<open>match_response\<close> of a DNS rule with its tag; the other rules have \<open>None\<close>.
\<close>

datatype mode = ModeAnd | ModeOr

datatype rule =
    DefaultRule conditions "ruleSetItem option" bool "string option"
  | LogicalRule mode "rule list" bool
and ruleSetItem =
    RuleSetItem "string list" "rule list list" bool bool bool

fun rs_ipCidrMatchSource :: "ruleSetItem \<Rightarrow> bool" where
  "rs_ipCidrMatchSource (RuleSetItem _ _ src _ _) = src"

fun rs_ipCidrAcceptEmpty :: "ruleSetItem \<Rightarrow> bool" where
  "rs_ipCidrAcceptEmpty (RuleSetItem _ _ _ emp _) = emp"

fun rs_domainOnly :: "ruleSetItem \<Rightarrow> bool" where
  "rs_domainOnly (RuleSetItem _ _ _ _ only) = only"

fun rs_tagList :: "ruleSetItem \<Rightarrow> string list" where
  "rs_tagList (RuleSetItem tags _ _ _ _) = tags"

fun rs_setList :: "ruleSetItem \<Rightarrow> rule list list" where
  "rs_setList (RuleSetItem _ sets _ _ _) = sets"

definition matchAnyItem :: "world \<Rightarrow> item list \<Rightarrow> ctx \<Rightarrow> bool" where
  "matchAnyItem w items m = list_ex (item_Match w m) items"

definition destinationIPCIDRMatchesSource :: "conditions \<Rightarrow> ctx \<Rightarrow> bool" where
  "destinationIPCIDRMatchesSource r m = (m_IPCIDRMatchSource m \<and> r_destinationIPCIDRItems r \<noteq> [])"

definition destinationIPCIDRMatchesDestination :: "conditions \<Rightarrow> ctx \<Rightarrow> bool" where
  "destinationIPCIDRMatchesDestination r m =
     (\<not> m_IgnoreDestinationIPCIDR m \<and> \<not> m_IPCIDRMatchSource m \<and> r_destinationIPCIDRItems r \<noteq> [])"

text \<open>One group: required when \<open>cond\<close> holds, then satisfied when \<open>ok\<close> does.\<close>

definition group_step :: "bool \<Rightarrow> u8 \<Rightarrow> bool \<Rightarrow> ruleGroupMatch \<Rightarrow> ruleGroupMatch" where
  "group_step cond b ok g =
     (if cond
      then g\<lparr>g_required := g_required g OR b,
             g_satisfied := (if ok then g_satisfied g OR b else g_satisfied g)\<rparr>
      else g)"

definition evaluateGroups :: "world \<Rightarrow> conditions \<Rightarrow> ctx \<Rightarrow> ruleGroupMatch \<times> ctx" where
  "evaluateGroups w r m =
     (let g0 = \<lparr>g_required = 0, g_satisfied = 0\<rparr>;
          g1 = group_step (r_sourceAddressItems r \<noteq> []) ruleMatchSourceAddress
                 (matchAnyItem w (r_sourceAddressItems r) m) g0;
          g2 = group_step (destinationIPCIDRMatchesSource r m) ruleMatchSourceAddress
                 (\<not> has (g_satisfied g1) ruleMatchSourceAddress \<and> matchAnyItem w (r_destinationIPCIDRItems r) m) g1;
          g3 = group_step (\<not> m_RuleSetDomainOnly m \<and> r_sourcePortItems r \<noteq> []) ruleMatchSourcePort
                 (matchAnyItem w (r_sourcePortItems r) m) g2;
          address = matchAnyItem w (r_destinationAddressItems r) m;
          g4 = group_step (r_destinationAddressItems r \<noteq> []) ruleMatchDestinationAddress address g3;
          m1 = (if r_destinationAddressItems r \<noteq> [] \<and> address then m\<lparr>m_RuleSetDomainMatched := True\<rparr> else m);
          g5 = group_step (destinationIPCIDRMatchesDestination r m1) ruleMatchDestinationAddress
                 (\<not> has (g_satisfied g4) ruleMatchDestinationAddress \<and>
                  matchAnyItem w (r_destinationIPCIDRItems r) m1) g4;
          g6 = group_step (\<not> m_RuleSetDomainOnly m1 \<and> r_destinationPortItems r \<noteq> []) ruleMatchDestinationPort
                 (matchAnyItem w (r_destinationPortItems r) m1) g5;
          m2 = (if m_IgnoreDestinationIPCIDR m1 \<and> \<not> m_IPCIDRMatchSource m1 \<and>
                   r_destinationIPCIDRItems r \<noteq> [] \<and> r_destinationAddressItems r = []
                then m1\<lparr>m_DeferredGroups := m_DeferredGroups m1 OR ruleMatchDestinationAddress\<rparr> else m1)
      in (g6, m2))"

definition evaluateForMerge :: "world \<Rightarrow> conditions \<Rightarrow> ctx \<Rightarrow> ruleGroupMatch option \<times> ctx" where
  "evaluateForMerge w r m =
     (let (g, m1) = evaluateGroups w r m in
      (if list_all (item_Match w m1) (r_items r) then Some g else None, m1))"

definition prepareNestedMatch :: "ruleSetItem \<Rightarrow> ctx \<Rightarrow> ctx" where
  "prepareNestedMatch rs m =
     (let m1 = (ResetRuleMatchCache m)\<lparr>m_IPCIDRMatchSource := rs_ipCidrMatchSource rs,
                 m_IPCIDRAcceptEmpty := rs_ipCidrAcceptEmpty rs\<rparr> in
      if rs_domainOnly rs
      then m1\<lparr>m_RuleSetDomainOnly := True, m_IgnoreDestinationIPCIDR := True, m_RuleSetDomainMatched := False\<rparr>
      else m1)"

fun mergeableRuleIn :: "rule list \<Rightarrow> conditions option" where
  "mergeableRuleIn [DefaultRule c rs invert _] = (if invert \<or> rs \<noteq> None then None else Some c)"
| "mergeableRuleIn _ = None"

text \<open>The result of a match that is \<open>invert\<close>ed, for a default rule.\<close>

definition finish_default :: "bool \<Rightarrow> ctx \<Rightarrow> bool \<times> ctx \<Rightarrow> bool \<times> ctx" where
  "finish_default invert m r =
     (case r of (matched, m1) \<Rightarrow>
        let m2 = (if \<not> matched \<or> invert then m1\<lparr>m_RuleSetDomainMatched := m_RuleSetDomainMatched m\<rparr> else m1) in
        if invert
        then (if \<not> matched then (True, m2\<lparr>m_DeferredGroups := 0\<rparr>) else (m_DeferredGroups m2 \<noteq> 0, m2))
        else (matched, m2))"

text \<open>The result of the loop over the rules of a logical rule.\<close>

definition finish_logical :: "bool \<Rightarrow> ctx \<Rightarrow> bool \<times> u8 \<times> ctx \<Rightarrow> bool \<times> ctx" where
  "finish_logical invert m r =
     (case r of (matched, deferred, m1) \<Rightarrow>
        let m2 = snapshot_restore (snapshotRuleMatch m) m1;
            m3 = (if \<not> matched \<or> invert then m2\<lparr>m_RuleSetDomainMatched := m_RuleSetDomainMatched m\<rparr> else m2);
            m4 = (if matched then m3\<lparr>m_DeferredGroups := m_DeferredGroups m3 OR deferred\<rparr> else m3) in
        if invert then (if \<not> matched then (True, m4) else (deferred \<noteq> 0, m4)) else (matched, m4))"

text \<open>The end of a loop over rules or rule sets that keeps what is deferred; \<open>s\<close> is the snapshot.\<close>

definition finish_any :: "ruleMatchSnapshot \<Rightarrow> bool \<Rightarrow> u8 \<Rightarrow> ctx \<Rightarrow> bool \<times> ctx" where
  "finish_any s matched deferred m =
     (let m1 = snapshot_restore s m in
      (matched, if matched then m1\<lparr>m_DeferredGroups := m_DeferredGroups m1 OR deferred\<rparr> else m1))"

text \<open>The end of \<open>matchInner\<close>.\<close>

definition finish_inner :: "ruleGroupMatch \<Rightarrow> bool \<times> ctx \<Rightarrow> bool \<times> ctx" where
  "finish_inner groups r =
     (case r of (matched, m1) \<Rightarrow>
        (matched, if matched then m1\<lparr>m_DeferredGroups := m_DeferredGroups m1 AND NOT (g_satisfied groups)\<rparr> else m1))"

text \<open>Which response a DNS rule looks at; \<open>None\<close> when the one it asks for is missing.\<close>

definition response_ctx :: "string \<Rightarrow> ctx \<Rightarrow> ctx option" where
  "response_ctx tag m =
     (case (if tag \<noteq> [] then m_NamedDNSResponses m tag else m_DNSResponse m) of
        None \<Rightarrow> None
      | Some r \<Rightarrow> Some (m\<lparr>m_DNSResponse := Some r, m_MatchFromResponse := True\<rparr>))"

text \<open>
  Go calls the nested rules through the interface \<open>adapter.HeadlessRule\<close>; here a rule that is called
  is its \<open>Match\<close>, a function on the context. The loops run over the rules' functions:
  \<open>and_loop\<close> and \<open>or_loop\<close> of \<open>abstractLogicalRule.Match\<close>, \<open>any_loop\<close> of \<open>matchAnyHeadlessRule\<close>,
  \<open>sets_loop\<close> of \<open>RuleSetItem.Match\<close> and \<open>outer_loop\<close> of \<open>matchWithOuterGroups\<close>, where each rule set
  comes with its mergeable rule, if it has one. \<open>s\<close> is the snapshot taken before a loop.
\<close>

type_synonym matcher = "ctx \<Rightarrow> bool \<times> ctx"

fun and_loop :: "matcher list \<Rightarrow> u8 \<Rightarrow> ctx \<Rightarrow> bool \<times> u8 \<times> ctx" where
  "and_loop [] deferred m = (True, deferred, m)"
| "and_loop (r # rs) deferred m =
     (case r (ResetRuleCache m) of (matched, m1) \<Rightarrow>
        if \<not> matched then (False, 0, m1) else and_loop rs (deferred OR m_DeferredGroups m1) m1)"

definition conclusive :: "ctx \<Rightarrow> bool" where
  "conclusive m = (m_DeferredGroups m = 0 \<and> (\<not> m_RuleSetDomainOnly m \<or> m_RuleSetDomainMatched m))"

fun or_loop :: "matcher list \<Rightarrow> bool \<Rightarrow> u8 \<Rightarrow> ctx \<Rightarrow> bool \<times> u8 \<times> ctx" where
  "or_loop [] matched deferred m = (matched, deferred, m)"
| "or_loop (r # rs) matched deferred m =
     (case r (ResetRuleCache m) of (b, m1) \<Rightarrow>
        if \<not> b then or_loop rs matched deferred m1
        else if conclusive m1 then (True, 0, m1)
        else or_loop rs True (deferred OR m_DeferredGroups m1) m1)"

fun any_loop :: "ruleMatchSnapshot \<Rightarrow> matcher list \<Rightarrow> bool \<Rightarrow> u8 \<Rightarrow> ctx \<Rightarrow> bool \<times> ctx" where
  "any_loop s [] matched deferred m = finish_any s matched deferred m"
| "any_loop s (r # rs) matched deferred m =
     (case r (ResetRuleMatchCache m) of (b, m1) \<Rightarrow>
        if \<not> b then any_loop s rs matched deferred m1
        else if conclusive m1 then (True, snapshot_restore s m1)
        else any_loop s rs True (deferred OR m_DeferredGroups m1) m1)"

definition matchAnyHeadlessRule :: "matcher list \<Rightarrow> matcher" where
  "matchAnyHeadlessRule rules m = any_loop (snapshotRuleMatch m) rules False 0 m"

fun sets_loop :: "(ctx \<Rightarrow> ctx) \<Rightarrow> bool \<Rightarrow> matcher list list \<Rightarrow> matcher" where
  "sets_loop prep domainOnly [] m = (False, m)"
| "sets_loop prep domainOnly (ruleSet # sets) m =
     (case matchAnyHeadlessRule ruleSet (prep m) of (b, m1) \<Rightarrow>
        if b \<and> (\<not> domainOnly \<or> m_RuleSetDomainMatched m1) then (True, m1) else sets_loop prep domainOnly sets m1)"

definition RuleSetItem_Match :: "(ctx \<Rightarrow> ctx) \<Rightarrow> bool \<Rightarrow> matcher list list \<Rightarrow> matcher" where
  "RuleSetItem_Match prep domainOnly sets m =
     (case sets_loop prep domainOnly sets m of (b, m1) \<Rightarrow> (b, snapshot_restore (snapshotRuleMatch m) m1))"

fun outer_loop :: "world \<Rightarrow> (ctx \<Rightarrow> ctx) \<Rightarrow> ruleGroupMatch \<Rightarrow> ruleMatchSnapshot \<Rightarrow>
    (conditions option \<times> matcher list) list \<Rightarrow> bool \<Rightarrow> u8 \<Rightarrow> ctx \<Rightarrow> bool \<times> ctx" where
  "outer_loop w prep groups s [] matched deferred m = finish_any s matched deferred m"
| "outer_loop w prep groups s ((Some branch, ruleSet) # sets) matched deferred m =
     (case evaluateForMerge w branch (prep m) of
        (None, m1) \<Rightarrow> outer_loop w prep groups s sets matched deferred m1
      | (Some branchGroups, m1) \<Rightarrow>
          let merged = mergeWith groups branchGroups in
          if \<not> groups_done merged then outer_loop w prep groups s sets matched deferred m1
          else
            let branchDeferred = m_DeferredGroups m1 AND NOT (g_satisfied merged) in
            if branchDeferred = 0
            then (True, (let m2 = snapshot_restore s m1 in
                         m2\<lparr>m_DeferredGroups := m_DeferredGroups m2 AND NOT (g_satisfied merged)\<rparr>))
            else outer_loop w prep groups s sets True (deferred OR branchDeferred) m1)"
| "outer_loop w prep groups s ((None, ruleSet) # sets) matched deferred m =
     (if \<not> groups_done groups then outer_loop w prep groups s sets matched deferred (prep m)
      else
        (case matchAnyHeadlessRule ruleSet (prep m) of (b, m1) \<Rightarrow>
           if \<not> b then outer_loop w prep groups s sets matched deferred m1
           else if m_DeferredGroups m1 = 0 then (True, snapshot_restore s m1)
           else outer_loop w prep groups s sets True (deferred OR m_DeferredGroups m1) m1))"

definition matchWithOuterGroups :: "world \<Rightarrow> (ctx \<Rightarrow> ctx) \<Rightarrow> bool \<Rightarrow> (conditions option \<times> matcher list) list \<Rightarrow>
    ruleGroupMatch \<Rightarrow> matcher" where
  "matchWithOuterGroups w prep domainOnly sets groups m =
     (if domainOnly
      then (if groups_done groups then RuleSetItem_Match prep domainOnly (map snd sets) m else (False, m))
      else outer_loop w prep groups (snapshotRuleMatch m) sets False 0 m)"

text \<open>\<open>abstractDefaultRule.matchInner\<close> and \<open>Match\<close>; \<open>outer\<close> is the rule set item's function.\<close>

definition matchInner :: "world \<Rightarrow> conditions \<Rightarrow> (ruleGroupMatch \<Rightarrow> matcher) option \<Rightarrow> matcher" where
  "matchInner w c outer m =
     (let (groups, m1) = evaluateGroups w c m in
      if \<not> list_all (item_Match w m1) (r_items c) then (False, m1)
      else finish_inner groups
             (case outer of None \<Rightarrow> (groups_done groups, m1) | Some f \<Rightarrow> f groups m1))"

definition default_Match :: "world \<Rightarrow> conditions \<Rightarrow> (ruleGroupMatch \<Rightarrow> matcher) option \<Rightarrow> bool \<Rightarrow> matcher" where
  "default_Match w c outer invert m =
     (if r_allItems c = [] \<and> outer = None then (True, m)
      else finish_default invert m (matchInner w c outer m))"

definition logical_Match :: "mode \<Rightarrow> matcher list \<Rightarrow> bool \<Rightarrow> matcher" where
  "logical_Match mode rules invert m =
     finish_logical invert m
       (case mode of ModeAnd \<Rightarrow> and_loop rules 0 m | ModeOr \<Rightarrow> or_loop rules False 0 m)"

text \<open>
  \<open>DefaultDNSRule.matchForMatch\<close>: a rule that looks at a response works on a copy of the context
  with that response and does not match, or matches if inverted, when there is none.
\<close>

definition matchForMatch :: "string option \<Rightarrow> bool \<Rightarrow> matcher \<Rightarrow> matcher" where
  "matchForMatch response invert f m =
     (case response of
        None \<Rightarrow> f m
      | Some tag \<Rightarrow>
          (case response_ctx tag m of None \<Rightarrow> (invert, m) | Some m' \<Rightarrow> (fst (f m'), m)))"

fun rule_Match :: "world \<Rightarrow> rule \<Rightarrow> matcher"
  and set_Match :: "world \<Rightarrow> ruleSetItem \<Rightarrow> ruleGroupMatch \<Rightarrow> matcher"
  where
  "rule_Match w (DefaultRule c rs invert response) =
     matchForMatch response invert
       (default_Match w c (case rs of None \<Rightarrow> None | Some i \<Rightarrow> Some (set_Match w i)) invert)"
| "rule_Match w (LogicalRule mode rules invert) = logical_Match mode (map (rule_Match w) rules) invert"
| "set_Match w (RuleSetItem tags sets src emp domainOnly) =
     matchWithOuterGroups w (prepareNestedMatch (RuleSetItem tags sets src emp domainOnly)) domainOnly
       (map (\<lambda>rules. (mergeableRuleIn rules, map (rule_Match w) rules)) sets)"

section \<open>DNS rules\<close>

text \<open>\<open>abstractDefaultRule.Match\<close> or \<open>abstractLogicalRule.Match\<close>, without the look at a response.\<close>

fun abstract_Match :: "world \<Rightarrow> rule \<Rightarrow> matcher" where
  "abstract_Match w (DefaultRule c rs invert response) = rule_Match w (DefaultRule c rs invert None)"
| "abstract_Match w (LogicalRule mode rules invert) = rule_Match w (LogicalRule mode rules invert)"

fun matchResponse :: "rule \<Rightarrow> bool" where
  "matchResponse (DefaultRule c rs invert response) = (response \<noteq> None)"
| "matchResponse (LogicalRule mode rules invert) = False"

definition LegacyPreMatch :: "world \<Rightarrow> rule \<Rightarrow> matcher" where
  "LegacyPreMatch w r m =
     (if matchResponse r then (False, m)
      else case abstract_Match w r (m\<lparr>m_IgnoreDestinationIPCIDR := True\<rparr>) of
        (b, m1) \<Rightarrow> (b, m1\<lparr>m_IgnoreDestinationIPCIDR := False\<rparr>))"

text \<open>The context of \<open>MatchAddressLimit\<close> is a copy, so only the verdict is left of it.\<close>

definition MatchAddressLimit :: "world \<Rightarrow> rule \<Rightarrow> ctx \<Rightarrow> msg option \<Rightarrow> bool" where
  "MatchAddressLimit w r m response =
     fst (abstract_Match w r ((ResetRuleCache m)\<lparr>m_DNSResponse := response, m_MatchFromResponse := True\<rparr>))"

text \<open>
  \<open>Metadata().ContainsIPCIDRRule\<close> of a rule set. The code computes it from the options the rules are
  made of, in \<open>buildRuleSetMetadata\<close>; on the rules made it comes to this.
\<close>

fun headless_has_cidr :: "rule \<Rightarrow> bool" where
  "headless_has_cidr (DefaultRule c rs invert response) = (r_destinationIPCIDRItems c \<noteq> [])"
| "headless_has_cidr (LogicalRule mode rules invert) = list_ex headless_has_cidr rules"

fun ContainsDestinationIPCIDRRule :: "ruleSetItem \<Rightarrow> bool" where
  "ContainsDestinationIPCIDRRule (RuleSetItem tags sets src emp domainOnly) =
     (if src \<or> domainOnly then False else list_ex (list_ex headless_has_cidr) sets)"

fun WithAddressLimit :: "rule \<Rightarrow> bool" where
  "WithAddressLimit (DefaultRule c rs invert response) =
     (if r_destinationIPCIDRItems c \<noteq> [] then True
      else case rs of None \<Rightarrow> False | Some i \<Rightarrow> ContainsDestinationIPCIDRRule i)"
| "WithAddressLimit (LogicalRule mode rules invert) = list_ex WithAddressLimit rules"

fun MatchResponseTags :: "rule \<Rightarrow> string list" where
  "MatchResponseTags (DefaultRule c rs invert response) =
     (case response of None \<Rightarrow> [] | Some tag \<Rightarrow> if tag = [] then [] else [tag])"
| "MatchResponseTags (LogicalRule mode rules invert) =
     rev (remdups (rev (concat (map MatchResponseTags rules))))"

fun MatchResponseAnonymous :: "rule \<Rightarrow> bool" where
  "MatchResponseAnonymous (DefaultRule c rs invert response) = (response = Some [])"
| "MatchResponseAnonymous (LogicalRule mode rules invert) = list_ex MatchResponseAnonymous rules"

section \<open>Names of rules\<close>

fun invertible :: "bool \<Rightarrow> string \<Rightarrow> string" where
  "invertible invert s = (if invert then ''!('' @ s @ '')'' else s)"

fun rule_String :: "world \<Rightarrow> rule \<Rightarrow> string" where
  "rule_String w (DefaultRule c rs invert response) =
     invertible invert (join '' ''
       (map (item_String w) (r_allItems c) @
        (case rs of None \<Rightarrow> [] | Some i \<Rightarrow> [listed ''rule_set='' (rs_tagList i)])))"
| "rule_String w (LogicalRule mode rules invert) =
     invertible invert (join (case mode of ModeAnd \<Rightarrow> '' && '' | ModeOr \<Rightarrow> '' || '') (map (rule_String w) rules))"

definition rule_Type :: "rule \<Rightarrow> string" where
  "rule_Type r = (case r of DefaultRule _ _ _ _ \<Rightarrow> ''default'' | LogicalRule _ _ _ \<Rightarrow> ''logical'')"

end
