(* ===== verification/Rule_Options.thy ===== *)
theory Rule_Options
  imports Rule_Match
begin

text \<open>
  The options rules are made of (\<open>option/rule.go\<close>, \<open>option/rule_dns.go\<close>, \<open>option/rule_set.go\<close>), with
  \<open>IsValid\<close> and the summary of a rule set that \<open>route/rule/rule_set.go\<close> computes from them. The three
  kinds of default rules share most of their fields, so their records extend a common one. An empty
  list is a field that is not set; a map behind a pointer is an \<open>option\<close>.
\<close>

section \<open>Default rules\<close>

record common_options =
  q_Network :: "string list"
  q_Domain :: "string list"
  q_DomainSuffix :: "string list"
  q_DomainKeyword :: "string list"
  q_DomainRegex :: "string list"
  q_SourceIPCIDR :: "string list"
  q_IPCIDR :: "string list"
  q_SourcePort :: "u16 list"
  q_SourcePortRange :: "string list"
  q_Port :: "u16 list"
  q_PortRange :: "string list"
  q_ProcessName :: "string list"
  q_ProcessPath :: "string list"
  q_ProcessPathRegex :: "string list"
  q_PackageName :: "string list"
  q_PackageNameRegex :: "string list"
  q_NetworkType :: "interface_type list"
  q_NetworkIsExpensive :: bool
  q_NetworkIsConstrained :: bool
  q_WIFISSID :: "string list"
  q_WIFIBSSID :: "string list"
  q_NetworkInterfaceAddress :: "(interface_type \<times> prefix list) list option"
  q_DefaultInterfaceAddress :: "prefix list"
  q_Invert :: bool

text \<open>\<open>DefaultHeadlessRule\<close>, with the matchers that a binary rule set brings along.\<close>

record headless_options = common_options +
  q_HeadlessQueryType :: "u16 list"
  q_DomainMatcher :: "(string \<Rightarrow> bool) option"
  q_SourceIPSet :: "(addr \<Rightarrow> bool) option"
  q_IPSet :: "(addr \<Rightarrow> bool) option"
  q_AdGuardDomain :: "string list"
  q_AdGuardDomainMatcher :: "(string \<Rightarrow> bool) option"

text \<open>The fields that \<open>RawDefaultRule\<close> and \<open>RawDefaultDNSRule\<close> have beyond these.\<close>

record rule_options = common_options +
  q_Inbound :: "string list"
  q_IPVersion :: int
  q_AuthUser :: "string list"
  q_Protocol :: "string list"
  q_Geosite :: "string list"
  q_SourceGeoIP :: "string list"
  q_GeoIP :: "string list"
  q_SourceIPIsPrivate :: bool
  q_IPIsPrivate :: bool
  q_User :: "string list"
  q_UserID :: "int list"
  q_ClashMode :: string
  q_InterfaceAddress :: "(string \<times> prefix list) list option"
  q_SourceMACAddress :: "string list"
  q_SourceHostname :: "string list"
  q_PreferredBy :: "string list"
  q_RuleSet :: "string list"
  q_RuleSetIPCIDRMatchSource :: bool
  q_RulesetIPCIDRMatchSource :: bool \<comment> \<open>\<open>Deprecated_RulesetIPCIDRMatchSource\<close>\<close>

record route_options = rule_options +
  q_Client :: "string list"

record dns_options = rule_options +
  q_QueryType :: "u16 list"
  q_QueryClientSubnet :: "prefix list"
  q_QueryDNSSEC :: bool
  q_IPAcceptAny :: bool
  q_ResponseRcode :: "int option"
  q_ResponseAnswer :: "((rr \<Rightarrow> bool) \<times> string option) list"
  q_ResponseNs :: "((rr \<Rightarrow> bool) \<times> string option) list"
  q_ResponseExtra :: "((rr \<Rightarrow> bool) \<times> string option) list"
  q_Outbound :: "string list"
  q_RuleSetIPCIDRAcceptEmpty :: bool
  q_RuleSetDomainOnly :: bool
  q_MatchResponse :: "(bool \<times> string) option"

definition IsEnabled :: "(bool \<times> string) option \<Rightarrow> bool" where
  "IsEnabled m = (case m of None \<Rightarrow> False | Some (enabled, tag) \<Rightarrow> enabled)"

definition ResponseTag :: "(bool \<times> string) option \<Rightarrow> string" where
  "ResponseTag m = (case m of None \<Rightarrow> [] | Some (enabled, tag) \<Rightarrow> tag)"

text \<open>All fields but \<open>Invert\<close> have their zero value.\<close>

definition common_zero :: "'a common_options_scheme \<Rightarrow> bool" where
  "common_zero o' = (q_Network o' = [] \<and> q_Domain o' = [] \<and> q_DomainSuffix o' = [] \<and> q_DomainKeyword o' = [] \<and>
     q_DomainRegex o' = [] \<and> q_SourceIPCIDR o' = [] \<and> q_IPCIDR o' = [] \<and> q_SourcePort o' = [] \<and>
     q_SourcePortRange o' = [] \<and> q_Port o' = [] \<and> q_PortRange o' = [] \<and> q_ProcessName o' = [] \<and>
     q_ProcessPath o' = [] \<and> q_ProcessPathRegex o' = [] \<and> q_PackageName o' = [] \<and> q_PackageNameRegex o' = [] \<and>
     q_NetworkType o' = [] \<and> \<not> q_NetworkIsExpensive o' \<and> \<not> q_NetworkIsConstrained o' \<and> q_WIFISSID o' = [] \<and>
     q_WIFIBSSID o' = [] \<and> q_NetworkInterfaceAddress o' = None \<and> q_DefaultInterfaceAddress o' = [])"

text \<open>\<open>DefaultHeadlessRule.IsValid\<close>\<close>

definition default_headless_IsValid :: "headless_options \<Rightarrow> bool" where
  "default_headless_IsValid o' =
     (\<not> (common_zero o' \<and> q_HeadlessQueryType o' = [] \<and> Option.is_none (q_DomainMatcher o') \<and>
         Option.is_none (q_SourceIPSet o') \<and> Option.is_none (q_IPSet o') \<and> q_AdGuardDomain o' = [] \<and>
         Option.is_none (q_AdGuardDomainMatcher o')))"

section \<open>Rules of a rule set\<close>

datatype headless_rule =
    HDefault headless_options
  | HLogical string "headless_rule list" bool
  | HUnknown string

text \<open>\<open>HeadlessRule.IsValid\<close>; \<open>None\<close> is the panic on an unknown type. \<open>common.All\<close> stops at the first \<open>False\<close>.\<close>

fun all_valid :: "bool option list \<Rightarrow> bool option" where
  "all_valid [] = Some True"
| "all_valid (v # vs) = (case v of None \<Rightarrow> None | Some b \<Rightarrow> if b then all_valid vs else Some False)"

fun headless_IsValid :: "headless_rule \<Rightarrow> bool option" where
  "headless_IsValid (HDefault o') = Some (default_headless_IsValid o')"
| "headless_IsValid (HLogical mode rules invert) =
     (if rules = [] then Some False else all_valid (map headless_IsValid rules))"
| "headless_IsValid (HUnknown type) = None"

fun HasHeadlessRule_in :: "(headless_options \<Rightarrow> bool) \<Rightarrow> headless_rule \<Rightarrow> bool" where
  "HasHeadlessRule_in cond (HDefault o') = cond o'"
| "HasHeadlessRule_in cond (HLogical mode rules invert) = list_ex (HasHeadlessRule_in cond) rules"
| "HasHeadlessRule_in cond (HUnknown type) = False"

definition HasHeadlessRule :: "headless_rule list \<Rightarrow> (headless_options \<Rightarrow> bool) \<Rightarrow> bool" where
  "HasHeadlessRule rules cond = list_ex (HasHeadlessRule_in cond) rules"

definition isProcessHeadlessRule :: "headless_options \<Rightarrow> bool" where
  "isProcessHeadlessRule o' = (q_ProcessName o' \<noteq> [] \<or> q_ProcessPath o' \<noteq> [] \<or> q_ProcessPathRegex o' \<noteq> [] \<or>
     q_PackageName o' \<noteq> [] \<or> q_PackageNameRegex o' \<noteq> [])"

definition isWIFIHeadlessRule :: "headless_options \<Rightarrow> bool" where
  "isWIFIHeadlessRule o' = (q_WIFISSID o' \<noteq> [] \<or> q_WIFIBSSID o' \<noteq> [])"

definition isIPCIDRHeadlessRule :: "headless_options \<Rightarrow> bool" where
  "isIPCIDRHeadlessRule o' = (q_IPCIDR o' \<noteq> [] \<or> \<not> Option.is_none (q_IPSet o'))"

definition isDNSQueryTypeHeadlessRule :: "headless_options \<Rightarrow> bool" where
  "isDNSQueryTypeHeadlessRule o' = (q_HeadlessQueryType o' \<noteq> [])"

text \<open>Something is set besides \<open>IPCIDR\<close>, \<open>IPSet\<close> and \<open>Invert\<close>.\<close>

definition isNonIPCIDRHeadlessRule :: "headless_options \<Rightarrow> bool" where
  "isNonIPCIDRHeadlessRule o' = default_headless_IsValid (o'\<lparr>q_IPCIDR := [], q_IPSet := None\<rparr>)"

record rule_set_metadata =
  md_ContainsProcessRule :: bool
  md_ContainsWIFIRule :: bool
  md_ContainsIPCIDRRule :: bool
  md_ContainsDNSQueryTypeRule :: bool
  md_ContainsNonIPCIDRRule :: bool

definition buildRuleSetMetadata :: "headless_rule list \<Rightarrow> rule_set_metadata" where
  "buildRuleSetMetadata rules =
     \<lparr>md_ContainsProcessRule = HasHeadlessRule rules isProcessHeadlessRule,
      md_ContainsWIFIRule = HasHeadlessRule rules isWIFIHeadlessRule,
      md_ContainsIPCIDRRule = HasHeadlessRule rules isIPCIDRHeadlessRule,
      md_ContainsDNSQueryTypeRule = HasHeadlessRule rules isDNSQueryTypeHeadlessRule,
      md_ContainsNonIPCIDRRule = HasHeadlessRule rules isNonIPCIDRHeadlessRule\<rparr>"

end
