(* ===== verification/Rule_Sets.thy ===== *)
theory Rule_Sets
  imports Rule_Options
begin

text \<open>
  How a rule holds on to its rule sets: \<open>RuleSetItem.Start\<close> and \<open>Close\<close> with the reference counts of
  \<open>rule_set_local.go\<close> and \<open>rule_set_remote.go\<close>. A rule set is known by its tag; \<open>refs\<close> maps tags to
  counts and \<open>known\<close> is what the router has. A count that falls below zero panics (\<open>None\<close>).
\<close>

record holding =
  h_tagList :: "string list"
  h_setList :: "string list"

definition IncRef :: "string \<Rightarrow> (string \<Rightarrow> int) \<Rightarrow> string \<Rightarrow> int" where
  "IncRef tag refs = refs(tag := refs tag + 1)"

definition DecRef :: "string \<Rightarrow> (string \<Rightarrow> int) \<Rightarrow> (string \<Rightarrow> int) option" where
  "DecRef tag refs = (if refs tag - 1 < 0 then None else Some (refs(tag := refs tag - 1)))"

fun dec_all :: "string list \<Rightarrow> (string \<Rightarrow> int) \<Rightarrow> (string \<Rightarrow> int) option" where
  "dec_all [] refs = Some refs"
| "dec_all (t # ts) refs = (case DecRef t refs of None \<Rightarrow> None | Some refs1 \<Rightarrow> dec_all ts refs1)"

definition RuleSetItem_Close :: "holding \<times> (string \<Rightarrow> int) \<Rightarrow> (holding \<times> (string \<Rightarrow> int)) option" where
  "RuleSetItem_Close s =
     (case s of (h, refs) \<Rightarrow>
        (case dec_all (h_setList h) refs of None \<Rightarrow> None | Some refs1 \<Rightarrow> Some (h\<lparr>h_setList := []\<rparr>, refs1)))"

text \<open>The loop of \<open>Start\<close>; a tag that is not known gives the rule sets back and ends in the error.\<close>

fun start_loop :: "(string \<Rightarrow> bool) \<Rightarrow> string list \<Rightarrow> holding \<times> (string \<Rightarrow> int) \<Rightarrow>
    (rule_error option \<times> holding \<times> (string \<Rightarrow> int)) option" where
  "start_loop known [] s = Some (None, s)"
| "start_loop known (tag # tags) s =
     (if \<not> known tag
      then (case RuleSetItem_Close s of None \<Rightarrow> None | Some s1 \<Rightarrow> Some (Some (RuleSetNotFound tag), s1))
      else (case s of (h, refs) \<Rightarrow>
              start_loop known tags (h\<lparr>h_setList := h_setList h @ [tag]\<rparr>, IncRef tag refs)))"

definition RuleSetItem_Start :: "(string \<Rightarrow> bool) \<Rightarrow> holding \<times> (string \<Rightarrow> int) \<Rightarrow>
    (rule_error option \<times> holding \<times> (string \<Rightarrow> int)) option" where
  "RuleSetItem_Start known s =
     (case RuleSetItem_Close s of None \<Rightarrow> None | Some s1 \<Rightarrow> start_loop known (h_tagList (fst s1)) s1)"

text \<open>The counts are those of the others plus one for each rule set the item holds.\<close>

definition balanced :: "(string \<Rightarrow> int) \<Rightarrow> holding \<times> (string \<Rightarrow> int) \<Rightarrow> bool" where
  "balanced others s =
     ((\<forall>t. 0 \<le> others t) \<and> (\<forall>t. snd s t = others t + int (count_list (h_setList (fst s)) t)))"

lemma dec_all_balanced:
  "(\<forall>t. 0 \<le> others t) \<Longrightarrow> (\<forall>t. refs t = others t + int (count_list ts t)) \<Longrightarrow>
   \<exists>refs1. dec_all ts refs = Some refs1 \<and> (\<forall>t. refs1 t = others t)"
proof (induction ts arbitrary: refs)
  case (Cons t ts)
  have "refs t = others t + int (count_list ts t) + 1" using Cons.prems(2) by simp
  moreover have "0 \<le> others t" using Cons.prems(1) by simp
  ultimately have d: "DecRef t refs = Some (refs(t := refs t - 1))" by (simp add: DecRef_def)
  have "\<forall>x. (refs(t := refs t - 1)) x = others x + int (count_list ts x)"
    using Cons.prems(2) by simp
  from Cons.IH [OF Cons.prems(1) this] show ?case by (simp only: dec_all.simps d option.case)
qed simp

lemma Close_balanced:
  assumes "balanced others s"
  obtains s1 where "RuleSetItem_Close s = Some s1" "balanced others s1" "h_setList (fst s1) = []"
    "h_tagList (fst s1) = h_tagList (fst s)"
proof -
  obtain h refs where s: "s = (h, refs)" by fastforce
  obtain refs1 where "dec_all (h_setList h) refs = Some refs1" "\<forall>t. refs1 t = others t"
    using dec_all_balanced [of others refs "h_setList h"] assms s by (auto simp: balanced_def)
  then show thesis
    using that [of "(h\<lparr>h_setList := []\<rparr>, refs1)"] assms s by (simp add: RuleSetItem_Close_def balanced_def)
qed

lemma start_loop_balanced:
  "balanced others s \<Longrightarrow> \<exists>e s1. start_loop known tags s = Some (e, s1) \<and> balanced others s1 \<and>
     (e = None \<longleftrightarrow> list_all known tags) \<and>
     h_setList (fst s1) = (if list_all known tags then h_setList (fst s) @ tags else [])"
proof (induction tags arbitrary: s)
  case (Cons tag tags)
  obtain h refs where s: "s = (h, refs)" by fastforce
  show ?case
  proof (cases "known tag")
    case True
    have "balanced others (h\<lparr>h_setList := h_setList h @ [tag]\<rparr>, IncRef tag refs)"
      using Cons.prems s by (auto simp: balanced_def IncRef_def)
    from Cons.IH [OF this] True s show ?thesis by auto
  next
    case False
    obtain s1 where "RuleSetItem_Close s = Some s1" "balanced others s1" "h_setList (fst s1) = []"
      using Cons.prems by (rule Close_balanced) blast
    with False show ?thesis by simp
  qed
qed simp

lemma Start_balanced:
  assumes "balanced others s"
  shows "\<exists>e s1. RuleSetItem_Start known s = Some (e, s1) \<and> balanced others s1 \<and>
    (e = None \<longleftrightarrow> list_all known (h_tagList (fst s))) \<and>
    h_setList (fst s1) = (if list_all known (h_tagList (fst s)) then h_tagList (fst s) else [])"
proof -
  obtain s1 where s1: "RuleSetItem_Close s = Some s1" "balanced others s1" "h_setList (fst s1) = []"
    "h_tagList (fst s1) = h_tagList (fst s)"
    using assms by (rule Close_balanced) blast
  show ?thesis
    using start_loop_balanced [OF s1(2), of known "h_tagList (fst s)"]
    unfolding RuleSetItem_Start_def s1(1) option.case s1(3,4) append_Nil .
qed

end
