(* ===== verification/Rule_Build.thy ===== *)
theory Rule_Build
  imports Rule_Options
begin

text \<open>
  Rules from options: \<open>NewHeadlessRule\<close> and its two kinds (\<open>rule_headless.go\<close>), the conditions of
  \<open>NewDefaultRule\<close> (\<open>rule_default.go\<close>) and of \<open>NewDefaultDNSRule\<close>, \<open>NewDNSRule\<close>, \<open>NewLogicalDNSRule\<close>
  and the checks of their actions (\<open>rule_dns.go\<close>, \<open>rule_nested_action.go\<close>). A constructor of a default
  rule is a list of steps in the order of the code: each adds an item to one of the rule's lists, or
  fails, which ends the construction.
\<close>

section \<open>Steps\<close>

text \<open>What the constructors call outside the repository.\<close>

record libraries =
  l_newMatcher :: "string list \<Rightarrow> string list \<Rightarrow> (string \<Rightarrow> bool) option" \<comment> \<open>\<open>domainset.NewMatcher\<close>, a \<open>domain.Matcher\<close>\<close>
  l_compile :: "string \<Rightarrow> (string \<Rightarrow> bool) option" \<comment> \<open>\<open>regexp.Compile\<close>\<close>
  l_adGuard :: "string list \<Rightarrow> string \<Rightarrow> bool" \<comment> \<open>\<open>domain.NewAdGuardMatcher\<close>\<close>
  l_parsePrefix :: "string \<Rightarrow> prefix option" \<comment> \<open>\<open>netip.ParsePrefix\<close>\<close>
  l_parseAddr :: "string \<Rightarrow> addr option" \<comment> \<open>\<open>netip.ParseAddr\<close>\<close>
  l_ipSet :: "(prefix + addr) list \<Rightarrow> (addr \<Rightarrow> bool) option" \<comment> \<open>\<open>netipx.IPSetBuilder\<close>\<close>
  l_parseMAC :: "string \<Rightarrow> bytes option" \<comment> \<open>\<open>net.ParseMAC\<close>\<close>
  l_prefixString :: "prefix \<Rightarrow> string" \<comment> \<open>\<open>netip.Prefix.String\<close>\<close>

datatype place = Items | SourceAddress | SourcePort | DestinationAddress | DestinationIPCIDR | DestinationPort

datatype build_step = Skip | Add place item | Fail rule_error

fun add_item :: "place \<Rightarrow> item \<Rightarrow> conditions \<Rightarrow> conditions" where
  "add_item Items i c = c\<lparr>r_items := r_items c @ [i], r_allItems := r_allItems c @ [i]\<rparr>"
| "add_item SourceAddress i c = c\<lparr>r_sourceAddressItems := r_sourceAddressItems c @ [i], r_allItems := r_allItems c @ [i]\<rparr>"
| "add_item SourcePort i c = c\<lparr>r_sourcePortItems := r_sourcePortItems c @ [i], r_allItems := r_allItems c @ [i]\<rparr>"
| "add_item DestinationAddress i c =
     c\<lparr>r_destinationAddressItems := r_destinationAddressItems c @ [i], r_allItems := r_allItems c @ [i]\<rparr>"
| "add_item DestinationIPCIDR i c =
     c\<lparr>r_destinationIPCIDRItems := r_destinationIPCIDRItems c @ [i], r_allItems := r_allItems c @ [i]\<rparr>"
| "add_item DestinationPort i c =
     c\<lparr>r_destinationPortItems := r_destinationPortItems c @ [i], r_allItems := r_allItems c @ [i]\<rparr>"

fun build :: "build_step list \<Rightarrow> conditions \<Rightarrow> rule_error + conditions" where
  "build [] c = Inr c"
| "build (Skip # steps) c = build steps c"
| "build (Add p i # steps) c = build steps (add_item p i c)"
| "build (Fail e # steps) c = Inl e"

definition no_conditions :: conditions where
  "no_conditions = \<lparr>r_items = [], r_sourceAddressItems = [], r_sourcePortItems = [], r_destinationAddressItems = [],
     r_destinationIPCIDRItems = [], r_destinationPortItems = [], r_allItems = []\<rparr>"

definition only :: "bool \<Rightarrow> build_step \<Rightarrow> build_step" where
  "only b s = (if b then s else Skip)"

definition adding :: "place \<Rightarrow> rule_error + item \<Rightarrow> build_step" where
  "adding p r = (case r of Inl e \<Rightarrow> Fail e | Inr i \<Rightarrow> Add p i)"

definition causing :: "string \<Rightarrow> rule_error + 'a \<Rightarrow> rule_error + 'a" where
  "causing name r = (case r of Inl e \<Rightarrow> Inl (Cause name e) | Inr x \<Rightarrow> Inr x)"

section \<open>Items that can fail\<close>

definition domain_item :: "libraries \<Rightarrow> string list \<Rightarrow> string list \<Rightarrow> rule_error + item" where
  "domain_item l domains domainSuffixes =
     map_sum id (\<lambda>(f, d). DomainItem f d) (NewDomainItem (l_newMatcher l) domains domainSuffixes)"

definition domain_regex_item :: "libraries \<Rightarrow> string list \<Rightarrow> rule_error + item" where
  "domain_regex_item l es = map_sum id (\<lambda>(fs, d). DomainRegexItem fs d) (NewDomainRegexItem (l_compile l) es)"

definition cidr_item :: "libraries \<Rightarrow> bool \<Rightarrow> string list \<Rightarrow> rule_error + item" where
  "cidr_item l src ps = map_sum id (\<lambda>(f, b, d). IPCIDRItem f b d)
     (NewIPCIDRItem (l_parsePrefix l) (l_parseAddr l) (l_ipSet l) src ps)"

definition raw_cidr_item :: "bool \<Rightarrow> (addr \<Rightarrow> bool) \<Rightarrow> item" where
  "raw_cidr_item src s = (case NewRawIPCIDRItem src s of (f, b, d) \<Rightarrow> IPCIDRItem f b d)"

definition port_range_item :: "bool \<Rightarrow> string list \<Rightarrow> rule_error + item" where
  "port_range_item src rs = map_sum id (\<lambda>(b, d, r). PortRangeItem b d r) (NewPortRangeItem src rs)"

definition process_path_regex_item :: "libraries \<Rightarrow> string list \<Rightarrow> rule_error + item" where
  "process_path_regex_item l es =
     map_sum id (\<lambda>(fs, d). ProcessPathRegexItem fs d) (NewProcessPathRegexItem (l_compile l) es)"

definition package_name_regex_item :: "libraries \<Rightarrow> string list \<Rightarrow> rule_error + item" where
  "package_name_regex_item l es =
     map_sum id (\<lambda>(fs, d). PackageNameRegexItem fs d) (NewPackageNameRegexItem (l_compile l) es)"

definition NewInterfaceAddressItem :: "libraries \<Rightarrow> (string \<times> prefix list) list \<Rightarrow> item" where
  "NewInterfaceAddressItem l entries =
     InterfaceAddressItem entries (''interface_address=['' @ join '' ''
       (map (\<lambda>(name, ps). name @ ''='' @ join '','' (map (l_prefixString l) ps)) entries) @ '']'')"

definition NewNetworkInterfaceAddressItem :: "libraries \<Rightarrow> (interface_type \<times> prefix list) list \<Rightarrow> item" where
  "NewNetworkInterfaceAddressItem l entries =
     NetworkInterfaceAddressItem entries (''network_interface_address=['' @ join '' ''
       (map (\<lambda>(type, ps). interface_type_string type @ ''='' @ join '','' (map (l_prefixString l) ps)) entries) @ '']'')"

section \<open>Steps that the constructors share\<close>

definition port_steps :: "'a common_options_scheme \<Rightarrow> build_step list" where
  "port_steps o' =
     [only (q_SourcePort o' \<noteq> []) (Add SourcePort (PortItem (q_SourcePort o') True)),
      only (q_SourcePortRange o' \<noteq> [])
        (adding SourcePort (causing ''source_port_range'' (port_range_item True (q_SourcePortRange o')))),
      only (q_Port o' \<noteq> []) (Add DestinationPort (PortItem (q_Port o') False)),
      only (q_PortRange o' \<noteq> [])
        (adding DestinationPort (causing ''port_range'' (port_range_item False (q_PortRange o'))))]"

definition process_steps :: "libraries \<Rightarrow> 'a common_options_scheme \<Rightarrow> build_step list" where
  "process_steps l o' =
     [only (q_ProcessName o' \<noteq> []) (Add Items (ProcessItem (q_ProcessName o'))),
      only (q_ProcessPath o' \<noteq> []) (Add Items (ProcessPathItem (q_ProcessPath o'))),
      only (q_ProcessPathRegex o' \<noteq> [])
        (adding Items (causing ''process_path_regex'' (process_path_regex_item l (q_ProcessPathRegex o')))),
      only (q_PackageName o' \<noteq> []) (Add Items (PackageNameItem (q_PackageName o'))),
      only (q_PackageNameRegex o' \<noteq> [])
        (adding Items (causing ''package_name_regex'' (package_name_regex_item l (q_PackageNameRegex o'))))]"

definition network_steps :: "'a common_options_scheme \<Rightarrow> build_step list" where
  "network_steps o' =
     [only (q_NetworkType o' \<noteq> []) (Add Items (NetworkTypeItem (q_NetworkType o'))),
      only (q_NetworkIsExpensive o') (Add Items NetworkIsExpensiveItem),
      only (q_NetworkIsConstrained o') (Add Items NetworkIsConstrainedItem),
      only (q_WIFISSID o' \<noteq> []) (Add Items (WIFISSIDItem (q_WIFISSID o'))),
      only (q_WIFIBSSID o' \<noteq> []) (Add Items (WIFIBSSIDItem (q_WIFIBSSID o') (NewWIFIBSSIDItem (q_WIFIBSSID o'))))]"

definition interface_steps :: "libraries \<Rightarrow> 'a common_options_scheme \<Rightarrow> build_step list" where
  "interface_steps l o' =
     [(case q_NetworkInterfaceAddress o' of
         None \<Rightarrow> Skip
       | Some entries \<Rightarrow> only (entries \<noteq> []) (Add Items (NewNetworkInterfaceAddressItem l entries))),
      only (q_DefaultInterfaceAddress o' \<noteq> []) (Add Items (DefaultInterfaceAddressItem (q_DefaultInterfaceAddress o')))]"

section \<open>Headless rules\<close>

text \<open>The first of two sources that is set: a list, or else a ready matcher.\<close>

definition either_step :: "bool \<Rightarrow> build_step \<Rightarrow> 'a option \<Rightarrow> ('a \<Rightarrow> build_step) \<Rightarrow> build_step" where
  "either_step b s raw f = (if b then s else case raw of None \<Rightarrow> Skip | Some x \<Rightarrow> f x)"

definition headless_steps :: "libraries \<Rightarrow> bool \<Rightarrow> headless_options \<Rightarrow> build_step list" where
  "headless_steps l networkManager o' =
     [only (q_HeadlessQueryType o' \<noteq> []) (Add Items (QueryTypeItem (q_HeadlessQueryType o'))),
      only (q_Network o' \<noteq> []) (Add Items (NetworkItem (q_Network o'))),
      either_step (q_Domain o' \<noteq> [] \<or> q_DomainSuffix o' \<noteq> [])
        (adding DestinationAddress (domain_item l (q_Domain o') (q_DomainSuffix o')))
        (q_DomainMatcher o') (\<lambda>f. Add DestinationAddress (DomainItem f ''domain/domain_suffix=<binary>'')),
      only (q_DomainKeyword o' \<noteq> []) (Add DestinationAddress (DomainKeywordItem (q_DomainKeyword o'))),
      only (q_DomainRegex o' \<noteq> [])
        (adding DestinationAddress (causing ''domain_regex'' (domain_regex_item l (q_DomainRegex o')))),
      either_step (q_SourceIPCIDR o' \<noteq> [])
        (adding SourceAddress (causing ''source_ip_cidr'' (cidr_item l True (q_SourceIPCIDR o'))))
        (q_SourceIPSet o') (\<lambda>s. Add SourceAddress (raw_cidr_item True s)),
      either_step (q_IPCIDR o' \<noteq> [])
        (adding DestinationIPCIDR (causing ''ipcidr'' (cidr_item l False (q_IPCIDR o'))))
        (q_IPSet o') (\<lambda>s. Add DestinationIPCIDR (raw_cidr_item False s))]
     @ port_steps o' @ process_steps l o' @
     (if networkManager then network_steps o' @ interface_steps l o' else []) @
     [either_step (q_AdGuardDomain o' \<noteq> [])
        (Add DestinationAddress (AdGuardDomainItem (l_adGuard l (q_AdGuardDomain o'))))
        (q_AdGuardDomainMatcher o') (\<lambda>f. Add DestinationAddress (AdGuardDomainItem f))]"

definition NewDefaultHeadlessRule :: "libraries \<Rightarrow> bool \<Rightarrow> headless_options \<Rightarrow> rule_error + rule" where
  "NewDefaultHeadlessRule l networkManager o' =
     (case build (headless_steps l networkManager o') no_conditions of
        Inl e \<Rightarrow> Inl e
      | Inr c \<Rightarrow> Inr (DefaultRule c None (q_Invert o') None))"

fun mode_of :: "string \<Rightarrow> mode option" where
  "mode_of s = (if s = ''and'' then Some ModeAnd else if s = ''or'' then Some ModeOr else None)"

text \<open>The rules of a logical rule; the error of the first one that fails carries its index.\<close>

fun sub_rules :: "nat \<Rightarrow> (rule_error + 'r) list \<Rightarrow> rule_error + 'r list" where
  "sub_rules i [] = Inr []"
| "sub_rules i (r # rs) =
     (case r of
        Inl e \<Rightarrow> Inl (SubRule i e)
      | Inr x \<Rightarrow> (case sub_rules (Suc i) rs of Inl e \<Rightarrow> Inl e | Inr xs \<Rightarrow> Inr (x # xs)))"

fun NewHeadlessRule :: "libraries \<Rightarrow> bool \<Rightarrow> headless_rule \<Rightarrow> rule_error + rule" where
  "NewHeadlessRule l networkManager (HDefault o') =
     (if \<not> default_headless_IsValid o' then Inl MissingConditions
      else NewDefaultHeadlessRule l networkManager o')"
| "NewHeadlessRule l networkManager (HLogical mode rules invert) =
     (case headless_IsValid (HLogical mode rules invert) of
        None \<Rightarrow> Inl Panicked
      | Some valid \<Rightarrow>
          if \<not> valid then Inl MissingConditions
          else case mode_of mode of
            None \<Rightarrow> Inl (UnknownMode mode)
          | Some md \<Rightarrow>
              (case sub_rules 0 (map (NewHeadlessRule l networkManager) rules) of
                 Inl e \<Rightarrow> Inl e
               | Inr rs \<Rightarrow> Inr (LogicalRule md rs invert)))"
| "NewHeadlessRule l networkManager (HUnknown type) = Inl (UnknownType type)"

section \<open>Route rules\<close>

definition ip_version_step :: "int \<Rightarrow> build_step" where
  "ip_version_step v =
     (if 0 < v
      then (if v = 4 \<or> v = 6 then Add Items (IPVersionItem (v = 6)) else Fail (InvalidIPVersion v))
      else Skip)"

definition geo_steps :: "'a rule_options_scheme \<Rightarrow> build_step list" where
  "geo_steps o' =
     [only (q_Geosite o' \<noteq> []) (Fail (Removed ''geosite'')),
      only (q_SourceGeoIP o' \<noteq> []) (Fail (Removed ''geoip'')),
      only (q_GeoIP o' \<noteq> []) (Fail (Removed ''geoip''))]"

definition user_steps :: "'a rule_options_scheme \<Rightarrow> build_step list" where
  "user_steps o' =
     [only (q_User o' \<noteq> []) (Add Items (UserItem (q_User o'))),
      only (q_UserID o' \<noteq> []) (Add Items (UserIdItem (q_UserID o')))]"

definition clash_step :: "'a rule_options_scheme \<Rightarrow> build_step" where
  "clash_step o' = only (q_ClashMode o' \<noteq> []) (Add Items (ClashModeItem (q_ClashMode o')))"

definition named_interface_step :: "libraries \<Rightarrow> 'a rule_options_scheme \<Rightarrow> build_step" where
  "named_interface_step l o' =
     (case q_InterfaceAddress o' of
        None \<Rightarrow> Skip
      | Some entries \<Rightarrow> only (entries \<noteq> []) (Add Items (NewInterfaceAddressItem l entries)))"

definition source_steps :: "libraries \<Rightarrow> 'a rule_options_scheme \<Rightarrow> build_step list" where
  "source_steps l o' =
     [only (q_SourceMACAddress o' \<noteq> []) (Add Items (SourceMACAddressItem (q_SourceMACAddress o')
        (NewSourceMACAddressItem (l_parseMAC l) (q_SourceMACAddress o')))),
      only (q_SourceHostname o' \<noteq> []) (Add Items (SourceHostnameItem (q_SourceHostname o')))]"

text \<open>The rule set item is the last; \<open>Start\<close> looks its rule sets up later.\<close>

definition rule_set_step :: "'a rule_options_scheme \<Rightarrow> build_step" where
  "rule_set_step o' =
     only (q_RuleSet o' \<noteq> [] \<and> q_RulesetIPCIDRMatchSource o') (Fail (Removed ''rule_set_ipcidr_match_source''))"

definition rule_set_item :: "'a rule_options_scheme \<Rightarrow> bool \<Rightarrow> bool \<Rightarrow> ruleSetItem option" where
  "rule_set_item o' acceptEmpty domainOnly =
     (if q_RuleSet o' \<noteq> []
      then Some (RuleSetItem (q_RuleSet o') [] (q_RuleSetIPCIDRMatchSource o') acceptEmpty domainOnly) else None)"

definition route_steps :: "libraries \<Rightarrow> route_options \<Rightarrow> build_step list" where
  "route_steps l o' =
     [only (q_Inbound o' \<noteq> []) (Add Items (InboundItem (q_Inbound o'))),
      ip_version_step (q_IPVersion o'),
      only (q_Network o' \<noteq> []) (Add Items (NetworkItem (q_Network o'))),
      only (q_AuthUser o' \<noteq> []) (Add Items (AuthUserItem (q_AuthUser o'))),
      only (q_Protocol o' \<noteq> []) (Add Items (ProtocolItem (q_Protocol o'))),
      only (q_Client o' \<noteq> []) (Add Items (ClientItem (q_Client o'))),
      only (q_Domain o' \<noteq> [] \<or> q_DomainSuffix o' \<noteq> [])
        (adding DestinationAddress (domain_item l (q_Domain o') (q_DomainSuffix o'))),
      only (q_DomainKeyword o' \<noteq> []) (Add DestinationAddress (DomainKeywordItem (q_DomainKeyword o'))),
      only (q_DomainRegex o' \<noteq> []) (adding DestinationAddress (domain_regex_item l (q_DomainRegex o')))]
     @ geo_steps o' @
     [only (q_SourceIPCIDR o' \<noteq> [])
        (adding SourceAddress (causing ''source_ip_cidr'' (cidr_item l True (q_SourceIPCIDR o')))),
      only (q_SourceIPIsPrivate o') (Add SourceAddress (IPIsPrivateItem True)),
      only (q_IPCIDR o' \<noteq> []) (adding DestinationIPCIDR (causing ''ipcidr'' (cidr_item l False (q_IPCIDR o')))),
      only (q_IPIsPrivate o') (Add DestinationIPCIDR (IPIsPrivateItem False))]
     @ port_steps o' @ process_steps l o' @ user_steps o' @ [clash_step o'] @ network_steps o' @
     [named_interface_step l o'] @ interface_steps l o' @ source_steps l o' @
     [only (q_PreferredBy o' \<noteq> []) (Add Items (PreferredByItem (q_PreferredBy o') [])),
      rule_set_step o']"

text \<open>\<open>NewDefaultRule\<close> without its action.\<close>

definition NewDefaultRule :: "libraries \<Rightarrow> route_options \<Rightarrow> rule_error + rule" where
  "NewDefaultRule l o' =
     (case build (route_steps l o') no_conditions of
        Inl e \<Rightarrow> Inl e
      | Inr c \<Rightarrow> Inr (DefaultRule c (rule_set_item o' False False) (q_Invert o') None))"

section \<open>DNS rules\<close>

definition dns_steps :: "libraries \<Rightarrow> dns_options \<Rightarrow> bool \<Rightarrow> build_step list" where
  "dns_steps l o' legacyDNSMode =
     [only (q_Inbound o' \<noteq> []) (Add Items (InboundItem (q_Inbound o'))),
      ip_version_step (q_IPVersion o'),
      only (q_QueryType o' \<noteq> []) (Add Items (QueryTypeItem (q_QueryType o'))),
      only (q_QueryClientSubnet o' \<noteq> []) (Add Items (QueryClientSubnetItem (q_QueryClientSubnet o'))),
      only (q_QueryDNSSEC o') (Add Items QueryDNSSECItem),
      only (q_Network o' \<noteq> []) (Add Items (NetworkItem (q_Network o'))),
      only (q_AuthUser o' \<noteq> []) (Add Items (AuthUserItem (q_AuthUser o'))),
      only (q_Protocol o' \<noteq> []) (Add Items (ProtocolItem (q_Protocol o'))),
      only (q_Domain o' \<noteq> [] \<or> q_DomainSuffix o' \<noteq> [])
        (adding DestinationAddress (domain_item l (q_Domain o') (q_DomainSuffix o'))),
      only (q_DomainKeyword o' \<noteq> []) (Add DestinationAddress (DomainKeywordItem (q_DomainKeyword o'))),
      only (q_DomainRegex o' \<noteq> [])
        (adding DestinationAddress (causing ''domain_regex'' (domain_regex_item l (q_DomainRegex o'))))]
     @ geo_steps o' @
     [only (q_SourceIPCIDR o' \<noteq> [])
        (adding SourceAddress (causing ''source_ip_cidr'' (cidr_item l True (q_SourceIPCIDR o')))),
      only (q_IPCIDR o' \<noteq> []) (adding DestinationIPCIDR (causing ''ip_cidr'' (cidr_item l False (q_IPCIDR o')))),
      only (q_SourceIPIsPrivate o') (Add SourceAddress (IPIsPrivateItem True)),
      only (q_IPIsPrivate o') (Add DestinationIPCIDR (IPIsPrivateItem False)),
      only (q_IPAcceptAny o') (Add DestinationIPCIDR IPAcceptAnyItem),
      (case q_ResponseRcode o' of None \<Rightarrow> Skip | Some rcode \<Rightarrow> Add Items (DNSResponseRCodeItem rcode)),
      only (q_ResponseAnswer o' \<noteq> [])
        (Add Items (DNSResponseRecordItem ''response_answer'' (q_ResponseAnswer o') Answers)),
      only (q_ResponseNs o' \<noteq> []) (Add Items (DNSResponseRecordItem ''response_ns'' (q_ResponseNs o') NS)),
      only (q_ResponseExtra o' \<noteq> [])
        (Add Items (DNSResponseRecordItem ''response_extra'' (q_ResponseExtra o') Extra))]
     @ port_steps o' @ process_steps l o' @ user_steps o' @
     [only (q_Outbound o' \<noteq> []) (Add Items (OutboundItem (q_Outbound o'))), clash_step o'] @ network_steps o' @
     [named_interface_step l o'] @ interface_steps l o' @ source_steps l o' @
     [only (q_PreferredBy o' \<noteq> []) (Add Items (PreferredByDNSItem (q_PreferredBy o') [])),
      only (q_RuleSetIPCIDRAcceptEmpty o' \<and> \<not> legacyDNSMode) (Fail (Removed ''rule_set_ip_cidr_accept_empty'')),
      rule_set_step o']"

definition NewDefaultDNSRule :: "libraries \<Rightarrow> dns_options \<Rightarrow> bool \<Rightarrow> rule_error + rule" where
  "NewDefaultDNSRule l o' legacyDNSMode =
     (case build (dns_steps l o' legacyDNSMode) no_conditions of
        Inl e \<Rightarrow> Inl e
      | Inr c \<Rightarrow>
          Inr (DefaultRule c (rule_set_item o' (q_RuleSetIPCIDRAcceptEmpty o') (q_RuleSetDomainOnly o')) (q_Invert o')
            (if IsEnabled (q_MatchResponse o') then Some (ResponseTag (q_MatchResponse o')) else None)))"

text \<open>
  The options of a DNS action, as far as the checks of a rule look at them; \<open>a_Rest\<close> stands for all
  other fields, empty when they have their zero value.
\<close>

record route_action =
  ra_Server :: string
  ra_Speculative :: bool
  ra_ClientSubnet :: "prefix option"
  ra_RemoveClientSubnet :: bool

record dns_action =
  a_Action :: string
  a_Race :: bool
  a_RouteOptions :: route_action
  a_EvaluateOptions :: route_action
  a_RouteOptionsOptions :: route_action
  a_RejectMethod :: string
  a_Rest :: string

definition no_route_action :: route_action where
  "no_route_action = \<lparr>ra_Server = [], ra_Speculative = False, ra_ClientSubnet = None, ra_RemoveClientSubnet = False\<rparr>"

definition no_action :: dns_action where
  "no_action = \<lparr>a_Action = [], a_Race = False, a_RouteOptions = no_route_action, a_EvaluateOptions = no_route_action,
     a_RouteOptionsOptions = no_route_action, a_RejectMethod = [], a_Rest = []\<rparr>"

definition is_route :: "dns_action \<Rightarrow> bool" where
  "is_route a = (a_Action a = [] \<or> a_Action a = ''route'')"

definition client_subnet_clash :: "route_action \<Rightarrow> bool" where
  "client_subnet_clash r = (ra_RemoveClientSubnet r \<and> ra_ClientSubnet r \<noteq> None)"

text \<open>\<open>None\<close> is no error.\<close>

definition validateDNSRuleAction :: "dns_action \<Rightarrow> rule_error option" where
  "validateDNSRuleAction a =
     (if a_Action a = ''reject'' \<and> a_RejectMethod a = ''reply'' then Some (Unsupported ''reply'')
      else if client_subnet_clash
          (if is_route a then a_RouteOptions a
           else if a_Action a = ''evaluate'' then a_EvaluateOptions a
           else if a_Action a = ''route-options'' then a_RouteOptionsOptions a
           else no_route_action)
      then Some Exclusive
      else if a_Race a
      then (if \<not> (is_route a \<or> a_Action a = ''respond'' \<or> a_Action a = ''reject'' \<or> a_Action a = ''predefined'')
            then Some RaceNeedsFinal
            else if ra_Speculative (a_RouteOptions a) then Some RaceAndSpeculative
            else None)
      else None)"

datatype dns_rule =
    DDefault dns_options dns_action
  | DLogical string "dns_rule list" bool dns_action
  | DUnknown string

fun dns_action_of :: "dns_rule \<Rightarrow> dns_action" where
  "dns_action_of (DDefault o' a) = a"
| "dns_action_of (DLogical mode rules invert a) = a"
| "dns_action_of (DUnknown type) = no_action"

definition dnsRuleHasConfiguredAction :: "dns_rule \<Rightarrow> bool" where
  "dnsRuleHasConfiguredAction r = (dns_action_of r \<noteq> no_action)"

text \<open>\<open>DefaultDNSRule.IsValid\<close>: some field is set, one of the action included.\<close>

definition default_dns_IsValid :: "dns_options \<Rightarrow> dns_action \<Rightarrow> bool" where
  "default_dns_IsValid o' a =
     (\<not> (a = no_action \<and> common_zero o' \<and> q_Inbound o' = [] \<and> q_IPVersion o' = 0 \<and> q_AuthUser o' = [] \<and> q_Protocol o' = [] \<and>
         q_Geosite o' = [] \<and> q_SourceGeoIP o' = [] \<and> q_GeoIP o' = [] \<and> \<not> q_SourceIPIsPrivate o' \<and>
         \<not> q_IPIsPrivate o' \<and> q_User o' = [] \<and> q_UserID o' = [] \<and> q_ClashMode o' = [] \<and>
         q_InterfaceAddress o' = None \<and> q_SourceMACAddress o' = [] \<and> q_SourceHostname o' = [] \<and>
         q_PreferredBy o' = [] \<and> q_RuleSet o' = [] \<and> \<not> q_RuleSetIPCIDRMatchSource o' \<and>
         \<not> q_RulesetIPCIDRMatchSource o' \<and> q_QueryType o' = [] \<and> q_QueryClientSubnet o' = [] \<and>
         \<not> q_QueryDNSSEC o' \<and> \<not> q_IPAcceptAny o' \<and> q_ResponseRcode o' = None \<and> q_ResponseAnswer o' = [] \<and>
         q_ResponseNs o' = [] \<and> q_ResponseExtra o' = [] \<and> q_Outbound o' = [] \<and>
         \<not> q_RuleSetIPCIDRAcceptEmpty o' \<and> \<not> q_RuleSetDomainOnly o' \<and> q_MatchResponse o' = None))"

fun dns_IsValid :: "dns_rule \<Rightarrow> bool option" where
  "dns_IsValid (DDefault o' a) = Some (default_dns_IsValid o' a)"
| "dns_IsValid (DLogical mode rules invert a) =
     (if rules = [] then Some False else all_valid (map dns_IsValid rules))"
| "dns_IsValid (DUnknown type) = None"

fun first_error :: "nat \<Rightarrow> rule_error option list \<Rightarrow> rule_error option" where
  "first_error i [] = None"
| "first_error i (e # es) = (case e of None \<Rightarrow> first_error (Suc i) es | Some x \<Rightarrow> Some (SubRule i x))"

fun validateNoNestedDNSRuleActions :: "bool \<Rightarrow> dns_rule \<Rightarrow> rule_error option" where
  "validateNoNestedDNSRuleActions nested (DDefault o' a) =
     (if nested \<and> dnsRuleHasConfiguredAction (DDefault o' a) then Some NestedAction else None)"
| "validateNoNestedDNSRuleActions nested (DLogical mode rules invert a) =
     (if nested \<and> dnsRuleHasConfiguredAction (DLogical mode rules invert a) then Some NestedAction
      else first_error 0 (map (validateNoNestedDNSRuleActions True) rules))"
| "validateNoNestedDNSRuleActions nested (DUnknown type) = None"

text \<open>The checks of the action that \<open>NewDNSRule\<close> makes for both kinds of rules, before and after the one for \<open>race\<close>.\<close>

definition check_action :: "bool \<Rightarrow> dns_action \<Rightarrow> rule_error option" where
  "check_action checkServer a =
     (if \<not> checkServer \<and> a_Action a = ''evaluate'' then Some (NotTopLevel (a_Action a)) else validateDNSRuleAction a)"

text \<open>\<open>NewDNSRuleAction\<close> panics on any other action.\<close>

definition known_dns_action :: "dns_action \<Rightarrow> bool" where
  "known_dns_action a = (a_Action a \<in> {[], ''route'', ''evaluate'', ''respond'', ''route-options'', ''reject'', ''predefined''})"

definition check_server :: "bool \<Rightarrow> dns_action \<Rightarrow> rule_error option" where
  "check_server checkServer a =
     (if checkServer \<and>
         (is_route a \<and> ra_Server (a_RouteOptions a) = [] \<or>
          a_Action a = ''evaluate'' \<and> ra_Server (a_EvaluateOptions a) = [])
      then Some (MissingField ''server'') else None)"

text \<open>\<open>NewLogicalDNSRule\<close> checks the nested actions of one sub-rule and then makes it, before it looks at the next one.\<close>

fun NewDNSRule :: "libraries \<Rightarrow> bool \<Rightarrow> bool \<Rightarrow> dns_rule \<Rightarrow> rule_error + rule" where
  "NewDNSRule l checkServer legacyDNSMode (DDefault o' a) =
     (if \<not> default_dns_IsValid o' a then Inl MissingConditions
      else case check_action checkServer a of
        Some e \<Rightarrow> Inl e
      | None \<Rightarrow>
          if a_Race a \<and> \<not> IsEnabled (q_MatchResponse o') then Inl RaceNeedsResponse
          else case check_server checkServer a of
            Some e \<Rightarrow> Inl e
          | None \<Rightarrow> if \<not> known_dns_action a then Inl Panicked else NewDefaultDNSRule l o' legacyDNSMode)"
| "NewDNSRule l checkServer legacyDNSMode (DLogical mode rules invert a) =
     (case dns_IsValid (DLogical mode rules invert a) of
        None \<Rightarrow> Inl Panicked
      | Some valid \<Rightarrow>
          if \<not> valid then Inl MissingConditions
          else case check_action checkServer a of
            Some e \<Rightarrow> Inl e
          | None \<Rightarrow>
              (case check_server checkServer a of
                 Some e \<Rightarrow> Inl e
               | None \<Rightarrow>
                   if \<not> known_dns_action a then Inl Panicked
                   else (case mode_of mode of
                      None \<Rightarrow> Inl (UnknownMode mode)
                    | Some md \<Rightarrow>
                        (case sub_rules 0 (map (\<lambda>r.
                             case validateNoNestedDNSRuleActions True r of
                               Some e \<Rightarrow> Inl e
                             | None \<Rightarrow> NewDNSRule l False legacyDNSMode r) rules) of
                           Inl e \<Rightarrow> Inl e
                         | Inr rs \<Rightarrow>
                             let r = LogicalRule md rs invert in
                             if a_Race a \<and> MatchResponseTags r = [] \<and> \<not> MatchResponseAnonymous r
                             then Inl RaceNeedsResponse else Inr r))))"
| "NewDNSRule l checkServer legacyDNSMode (DUnknown type) = Inl (UnknownType type)"

end
