(* ===== verification/Rule_Ranges.thy ===== *)
theory Rule_Ranges
  imports Rule_Items "HOL-Library.Product_Lexorder"
begin

text \<open>
  The port ranges and transports of an exported rule set, from \<open>route/rule/rule_set_export.go\<close>:
  \<open>normalizeRuleSetPortRanges\<close>, \<open>intersectRuleSetPortRanges\<close>, \<open>ruleSetPortRanges\<close>, \<open>ruleSetNetworks\<close> and
  \<open>intersectRuleSetNetworks\<close>. A Go slice that is \<open>nil\<close> where the code tells it from an empty one is
  \<open>None\<close>. The normal form is unique: two lists of ranges that hold the same ports have the same one.
\<close>

section \<open>The code\<close>

type_synonym port_range = "u16 \<times> u16"

text \<open>The loop of \<open>normalizeRuleSetPortRanges\<close> after the sorting; the sum is one of \<open>uint32\<close>.\<close>

fun merge_ranges :: "port_range list \<Rightarrow> port_range list \<Rightarrow> port_range list" where
  "merge_ranges result [] = result"
| "merge_ranges result (item # items) =
     (if result = [] \<or> (ucast (snd (last result)) :: u32) + 1 < ucast (fst item)
      then merge_ranges (result @ [item]) items
      else if snd (last result) < snd item
      then merge_ranges (result[length result - 1 := (fst (last result), snd item)]) items
      else merge_ranges result items)"

definition normalizeRuleSetPortRanges :: "port_range list \<Rightarrow> port_range list" where
  "normalizeRuleSetPortRanges ranges = merge_ranges [] (sort ranges)"

definition intersections :: "port_range list \<Rightarrow> port_range list \<Rightarrow> port_range list" where
  "intersections left right =
     concat (map (\<lambda>(s1, e1). concat (map (\<lambda>(s2, e2).
       if max s1 s2 \<le> min e1 e2 then [(max s1 s2, min e1 e2)] else []) right)) left)"

definition intersectRuleSetPortRanges :: "port_range list option \<Rightarrow> port_range list option \<Rightarrow> port_range list option" where
  "intersectRuleSetPortRanges left right =
     (case left of
        None \<Rightarrow> right
      | Some l \<Rightarrow>
          (case right of None \<Rightarrow> left | Some r \<Rightarrow> Some (normalizeRuleSetPortRanges (intersections l r))))"

text \<open>\<open>None\<close> is the range that cannot be read; a range from a later to an earlier port is left out.\<close>

fun raw_ranges :: "string list \<Rightarrow> port_range list option" where
  "raw_ranges [] = Some []"
| "raw_ranges (s # ss) =
     (case parse_port_range s of
        Inl e \<Rightarrow> None
      | Inr (start, stop) \<Rightarrow>
          (case raw_ranges ss of
             None \<Rightarrow> None
           | Some rs \<Rightarrow> Some (if stop < start then rs else (start, stop) # rs)))"

definition ruleSetPortRanges :: "u16 list \<Rightarrow> string list \<Rightarrow> port_range list option option" where
  "ruleSetPortRanges ports rawRanges =
     (if ports = [] \<and> rawRanges = [] then Some None
      else case raw_ranges rawRanges of
        None \<Rightarrow> None
      | Some rs \<Rightarrow>
          let ranges = normalizeRuleSetPortRanges (map (\<lambda>p. (p, p)) ports @ rs) in
          if ranges = [] then None else Some (Some ranges))"

definition ruleSetNetworks :: "string list \<Rightarrow> string list option option" where
  "ruleSetNetworks networks =
     (if networks = [] then Some None
      else if \<not> list_all (\<lambda>n. n = ''tcp'' \<or> n = ''udp'') networks then None
      else if ''tcp'' \<in> set networks \<and> ''udp'' \<in> set networks then Some None
      else if ''tcp'' \<in> set networks then Some (Some [''tcp''])
      else Some (Some [''udp'']))"

definition intersectRuleSetNetworks :: "string list option \<Rightarrow> string list option \<Rightarrow> string list option option" where
  "intersectRuleSetNetworks left right =
     (case left of
        None \<Rightarrow> Some right
      | Some l \<Rightarrow>
          (case right of
             None \<Rightarrow> Some left
           | Some r \<Rightarrow>
               let result = filter (\<lambda>n. n \<in> set r) l in
               if result = [] then None else Some (Some result)))"

section \<open>Ports in ranges\<close>

definition in_ranges :: "u16 \<Rightarrow> port_range list \<Rightarrow> bool" where
  "in_ranges p rs = list_ex (\<lambda>(s, e). s \<le> p \<and> p \<le> e) rs"

definition cover :: "port_range list \<Rightarrow> nat set" where
  "cover rs = (\<Union>(s, e)\<in>set rs. {unat s..unat e})"

lemma in_ranges_cover: "in_ranges p rs = (unat p \<in> cover rs)"
  by (induction rs) (auto simp: in_ranges_def cover_def word_le_nat_alt)

lemma cover_simps [simp]:
  "cover [] = {}" "cover ((s, e) # rs) = {unat s..unat e} \<union> cover rs" "cover (xs @ ys) = cover xs \<union> cover ys"
  by (auto simp: cover_def)

definition valid_range :: "port_range \<Rightarrow> bool" where
  "valid_range r = (fst r \<le> snd r)"

text \<open>Ranges in order with a gap of at least one port between them.\<close>

fun separated :: "port_range list \<Rightarrow> bool" where
  "separated [] = True"
| "separated ((s, e) # rs) = (s \<le> e \<and> (\<forall>n\<in>cover rs. unat e + 1 < n) \<and> separated rs)"

text \<open>The loop with the last range in hand.\<close>

fun merge_from :: "port_range \<Rightarrow> port_range list \<Rightarrow> port_range list" where
  "merge_from cur [] = [cur]"
| "merge_from (s, e) ((s', e') # rs) =
     (if unat e + 1 < unat s' then (s, e) # merge_from (s', e') rs else merge_from (s, max e e') rs)"

lemma u16_bound: "unat (x :: u16) < 65536"
  using unsigned_less [of x, where 'a = nat] by simp

lemma u16_gap: "((ucast (e :: u16) :: u32) + 1 < ucast (s :: u16)) = (unat e + 1 < unat s)"
proof -
  have up: "unat (ucast x :: u32) = unat x" for x :: u16
    using u16_bound [of x] by (simp add: unsigned_ucast_eq take_bit_nat_eq_self)
  have "unat ((ucast e :: u32) + 1) = unat e + 1"
    using u16_bound [of e] by (simp add: unat_word_ariths up)
  then show ?thesis by (simp add: word_less_nat_alt up)
qed

lemma merge_ranges_from: "merge_ranges (result @ [cur]) items = result @ merge_from cur items"
proof (induction items arbitrary: result cur)
  case (Cons item items)
  obtain s e s' e' where c: "cur = (s, e)" "item = (s', e')" by fastforce
  show ?case
  proof (cases "unat e + 1 < unat s'")
    case True
    then show ?thesis using Cons.IH [of "result @ [cur]" item] by (simp add: c u16_gap)
  next
    case False
    then show ?thesis
      using Cons.IH [of result "(s, e')"] Cons.IH [of result "(s, e)"]
      by (auto simp: c u16_gap max_def list_update_append not_le)
  qed
qed simp

lemma normalize_from:
  "normalizeRuleSetPortRanges ranges = (case sort ranges of [] \<Rightarrow> [] | r # rs \<Rightarrow> merge_from r rs)"
  using merge_ranges_from [of "[]"] by (cases "sort ranges") (simp_all add: normalizeRuleSetPortRanges_def)

section \<open>The normal form\<close>

fun ascending :: "port_range list \<Rightarrow> bool" where
  "ascending [] = True"
| "ascending (r # rs) = (valid_range r \<and> (\<forall>r'\<in>set rs. fst r \<le> fst r') \<and> ascending rs)"

lemma sorted_ascending: "sorted rs \<Longrightarrow> list_all valid_range rs \<Longrightarrow> ascending rs"
  by (induction rs) (auto simp: less_eq_prod_def)

lemma merge_from_cover:
  "ascending ((s, e) # rs) \<Longrightarrow> cover (merge_from (s, e) rs) = cover ((s, e) # rs)"
proof (induction "(s, e)" rs arbitrary: s e rule: merge_from.induct)
  case (2 s e s' e' rs)
  show ?case
  proof (cases "unat e + 1 < unat s'")
    case True
    then show ?thesis using 2 by simp
  next
    case False
    have "ascending ((s, max e e') # rs)" using 2(3) by (auto simp: valid_range_def max_def)
    moreover have "{unat s..unat (max e e')} = {unat s..unat e} \<union> {unat s'..unat e'}"
      using False 2(3) by (auto simp: valid_range_def max_def word_le_nat_alt)
    ultimately show ?thesis using 2(2) False by (auto simp: Un_assoc)
  qed
qed simp

lemma cover_bound: "\<forall>r\<in>set rs. s \<le> fst r \<Longrightarrow> n \<in> cover rs \<Longrightarrow> unat s \<le> n"
  by (induction rs) (auto simp: word_le_nat_alt)

lemma merge_from_separated: "ascending ((s, e) # rs) \<Longrightarrow> separated (merge_from (s, e) rs)"
proof (induction "(s, e)" rs arbitrary: s e rule: merge_from.induct)
  case (2 s e s' e' rs)
  show ?case
  proof (cases "unat e + 1 < unat s'")
    case True
    have a: "ascending ((s', e') # rs)" using 2(3) by simp
    have "unat e + 1 < n" if "n \<in> cover (merge_from (s', e') rs)" for n
    proof -
      have "unat s' \<le> n"
        using that a cover_bound [of "(s', e') # rs" s' n] by (simp add: merge_from_cover [OF a])
      then show ?thesis using True by simp
    qed
    then show ?thesis using True 2(1) [OF True a] 2(3) by (simp add: valid_range_def)
  next
    case False
    have "ascending ((s, max e e') # rs)" using 2(3) by (auto simp: valid_range_def max_def)
    then show ?thesis using 2(2) False by simp
  qed
qed (simp add: valid_range_def)

lemma normalize_facts:
  assumes "list_all valid_range rs"
  shows "cover (normalizeRuleSetPortRanges rs) = cover rs" "separated (normalizeRuleSetPortRanges rs)"
proof -
  have a: "ascending (sort rs)" using assms by (intro sorted_ascending) (simp_all add: list_all_iff)
  have c: "cover (sort rs) = cover rs" by (simp add: cover_def)
  show "cover (normalizeRuleSetPortRanges rs) = cover rs" "separated (normalizeRuleSetPortRanges rs)"
    using a c merge_from_cover merge_from_separated
    by (cases "sort rs"; force simp: normalize_from)+
qed

lemma separated_unique: "separated xs \<Longrightarrow> separated ys \<Longrightarrow> cover xs = cover ys \<Longrightarrow> xs = ys"
proof (induction xs arbitrary: ys)
  case Nil
  then show ?case by (cases ys rule: separated.cases) (auto simp: word_le_nat_alt)
next
  case (Cons x xs)
  obtain s e where x: "x = (s, e)" by fastforce
  have "cover ys \<noteq> {}" using Cons.prems(1,3) x by (auto simp: word_le_nat_alt)
  then obtain s' e' ys' where ys: "ys = (s', e') # ys'" by (cases ys rule: separated.cases) auto
  have lx: "s \<le> e" "\<And>n. n \<in> cover xs \<Longrightarrow> unat e + 1 < n" and ly: "s' \<le> e'" "\<And>n. n \<in> cover ys' \<Longrightarrow> unat e' + 1 < n"
    using Cons.prems(1,2) x ys by auto
  have eq: "{unat s..unat e} \<union> cover xs = {unat s'..unat e'} \<union> cover ys'" using Cons.prems(3) x ys by simp
  note mem = set_eq_iff [THEN iffD1, OF eq, rule_format]
  have s: "unat s = unat s'"
    using mem [of "unat s"] mem [of "unat s'"] lx ly by (fastforce simp: word_le_nat_alt)
  have e: "unat e = unat e'"
  proof (rule ccontr)
    assume "unat e \<noteq> unat e'"
    then consider "unat e < unat e'" | "unat e' < unat e" by linarith
    then show False
      using mem [of "unat e + 1"] mem [of "unat e' + 1"] lx ly s by cases (fastforce simp: word_le_nat_alt)+
  qed
  have "cover xs = cover ys'"
    using mem lx ly s e by (intro set_eqI) (metis Un_iff add_lessD1 atLeastAtMost_iff leD)
  then have "xs = ys'" using Cons.IH [of ys'] Cons.prems(1,2) x ys by simp
  moreover have "s = s'" "e = e'" using s e by (simp_all add: word_unat_eq_iff)
  ultimately show ?case by (simp add: x ys)
qed

lemma normalize_eq:
  assumes "list_all valid_range xs" "list_all valid_range ys"
  shows "normalizeRuleSetPortRanges xs = normalizeRuleSetPortRanges ys \<longleftrightarrow> (\<forall>p. in_ranges p xs = in_ranges p ys)"
proof
  assume n: "normalizeRuleSetPortRanges xs = normalizeRuleSetPortRanges ys"
  have "cover xs = cover ys"
    using normalize_facts(1) [OF assms(1)] normalize_facts(1) [OF assms(2)] n by simp
  then show "\<forall>p. in_ranges p xs = in_ranges p ys" by (simp add: in_ranges_cover)
next
  assume p: "\<forall>p. in_ranges p xs = in_ranges p ys"
  have small: "n < 65536" if "n \<in> cover rs" for n and rs :: "port_range list"
    using that by (induction rs) (auto intro: le_less_trans [OF _ u16_bound])
  have "n \<in> cover xs \<longleftrightarrow> n \<in> cover ys" for n
  proof (cases "n < 65536")
    case True
    then have "unat (word_of_nat n :: u16) = n" by (simp add: unat_of_nat)
    then show ?thesis using p [rule_format, of "word_of_nat n"] by (simp add: in_ranges_cover)
  next
    case False
    then show ?thesis using small by blast
  qed
  then have "cover xs = cover ys" by blast
  then show "normalizeRuleSetPortRanges xs = normalizeRuleSetPortRanges ys"
    using normalize_facts assms by (intro separated_unique) simp_all
qed

section \<open>Intersections and conditions\<close>

lemma in_ranges_simps [simp]:
  "in_ranges p [] = False" "in_ranges p ((s, e) # rs) = (s \<le> p \<and> p \<le> e \<or> in_ranges p rs)"
  "in_ranges p (xs @ ys) = (in_ranges p xs \<or> in_ranges p ys)"
  by (simp_all add: in_ranges_def)

lemma intersections_in: "in_ranges p (intersections l r) = (in_ranges p l \<and> in_ranges p r)"
proof -
  have one: "in_ranges p (concat (map (\<lambda>(s2, e2). if max s1 s2 \<le> min e1 e2 then [(max s1 s2, min e1 e2)] else []) r))
      = (s1 \<le> p \<and> p \<le> e1 \<and> in_ranges p r)" for s1 e1
  proof (induction r)
    case (Cons x r)
    obtain s2 e2 where x: "x = (s2, e2)" by fastforce
    have "in_ranges p (if max s1 s2 \<le> min e1 e2 then [(max s1 s2, min e1 e2)] else []) =
        (s1 \<le> p \<and> p \<le> e1 \<and> s2 \<le> p \<and> p \<le> e2)"
      by (auto simp del: max.bounded_iff min.bounded_iff) (auto intro: order_trans)
    then show ?case using Cons by (auto simp: x)
  qed simp
  have "in_ranges p (intersections (x # l) r) =
      (fst x \<le> p \<and> p \<le> snd x \<and> in_ranges p r \<or> in_ranges p (intersections l r))" for x l
    using one by (cases x) (simp add: intersections_def)
  note step = this
  show ?thesis
  proof (induction l)
    case (Cons x l)
    then show ?case unfolding step by (cases x) auto
  qed (simp add: intersections_def)
qed

lemma intersections_valid: "list_all valid_range (intersections l r)"
  by (auto simp: intersections_def list_all_iff valid_range_def split: if_splits)

lemma raw_ranges_valid: "raw_ranges ss = Some rs \<Longrightarrow> list_all valid_range rs"
  by (induction ss arbitrary: rs) (auto simp: valid_range_def split: sum.splits option.splits if_splits)

text \<open>What a condition that may be missing lets through.\<close>

definition ports_allow :: "port_range list option \<Rightarrow> u16 \<Rightarrow> bool" where
  "ports_allow ports p = (case ports of None \<Rightarrow> True | Some rs \<Rightarrow> in_ranges p rs)"

definition networks_allow :: "string list option \<Rightarrow> string \<Rightarrow> bool" where
  "networks_allow networks n = (case networks of None \<Rightarrow> True | Some ns \<Rightarrow> n \<in> set ns)"

lemma normalize_in: "list_all valid_range rs \<Longrightarrow> in_ranges p (normalizeRuleSetPortRanges rs) = in_ranges p rs"
  by (simp add: in_ranges_cover normalize_facts)

lemma intersect_ports_allow:
  "ports_allow (intersectRuleSetPortRanges l r) p = (ports_allow l p \<and> ports_allow r p)"
  by (auto simp: intersectRuleSetPortRanges_def ports_allow_def normalize_in intersections_valid intersections_in
      split: option.splits)

lemma intersect_networks_allow:
  "intersectRuleSetNetworks l r = Some ns \<Longrightarrow> networks_allow ns n = (networks_allow l n \<and> networks_allow r n)"
  by (auto simp: intersectRuleSetNetworks_def networks_allow_def Let_def split: option.splits if_splits)

lemma ruleSetNetworks_allow:
  assumes "ruleSetNetworks networks = Some ns" "n = ''tcp'' \<or> n = ''udp''"
  shows "networks_allow ns n = (networks = [] \<or> n \<in> set networks)"
proof (cases "networks = []")
  case False
  have only: "\<forall>x\<in>set networks. x = ''tcp'' \<or> x = ''udp''"
    using assms(1) False by (simp add: ruleSetNetworks_def list_all_iff split: if_splits)
  obtain x where x: "x \<in> set networks" using False by (cases networks) auto
  have some: "''tcp'' \<in> set networks \<or> ''udp'' \<in> set networks" using only x by metis
  have "list_all (\<lambda>n. n = ''tcp'' \<or> n = ''udp'') networks" using only by (simp only: list_all_iff)
  then have ns: "ns = (if ''tcp'' \<in> set networks \<and> ''udp'' \<in> set networks then None
      else if ''tcp'' \<in> set networks then Some [''tcp''] else Some [''udp''])"
    using assms(1) False by (auto simp: ruleSetNetworks_def simp del: list_all_iff split: if_splits)
  from assms(2) show ?thesis
  proof
    assume n: "n = ''tcp''"
    then show ?thesis using False by (simp add: ns networks_allow_def)
  next
    assume n: "n = ''udp''"
    then show ?thesis using False some by (auto simp: ns networks_allow_def)
  qed
qed (use assms in \<open>simp add: ruleSetNetworks_def networks_allow_def\<close>)

end
