(* ===== verification/Rule_Export.thy ===== *)
theory Rule_Export
  imports Rule_Build Rule_Ranges "HOL-Library.List_Lexorder" "HOL-Library.Char_ord"
begin

text \<open>
  The export of a rule set's addresses for a packet filter, \<open>route/rule/rule_set_export.go\<close>: rules become
  clauses of a set of addresses with transports and port ranges, the clauses of a logical rule are
  combined, and the addresses are collected, those without further conditions apart from the others.

  A \<open>netipx.IPSet\<close> is the set of its addresses, as a predicate; \<open>none\<close> tells that it has no prefixes.
  The lists of prefixes of IPv4 and of IPv6 are kept as the sets they stand for, and the digest of the
  result is left out.
\<close>

section \<open>Clauses\<close>

record clause =
  cl_ipSet :: "(addr \<Rightarrow> bool) option"
  cl_networks :: "string list option"
  cl_ports :: "port_range list option"
  cl_nonIPPath :: string

type_synonym skipped = "string \<times> string" \<comment> \<open>path and reason\<close>

definition no_clause :: clause where
  "no_clause = \<lparr>cl_ipSet = None, cl_networks = None, cl_ports = None, cl_nonIPPath = []\<rparr>"

fun zone :: "addr \<Rightarrow> string" where
  "zone (Addr6 h l z) = z"
| "zone _ = []"

text \<open>The entries of \<open>IPCIDR\<close>: a prefix, or an address without a zone.\<close>

fun ip_entries :: "libraries \<Rightarrow> string list \<Rightarrow> (prefix + addr) list option" where
  "ip_entries l [] = Some []"
| "ip_entries l (s # ss) =
     (case l_parsePrefix l s of
        Some p \<Rightarrow> (case ip_entries l ss of None \<Rightarrow> None | Some es \<Rightarrow> Some (Inl (masked p) # es))
      | None \<Rightarrow>
          (case l_parseAddr l s of
             None \<Rightarrow> None
           | Some a \<Rightarrow>
               if zone a \<noteq> [] then None
               else (case ip_entries l ss of None \<Rightarrow> None | Some es \<Rightarrow> Some (Inr a # es))))"

text \<open>\<open>None\<close> is an invalid list, \<open>Some None\<close> the \<open>nil\<close> of an empty set.\<close>

definition ruleSetIPSet :: "libraries \<Rightarrow> ((addr \<Rightarrow> bool) \<Rightarrow> bool) \<Rightarrow> headless_options \<Rightarrow> (addr \<Rightarrow> bool) option option" where
  "ruleSetIPSet l none o' =
     (case ip_entries l (q_IPCIDR o') of
        None \<Rightarrow> None
      | Some es \<Rightarrow>
          (case l_ipSet l es of
             None \<Rightarrow> None
           | Some s \<Rightarrow>
               let ipSet = (case q_IPSet o' of None \<Rightarrow> s | Some raw \<Rightarrow> (\<lambda>a. raw a \<or> s a)) in
               if none ipSet then Some None else Some (Some ipSet)))"

definition hasRuleSetDomainConstraint :: "headless_options \<Rightarrow> bool" where
  "hasRuleSetDomainConstraint o' =
     (q_Domain o' \<noteq> [] \<or> q_DomainSuffix o' \<noteq> [] \<or> q_DomainKeyword o' \<noteq> [] \<or> q_DomainRegex o' \<noteq> [] \<or>
      \<not> Option.is_none (q_DomainMatcher o') \<or> q_AdGuardDomain o' \<noteq> [] \<or> \<not> Option.is_none (q_AdGuardDomainMatcher o'))"

text \<open>A condition is set that no clause can express.\<close>

definition has_other_conditions :: "headless_options \<Rightarrow> bool" where
  "has_other_conditions o' = default_headless_IsValid (o'\<lparr>q_Domain := [], q_DomainSuffix := [], q_DomainKeyword := [],
     q_DomainRegex := [], q_IPCIDR := [], q_Network := [], q_Port := [], q_PortRange := [], q_Invert := False,
     q_DomainMatcher := None, q_IPSet := None, q_AdGuardDomain := [], q_AdGuardDomainMatcher := None\<rparr>)"

definition exportDefaultRuleSetClause :: "libraries \<Rightarrow> ((addr \<Rightarrow> bool) \<Rightarrow> bool) \<Rightarrow> headless_options \<Rightarrow> string \<Rightarrow>
    clause list \<times> skipped list" where
  "exportDefaultRuleSetClause l none o' path =
     (if q_Invert o' then ([], [(path, ''inverted_rule'')])
      else if has_other_conditions o' then ([], [(path, ''unsupported_constraints'')])
      else case ruleSetIPSet l none o' of
        None \<Rightarrow> ([], [(path, ''invalid_ip_cidr'')])
      | Some ipSet \<Rightarrow>
          (case ruleSetNetworks (q_Network o') of
             None \<Rightarrow> ([], [(path, ''unsupported_network'')])
           | Some networks \<Rightarrow>
               (case ruleSetPortRanges (q_Port o') (q_PortRange o') of
                  None \<Rightarrow> ([], [(path, ''invalid_port_range'')])
                | Some ports \<Rightarrow>
                    ([\<lparr>cl_ipSet = ipSet, cl_networks = networks, cl_ports = ports,
                       cl_nonIPPath = (if Option.is_none ipSet \<and> hasRuleSetDomainConstraint o' then path else [])\<rparr>], []))))"

definition combineRuleSetExportClauses :: "((addr \<Rightarrow> bool) \<Rightarrow> bool) \<Rightarrow> clause \<Rightarrow> clause \<Rightarrow> clause option" where
  "combineRuleSetExportClauses none left right =
     (case intersectRuleSetNetworks (cl_networks left) (cl_networks right) of
        None \<Rightarrow> None
      | Some networks \<Rightarrow>
          let ports = intersectRuleSetPortRanges (cl_ports left) (cl_ports right);
              path = (if cl_nonIPPath left = [] then cl_nonIPPath right else cl_nonIPPath left);
              result = (\<lambda>ipSet. \<lparr>cl_ipSet = ipSet, cl_networks = networks, cl_ports = ports, cl_nonIPPath = path\<rparr>) in
          if \<not> Option.is_none (cl_ports left) \<and> \<not> Option.is_none (cl_ports right) \<and> ports = Some [] then None
          else case cl_ipSet left of
            None \<Rightarrow> Some (result (cl_ipSet right))
          | Some s \<Rightarrow>
              (case cl_ipSet right of
                 None \<Rightarrow> Some (result (Some s))
               | Some t \<Rightarrow>
                   let both = (\<lambda>a. s a \<and> t a) in
                   if none both then None else Some (result (Some both))))"

definition childRuleSetPath :: "string \<Rightarrow> nat \<Rightarrow> string" where
  "childRuleSetPath parent index = parent @ ''.rules['' @ dec index @ '']''"

definition maxRuleSetExportClauses :: nat where
  "maxRuleSetExportClauses = 4096"

text \<open>The loops over the rules of a logical rule, each given as the function of its path.\<close>

fun or_clauses :: "string \<Rightarrow> nat \<Rightarrow> (string \<Rightarrow> clause list \<times> skipped list) list \<Rightarrow> clause list \<times> skipped list" where
  "or_clauses path index [] = ([], [])"
| "or_clauses path index (f # fs) =
     (case f (childRuleSetPath path index) of (clauses, skipped) \<Rightarrow>
        case or_clauses path (Suc index) fs of (cs, ss) \<Rightarrow> (clauses @ cs, skipped @ ss))"

definition combinations :: "((addr \<Rightarrow> bool) \<Rightarrow> bool) \<Rightarrow> clause list \<Rightarrow> clause list \<Rightarrow> clause list" where
  "combinations none left right =
     concat (map (\<lambda>c. List.map_filter (combineRuleSetExportClauses none c) right) left)"

fun and_clauses :: "((addr \<Rightarrow> bool) \<Rightarrow> bool) \<Rightarrow> string \<Rightarrow> nat \<Rightarrow> (string \<Rightarrow> clause list \<times> skipped list) list \<Rightarrow>
    clause list \<Rightarrow> skipped list \<Rightarrow> clause list \<times> skipped list" where
  "and_clauses none path index [] clauses skipped = (clauses, skipped)"
| "and_clauses none path index (f # fs) clauses skipped =
     (case f (childRuleSetPath path index) of (childClauses, childSkipped) \<Rightarrow>
        let skipped1 = skipped @ childSkipped in
        if childClauses = [] then ([], skipped1)
        else if maxRuleSetExportClauses div length childClauses < length clauses
        then ([], skipped1 @ [(path, ''too_many_logical_combinations'')])
        else
          let combined = combinations none clauses childClauses in
          if combined = [] then ([], skipped1)
          else and_clauses none path (Suc index) fs combined skipped1)"

fun exportRuleSetClauses :: "libraries \<Rightarrow> ((addr \<Rightarrow> bool) \<Rightarrow> bool) \<Rightarrow> headless_rule \<Rightarrow> string \<Rightarrow> clause list \<times> skipped list" where
  "exportRuleSetClauses l none (HDefault o') = exportDefaultRuleSetClause l none o'"
| "exportRuleSetClauses l none (HLogical mode rules invert) =
     (\<lambda>path.
        if invert then ([], [(path, ''inverted_rule'')])
        else if mode = ''or'' then or_clauses path 0 (map (exportRuleSetClauses l none) rules)
        else if mode = ''and'' then and_clauses none path 0 (map (exportRuleSetClauses l none) rules) [no_clause] []
        else ([], [(path, ''unsupported_logical_mode'')]))"
| "exportRuleSetClauses l none (HUnknown type) = (\<lambda>path. ([], [(path, ''unsupported_rule_type'')]))"

section \<open>Collecting\<close>

definition ruleSetScopeKey :: "string list \<Rightarrow> port_range list \<Rightarrow> string" where
  "ruleSetScopeKey networks ranges =
     concat (map (\<lambda>n. n @ '','') networks) @ ''/'' @
     concat (map (\<lambda>(s, e). dec (unat s) @ '':'' @ dec (unat e) @ '','') ranges)"

record scoped =
  sc_networks :: "string list"
  sc_ports :: "port_range list"
  sc_set :: "addr \<Rightarrow> bool"

record collector =
  co_unscoped :: "addr \<Rightarrow> bool"
  co_scoped :: "(string \<times> scoped) list"
  co_skipped :: "skipped list"

definition from_nil :: "'a list option \<Rightarrow> 'a list" where
  "from_nil x = (case x of None \<Rightarrow> [] | Some xs \<Rightarrow> xs)"

text \<open>One clause of the inner loop of \<open>buildRuleSetIPCIDRExport\<close>.\<close>

definition collect_clause :: "clause \<Rightarrow> collector \<Rightarrow> collector" where
  "collect_clause c co =
     (case cl_ipSet c of
        None \<Rightarrow> co
      | Some s \<Rightarrow>
          if cl_nonIPPath c \<noteq> []
          then co\<lparr>co_skipped := co_skipped co @ [(cl_nonIPPath c, ''non_ip_destination_constraint'')]\<rparr>
          else if Option.is_none (cl_ports c) \<and> Option.is_none (cl_networks c)
          then co\<lparr>co_unscoped := (\<lambda>a. co_unscoped co a \<or> s a)\<rparr>
          else
            let networks = from_nil (cl_networks c); ports = from_nil (cl_ports c);
                key = ruleSetScopeKey networks ports;
                accumulator = (case map_of (co_scoped co) key of
                   None \<Rightarrow> \<lparr>sc_networks = networks, sc_ports = ports, sc_set = (\<lambda>_. False)\<rparr> | Some x \<Rightarrow> x) in
            co\<lparr>co_scoped := AList.update key (accumulator\<lparr>sc_set := (\<lambda>a. sc_set accumulator a \<or> s a)\<rparr>) (co_scoped co)\<rparr>)"

fun collect_rules :: "libraries \<Rightarrow> ((addr \<Rightarrow> bool) \<Rightarrow> bool) \<Rightarrow> nat \<Rightarrow> headless_rule list \<Rightarrow> collector \<Rightarrow> collector" where
  "collect_rules l none index [] co = co"
| "collect_rules l none index (h # hs) co =
     (if \<not> HasHeadlessRule_in isIPCIDRHeadlessRule h then collect_rules l none (Suc index) hs co
      else case exportRuleSetClauses l none h (''rules['' @ dec index @ '']'') of (clauses, skipped) \<Rightarrow>
        collect_rules l none (Suc index) hs
          (fold collect_clause clauses (co\<lparr>co_skipped := co_skipped co @ skipped\<rparr>)))"

fun first_skipped :: "string list \<Rightarrow> skipped list \<Rightarrow> skipped list" where
  "first_skipped seen [] = []"
| "first_skipped seen ((path, reason) # ss) =
     (let key = path @ [CHR 0x00] @ reason in
      if key \<in> set seen then first_skipped seen ss else (path, reason) # first_skipped (key # seen) ss)"

definition normalizeRuleSetSkipped :: "skipped list \<Rightarrow> skipped list" where
  "normalizeRuleSetSkipped skipped = sort (first_skipped [] skipped)"

record export =
  ex_IPv4 :: "addr \<Rightarrow> bool"
  ex_IPv6 :: "addr \<Rightarrow> bool"
  ex_ScopedIPv4 :: "scoped list"
  ex_ScopedIPv6 :: "scoped list"
  ex_Skipped :: "skipped list"

definition no_collector :: collector where
  "no_collector = \<lparr>co_unscoped = (\<lambda>_. False), co_scoped = [], co_skipped = []\<rparr>"

definition scoped_part :: "((addr \<Rightarrow> bool) \<Rightarrow> bool) \<Rightarrow> (addr \<Rightarrow> bool) \<Rightarrow> scoped list \<Rightarrow> scoped list" where
  "scoped_part none part ss =
     filter (\<lambda>s. \<not> none (sc_set s)) (map (\<lambda>s. s\<lparr>sc_set := (\<lambda>a. sc_set s a \<and> part a)\<rparr>) ss)"

definition buildRuleSetIPCIDRExport :: "libraries \<Rightarrow> ((addr \<Rightarrow> bool) \<Rightarrow> bool) \<Rightarrow> headless_rule list \<Rightarrow> export" where
  "buildRuleSetIPCIDRExport l none rules =
     (let co = collect_rules l none 0 rules no_collector;
          unscoped = co_unscoped co;
          ordered = map snd (sort_key fst (co_scoped co));
          scoped = map (\<lambda>s. s\<lparr>sc_set := (\<lambda>a. sc_set s a \<and> \<not> unscoped a)\<rparr>) ordered in
      \<lparr>ex_IPv4 = (\<lambda>a. unscoped a \<and> is4 a), ex_IPv6 = (\<lambda>a. unscoped a \<and> \<not> is4 a),
       ex_ScopedIPv4 = scoped_part none is4 scoped, ex_ScopedIPv6 = scoped_part none (\<lambda>a. \<not> is4 a) scoped,
       ex_Skipped = normalizeRuleSetSkipped (co_skipped co)\<rparr>)"

end
