(* ===== verification/Rule_Text.thy ===== *)
theory Rule_Text
  imports Rule_Items
begin

text \<open>
  Texts that are written and read back: decimal numbers, port ranges, lists with a separator, and the
  normal form of hardware addresses (\<open>adapter.NormalizeWIFIBSSID\<close>).
\<close>

section \<open>Decimal numbers\<close>

lemma digit_char: "(n :: nat) < 10 \<Longrightarrow> is_digit (char_of (48 + n)) \<and> of_char (char_of (48 + n) :: char) - 48 = n"
  by (simp add: is_digit_def)

lemma dec_digits: "list_all is_digit (dec n)"
proof (induction n rule: dec.induct)
  case (1 n)
  then show ?case
    using digit_char [of n] digit_char [of "n mod 10"] by (subst dec.simps) simp
qed

lemma dec_not_empty: "dec n \<noteq> []"
  by (subst dec.simps) simp

lemma digits_value_append: "digits_value v (xs @ [c]) = 10 * digits_value v xs + (of_char c - 48)"
  by (induction v xs rule: digits_value.induct) simp_all

lemma digits_value_dec: "digits_value 0 (dec n) = n"
proof (induction n rule: dec.induct)
  case (1 n)
  show ?case
  proof (cases "n < 10")
    case True
    then show ?thesis using digit_char [of n] by (subst dec.simps) simp
  next
    case False
    then show ?thesis
      using 1 digit_char [of "n mod 10"] by (subst dec.simps) (simp add: digits_value_append)
  qed
qed

lemma dec_inj: "dec m = dec n \<Longrightarrow> m = n"
  by (metis digits_value_dec)

lemma parse_uint16_dec: "parse_uint16 (dec (unat p)) = Some p"
proof -
  have "unat p < 65536" using unsigned_less [of p, where 'a = nat] by simp
  then show ?thesis by (simp add: parse_uint16_def dec_digits digits_value_dec dec_not_empty)
qed

lemma digit_not: "list_all is_digit s \<Longrightarrow> c \<in> set s \<Longrightarrow> is_digit c"
  by (simp add: list_all_iff)

lemma dec_no_separator: "CHR '':'' \<notin> set (dec n)" "CHR '','' \<notin> set (dec n)" "CHR ''/'' \<notin> set (dec n)"
  using digit_not [OF dec_digits, of "CHR '':''" n] digit_not [OF dec_digits, of "CHR '',''" n]
    digit_not [OF dec_digits, of "CHR ''/''" n] by (auto simp: is_digit_def)

section \<open>Port ranges\<close>

lemma split_first:
  assumes "c \<notin> set xs"
  shows "takeWhile (\<lambda>x. x \<noteq> c) (xs @ c # ys) = xs" "dropWhile (\<lambda>x. x \<noteq> c) (xs @ c # ys) = c # ys"
proof -
  have "\<And>x. x \<in> set xs \<Longrightarrow> x \<noteq> c" using assms by blast
  then show "takeWhile (\<lambda>x. x \<noteq> c) (xs @ c # ys) = xs" "dropWhile (\<lambda>x. x \<noteq> c) (xs @ c # ys) = c # ys"
    by (simp_all add: takeWhile_append2 dropWhile_append2)
qed

definition range_text :: "u16 \<times> u16 \<Rightarrow> string" where
  "range_text r = dec (unat (fst r)) @ '':'' @ dec (unat (snd r))"

lemma parse_range_text: "parse_port_range (range_text r) = Inr r"
proof -
  have "takeWhile (\<lambda>c. c \<noteq> CHR '':'') (range_text r) = dec (unat (fst r))"
    "dropWhile (\<lambda>c. c \<noteq> CHR '':'') (range_text r) = CHR '':'' # dec (unat (snd r))"
    using split_first [OF dec_no_separator(1)] by (simp_all add: range_text_def)
  then show ?thesis
    by (simp add: parse_port_range_def dec_not_empty parse_uint16_dec range_text_def)
qed

lemma parse_range_texts: "parse_port_ranges (map range_text rs) = Inr rs"
  by (induction rs) (simp_all add: parse_range_text)

section \<open>Lists with an end mark\<close>

lemma first_part_unique:
  assumes "c \<notin> set x" "c \<notin> set y" "x @ c # r = y @ c # s"
  shows "x = y \<and> r = s"
proof -
  have part: "takeWhile ((\<noteq>) c) (xs @ c # ys) = xs" if "c \<notin> set xs" for xs ys
    using that by (induction xs) auto
  have "x = y" using part [OF assms(1), of r] part [OF assms(2), of s] unfolding assms(3) by (rule trans [OF sym])
  with assms(3) show ?thesis by simp
qed

lemma marked_inj:
  assumes "\<forall>x\<in>set xs \<union> set ys. c \<notin> set x" "concat (map (\<lambda>x. x @ [c]) xs) = concat (map (\<lambda>x. x @ [c]) ys)"
  shows "xs = ys"
  using assms
proof (induction xs arbitrary: ys)
  case Nil
  then show ?case by (cases ys) auto
next
  case (Cons x xs)
  then obtain y ys' where ys: "ys = y # ys'" by (cases ys) auto
  have "x @ c # concat (map (\<lambda>x. x @ [c]) xs) = y @ c # concat (map (\<lambda>x. x @ [c]) ys')"
    using Cons.prems(2) ys by simp
  then have "x = y" "concat (map (\<lambda>x. x @ [c]) xs) = concat (map (\<lambda>x. x @ [c]) ys')"
    using first_part_unique [of c x y] Cons.prems(1) unfolding ys by (metis UnI1 UnI2 list.set_intros(1))+
  moreover have "xs = ys'" using Cons.IH [of ys'] Cons.prems(1) ys calculation(2) by auto
  ultimately show ?case by (simp add: ys)
qed

section \<open>Hardware addresses\<close>

lemma hex_digit_facts:
  assumes "n < 16"
  shows "hex_value (hex_digit n) = Some n" "\<not> is_space (hex_digit n)"
proof -
  consider "n < 10" | "10 \<le> n" by linarith
  then show "hex_value (hex_digit n) = Some n" "\<not> is_space (hex_digit n)"
    using assms by (cases; auto simp: hex_digit_def hex_value_def is_space_def Let_def)+
qed

lemma hex_digit_facts_u8:
  "hex_byte (hex_digit (unat b div 16)) (hex_digit (unat b mod 16)) = Some (b :: u8)"
  "\<not> is_space (hex_digit (unat b div 16))" "\<not> is_space (hex_digit (unat b mod 16))"
proof -
  have "unat b < 256" using unsigned_less [of b, where 'a = nat] by simp
  then have d: "unat b div 16 < 16" "unat b mod 16 < 16" by auto
  show "hex_byte (hex_digit (unat b div 16)) (hex_digit (unat b mod 16)) = Some b"
    by (simp add: hex_byte_def hex_digit_facts d)
  show "\<not> is_space (hex_digit (unat b div 16))" "\<not> is_space (hex_digit (unat b mod 16))"
    by (simp_all add: hex_digit_facts d)
qed

lemma trim_again: "TrimSpace (TrimSpace s) = TrimSpace s"
proof -
  have front: "dropWhile is_space (rev (dropWhile is_space (rev xs))) = rev (dropWhile is_space (rev xs))"
    if "xs = [] \<or> \<not> is_space (hd xs)" for xs
  proof (cases xs)
    case (Cons x ys)
    then have "\<not> is_space x" using that by simp
    then have "dropWhile is_space (rev ys @ [x]) = dropWhile is_space (rev ys) @ [x]"
      by (induction "rev ys") (auto simp: dropWhile_append3 dropWhile_append)
    then show ?thesis using Cons \<open>\<not> is_space x\<close> by simp
  qed simp
  have hd: "dropWhile is_space s = [] \<or> \<not> is_space (hd (dropWhile is_space s))"
    using hd_dropWhile [of is_space s] by auto
  show ?thesis using front [OF hd] by (simp add: TrimSpace_def)
qed

lemma six_bytes:
  assumes "length bs = 6"
  shows "parse_mac (mac_string bs) = Some bs" "TrimSpace (mac_string bs) = mac_string bs" "mac_string bs \<noteq> []"
proof -
  obtain a b c d e f where bs: "bs = [a, b, c, d, e, f]"
    using assms by (auto simp: length_Suc_conv numeral_eq_Suc)
  have m: "mac_string bs =
     [hex_digit (unat a div 16), hex_digit (unat a mod 16), CHR '':'', hex_digit (unat b div 16), hex_digit (unat b mod 16), CHR '':'',
      hex_digit (unat c div 16), hex_digit (unat c mod 16), CHR '':'', hex_digit (unat d div 16), hex_digit (unat d mod 16), CHR '':'',
      hex_digit (unat e div 16), hex_digit (unat e mod 16), CHR '':'', hex_digit (unat f div 16), hex_digit (unat f mod 16)]"
    by (simp add: bs mac_string_def)
  show "mac_string bs \<noteq> []" by (simp add: m)
  show "TrimSpace (mac_string bs) = mac_string bs" by (simp add: m TrimSpace_def hex_digit_facts_u8)
  show "parse_mac (mac_string bs) = Some bs"
    unfolding m by (simp add: parse_mac_def hex_digit_facts_u8 bs)
qed

lemma hex_bytes_length: "hex_bytes s = Some bs \<Longrightarrow> length s = 2 * length bs"
  by (induction s arbitrary: bs rule: hex_bytes.induct) (auto split: option.splits)

lemma sep_bytes_length: "sep_bytes c s = Some bs \<Longrightarrow> length s + 1 = 3 * length bs"
  by (induction c s arbitrary: bs rule: sep_bytes.induct) (auto split: option.splits list.splits if_splits)

lemma parse_mac_length: "parse_mac s = Some bs \<Longrightarrow> length bs = 6"
  by (auto simp: parse_mac_def dest!: sep_bytes_length hex_bytes_length split: if_splits)

lemma normalize_again: "NormalizeWIFIBSSID (NormalizeWIFIBSSID s) = NormalizeWIFIBSSID s"
proof -
  have again: "NormalizeWIFIBSSID (mac_string bs) = mac_string bs" if "length bs = 6" for bs
    using six_bytes [OF that] by (simp add: NormalizeWIFIBSSID_def)
  let ?b = "TrimSpace s"
  consider (empty) "?b = []" | (mac) bs where "?b \<noteq> []" "parse_mac ?b = Some bs"
    | (hex) bs where "?b \<noteq> []" "parse_mac ?b = None" "length ?b = 12" "hex_bytes ?b = Some bs"
    | (other) "?b \<noteq> []" "parse_mac ?b = None" "length ?b = 12 \<longrightarrow> hex_bytes ?b = None"
    by fastforce
  then show ?thesis
  proof cases
    case empty
    then show ?thesis by (simp add: NormalizeWIFIBSSID_def TrimSpace_def)
  next
    case mac
    then show ?thesis using again parse_mac_length by (simp add: NormalizeWIFIBSSID_def)
  next
    case hex
    then have "length bs = 6" using hex_bytes_length by fastforce
    with hex again show ?thesis by (simp add: NormalizeWIFIBSSID_def)
  next
    case other
    then have "NormalizeWIFIBSSID s = ?b" by (auto simp: NormalizeWIFIBSSID_def Let_def)
    moreover have "NormalizeWIFIBSSID ?b = ?b" using other by (auto simp: NormalizeWIFIBSSID_def trim_again Let_def)
    ultimately show ?thesis by simp
  qed
qed

end
