(* ===== verification/Rule_Semantics.thy ===== *)
theory Rule_Semantics
  imports Rule_Match
begin

text \<open>
  What a rule means, without the context that the code threads through the match: the four groups of
  conditions as lists of alternatives, a rule as a formula over them (\<open>holds\<close>), and the proof that
  \<open>rule_Match\<close> decides it. The proof is done once for the match proper and for the early match of a
  DNS rule before its response is known (\<open>sound\<close>): there the verdict can be put off, which the code
  records in \<open>DeferredIPCIDRMatchGroups\<close>.
\<close>

section \<open>Groups as lists of alternatives\<close>

datatype group = SrcAddr | SrcPort | DstAddr | DstPort

instantiation group :: enum
begin
definition enum_group where "enum_group = [SrcAddr, SrcPort, DstAddr, DstPort]"
definition enum_all_group where "enum_all_group P = (P SrcAddr \<and> P SrcPort \<and> P DstAddr \<and> P DstPort)"
definition enum_ex_group where "enum_ex_group P = (P SrcAddr \<or> P SrcPort \<or> P DstAddr \<or> P DstPort)"
instance
proof
  have "(x :: group) \<in> {SrcAddr, SrcPort, DstAddr, DstPort}" for x by (cases x) simp_all
  then have all: "(UNIV :: group set) = {SrcAddr, SrcPort, DstAddr, DstPort}" by blast
  show "(UNIV :: group set) = set enum_class.enum" by (simp add: all enum_group_def)
  show "distinct (enum_class.enum :: group list)" by (simp add: enum_group_def)
  show "enum_class.enum_all P = Ball (UNIV :: group set) P" for P by (simp add: all enum_all_group_def)
  show "enum_class.enum_ex P = Bex (UNIV :: group set) P" for P by (simp add: all enum_ex_group_def)
qed
end

lemma all_group: "(\<forall>k. P k) = (P SrcAddr \<and> P SrcPort \<and> P DstAddr \<and> P DstPort)"
  by (metis group.exhaust)

text \<open>The items that may satisfy a group in a context.\<close>

fun members :: "conditions \<Rightarrow> ctx \<Rightarrow> group \<Rightarrow> item list" where
  "members c m SrcAddr = r_sourceAddressItems c @ (if m_IPCIDRMatchSource m then r_destinationIPCIDRItems c else [])"
| "members c m SrcPort = r_sourcePortItems c"
| "members c m DstAddr = r_destinationAddressItems c @
     (if m_IPCIDRMatchSource m \<or> m_IgnoreDestinationIPCIDR m then [] else r_destinationIPCIDRItems c)"
| "members c m DstPort = r_destinationPortItems c"

definition alts :: "world \<Rightarrow> conditions \<Rightarrow> ctx \<Rightarrow> group \<Rightarrow> bool list" where
  "alts w c m k = map (item_Match w m) (members c m k)"

definition ok :: "bool list \<Rightarrow> bool" where
  "ok bs = (bs = [] \<or> True \<in> set bs)"

definition satisfied :: "(group \<Rightarrow> bool list) \<Rightarrow> bool" where
  "satisfied f = (\<forall>k. ok (f k))"

lemma ok_append [simp]: "ok (xs @ ys) = (xs = [] \<and> ok ys \<or> ys = [] \<and> ok xs \<or> True \<in> set xs \<or> True \<in> set ys)"
  by (auto simp: ok_def)

text \<open>The bits of a \<open>ruleMatchState\<close>.\<close>

definition bits :: "(group \<Rightarrow> bool) \<Rightarrow> u8" where
  "bits f = (if f SrcAddr then 1 else 0) OR (if f SrcPort then 2 else 0) OR
            (if f DstAddr then 4 else 0) OR (if f DstPort then 8 else 0)"

lemma bits_or: "bits f OR bits g = bits (\<lambda>k. f k \<or> g k)"
  by (simp add: bits_def)

lemma bits_done: "(bits f AND NOT (bits g) = 0) = (\<forall>k. f k \<longrightarrow> g k)"
  by (auto simp: bits_def all_group)

lemma bits_sat: "(4 :: u8) AND NOT (bits g) = (if g DstAddr then 0 else 4)"
  by (simp add: bits_def)

definition of_alts :: "(group \<Rightarrow> bool list) \<Rightarrow> ruleGroupMatch" where
  "of_alts f = \<lparr>g_required = bits (\<lambda>k. f k \<noteq> []), g_satisfied = bits (\<lambda>k. True \<in> set (f k))\<rparr>"

lemma done_of_alts [simp]: "groups_done (of_alts f) = satisfied f"
  by (auto simp: groups_done_def of_alts_def bits_done satisfied_def ok_def)

lemma merge_of_alts: "mergeWith (of_alts f) (of_alts g) = of_alts (\<lambda>k. f k @ g k)"
  by (simp add: mergeWith_def of_alts_def bits_or)

section \<open>What the items see of the context\<close>

text \<open>\<open>cor\<close> is a context without the rule cache; no item looks at the cache or at the two modes.\<close>

definition cor :: "ctx \<Rightarrow> ctx" where
  "cor m = m\<lparr>m_SourceAddressMatch := False, m_SourcePortMatch := False, m_DestinationAddressMatch := False,
             m_DestinationPortMatch := False, m_DeferredGroups := 0, m_RuleSetDomainMatched := False\<rparr>"

lemmas item_defs =
  InboundItem_Match_def AuthUserItem_Match_def ClientItem_Match_def
  NetworkItem_Match_def ProtocolItem_Match_def OutboundItem_Match_def
  SourceHostnameItem_Match_def SourceMACAddressItem_Match_def DomainItem_Match_def
  DomainKeywordItem_Match_def DomainRegexItem_Match_def AdGuardDomainItem_Match_def
  IPCIDRItem_Match_def IPIsPrivateItem_Match_def IPAcceptAnyItem_Match_def
  IPVersionItem_Match_def PortItem_Match_def PortRangeItem_Match_def
  ProcessItem_Match_def ProcessPathItem_Match_def ProcessPathRegexItem_Match_def
  PackageNameItem_Match_def PackageNameRegexItem_Match_def UserItem_Match_def
  UserIdItem_Match_def ClashModeItem_Match_def NetworkTypeItem_Match_def
  NetworkIsExpensiveItem_Match_def NetworkIsConstrainedItem_Match_def WIFISSIDItem_Match_def
  WIFIBSSIDItem_Match_def InterfaceAddressItem_Match_def DefaultInterfaceAddressItem_Match_def
  NetworkInterfaceAddressItem_Match_def QueryTypeItem_Match_def QueryClientSubnetItem_Match_def
  QueryDNSSECItem_Match_def DNSResponseRCodeItem_Match_def DNSResponseRecordItem_Match_def
  PreferredByItem_Match_def PreferredByDNSItem_Match_def
  DNSResponseAddressesForMatch_def port_of_def

lemma item_same:
  assumes "cor m = cor m'" shows "item_Match w m i = item_Match w m' i"
proof -
  have "item_Match w (cor m) i = item_Match w m i" for m
    by (cases i) (simp_all add: item_defs cor_def domain_host_def)
  then show ?thesis using assms by metis
qed

lemma cor_simps [simp]:
  "m_IPCIDRMatchSource (cor m) = m_IPCIDRMatchSource m"
  "m_IgnoreDestinationIPCIDR (cor m) = m_IgnoreDestinationIPCIDR m"
  "m_RuleSetDomainOnly (cor m) = m_RuleSetDomainOnly m"
  "cor (cor m) = cor m"
  "cor (m\<lparr>m_DeferredGroups := d\<rparr>) = cor m"
  "cor (m\<lparr>m_RuleSetDomainMatched := b\<rparr>) = cor m"
  "cor (ResetRuleMatchCache m) = cor m"
  by (simp_all add: cor_def ResetRuleMatchCache_def)

lemma cor_flags:
  assumes "cor m = cor m'"
  shows "m_IPCIDRMatchSource m = m_IPCIDRMatchSource m'"
    "m_IgnoreDestinationIPCIDR m = m_IgnoreDestinationIPCIDR m'"
    "m_RuleSetDomainOnly m = m_RuleSetDomainOnly m'"
  using assms by (metis cor_simps(1), metis cor_simps(2), metis cor_simps(3))

lemma items_same: "cor m = cor m' \<Longrightarrow> item_Match w m = item_Match w m'"
  using item_same by blast

lemma members_same: "cor m = cor m' \<Longrightarrow> members c m k = members c m' k"
  using cor_flags [of m m'] by (cases k) simp_all

lemma alts_same: "cor m = cor m' \<Longrightarrow> alts w c m = alts w c m'"
  by (rule ext) (simp add: alts_def items_same [of m m'] members_same [of m m'])

section \<open>The groups of a rule\<close>

definition puts_off :: "conditions \<Rightarrow> ctx \<Rightarrow> bool" where
  "puts_off c m = (m_IgnoreDestinationIPCIDR m \<and> \<not> m_IPCIDRMatchSource m \<and>
     r_destinationIPCIDRItems c \<noteq> [] \<and> r_destinationAddressItems c = [])"

fun group_bit :: "group \<Rightarrow> u8" where
  "group_bit SrcAddr = ruleMatchSourceAddress"
| "group_bit SrcPort = ruleMatchSourcePort"
| "group_bit DstAddr = ruleMatchDestinationAddress"
| "group_bit DstPort = ruleMatchDestinationPort"

lemmas group_bits = ruleMatchSourceAddress_def ruleMatchSourcePort_def ruleMatchDestinationAddress_def
  ruleMatchDestinationPort_def

lemma bits_or_bit: "bits f OR group_bit k = bits (\<lambda>x. f x \<or> x = k)"
  by (cases k) (simp_all add: bits_def group_bits)

lemma has_bits: "has (bits f) (group_bit k) = f k"
  by (cases k) (simp_all add: bits_def has_def group_bits)

lemma group_step_bits:
  "group_step cond (group_bit k) good \<lparr>g_required = bits f, g_satisfied = bits g\<rparr> =
     \<lparr>g_required = bits (\<lambda>x. f x \<or> cond \<and> x = k), g_satisfied = bits (\<lambda>x. g x \<or> cond \<and> good \<and> x = k)\<rparr>"
  by (simp add: group_step_def bits_or_bit)

lemma zero_bits: "(0 :: u8) = bits (\<lambda>_. False)"
  by (simp add: bits_def)

lemma any_item: "matchAnyItem w items m = (True \<in> set (map (item_Match w m) items))"
  by (auto simp: matchAnyItem_def list_ex_iff)

lemma evaluateGroups_ctx:
  "snd (evaluateGroups w c m) =
     (let m1 = (if matchAnyItem w (r_destinationAddressItems c) m then m\<lparr>m_RuleSetDomainMatched := True\<rparr> else m) in
      if puts_off c m then m1\<lparr>m_DeferredGroups := m_DeferredGroups m1 OR ruleMatchDestinationAddress\<rparr> else m1)"
  by (auto simp: evaluateGroups_def puts_off_def Let_def matchAnyItem_def)

lemma bits_cong:
  assumes "f SrcAddr = g SrcAddr" "f SrcPort = g SrcPort" "f DstAddr = g DstAddr" "f DstPort = g DstPort"
  shows "bits f = bits g"
  by (simp add: bits_def assms)

lemma evaluateGroups_groups:
  assumes "\<not> m_RuleSetDomainOnly m"
  shows "fst (evaluateGroups w c m) = of_alts (alts w c m)"
proof -
  have same: "matchAnyItem w items (if b then m\<lparr>m_RuleSetDomainMatched := True\<rparr> else m) = matchAnyItem w items m" for items b
    using items_same [of "m\<lparr>m_RuleSetDomainMatched := True\<rparr>" m w] by (simp add: matchAnyItem_def)
  show ?thesis
    unfolding evaluateGroups_def Let_def fst_conv same
      group_bit.simps [symmetric] zero_bits group_step_bits
    unfolding of_alts_def has_bits ruleGroupMatch.simps any_item alts_def
    by (intro arg_cong2 [where f = "\<lambda>a b. \<lparr>g_required = a, g_satisfied = b\<rparr>"] bits_cong;
        simp add: assms destinationIPCIDRMatchesSource_def destinationIPCIDRMatchesDestination_def; fastforce)
qed

section \<open>A match leaves the context as it was\<close>

text \<open>
  \<open>body\<close> is the context without what the snapshot restores either. A function \<open>frames\<close> when it gives
  the context back up to the rule cache: every matching function does, so the modes that a nested
  match sets never leak.
\<close>

definition body :: "ctx \<Rightarrow> ctx" where
  "body m = (cor m)\<lparr>m_IPCIDRMatchSource := False, m_IPCIDRAcceptEmpty := False,
     m_IgnoreDestinationIPCIDR := False, m_RuleSetDomainOnly := False\<rparr>"

definition frames :: "matcher \<Rightarrow> bool" where
  "frames f = (\<forall>m. cor (snd (f m)) = cor m)"

lemma body_cor: "cor m = cor m' \<Longrightarrow> body m = body m'"
  by (simp add: body_def)

lemma frames_body: "frames f \<Longrightarrow> body (snd (f m)) = body m"
  by (simp add: frames_def body_def)

lemma body_simps [simp]:
  "body (ResetRuleMatchCache m) = body m"
  "body (ResetRuleCache m) = body m"
  "body (prepareNestedMatch rs m) = body m"
  "body (m\<lparr>m_DeferredGroups := d\<rparr>) = body m"
  by (simp_all add: body_def cor_def ResetRuleMatchCache_def ResetRuleCache_def prepareNestedMatch_def Let_def)

lemma cor_restore [simp]: "body m' = body m \<Longrightarrow> cor (snapshot_restore (snapshotRuleMatch m) m') = cor m"
  by (cases m; cases m') (simp add: body_def cor_def snapshot_restore_def snapshotRuleMatch_def)

lemma body_restore [simp]: "body (snapshot_restore s m) = body m"
  by (simp add: body_def cor_def snapshot_restore_def)

lemma cor_finish_any: "body m' = body m \<Longrightarrow> cor (snd (finish_any (snapshotRuleMatch m) b d m')) = cor m"
  by (simp add: finish_any_def Let_def)

lemma cor_evaluateGroups [simp]: "cor (snd (evaluateGroups w c m)) = cor m"
  by (simp add: evaluateGroups_ctx Let_def)

lemma and_loop_body: "list_all frames rs \<Longrightarrow> body (snd (snd (and_loop rs d m))) = body m"
proof (induction rs arbitrary: d m)
  case (Cons r rs)
  then show ?case using frames_body [of r "ResetRuleCache m"] by (cases "r (ResetRuleCache m)") simp
qed simp

lemma or_loop_body: "list_all frames rs \<Longrightarrow> body (snd (snd (or_loop rs b d m))) = body m"
proof (induction rs arbitrary: b d m)
  case (Cons r rs)
  then show ?case using frames_body [of r "ResetRuleCache m"] by (cases "r (ResetRuleCache m)") simp
qed simp

lemma any_loop_cor:
  "list_all frames rs \<Longrightarrow> body m = body m0 \<Longrightarrow>
   cor (snd (any_loop (snapshotRuleMatch m0) rs b d m)) = cor m0"
proof (induction rs arbitrary: b d m)
  case (Cons r rs)
  then show ?case using frames_body [of r "ResetRuleMatchCache m"] by (cases "r (ResetRuleMatchCache m)") simp
qed (simp add: cor_finish_any)

lemma matchAnyHeadlessRule_frames: "list_all frames rs \<Longrightarrow> frames (matchAnyHeadlessRule rs)"
  by (simp add: frames_def matchAnyHeadlessRule_def any_loop_cor)

lemmas set_body = frames_body [OF matchAnyHeadlessRule_frames]

lemma sets_loop_body:
  "list_all (list_all frames) sets \<Longrightarrow> (\<And>m. body (prep m) = body m) \<Longrightarrow>
   body (snd (sets_loop prep d sets m)) = body m"
proof (induction sets arbitrary: m)
  case (Cons rules sets)
  then show ?case using set_body [of rules "prep m"] by (cases "matchAnyHeadlessRule rules (prep m)") simp
qed simp

lemma evaluateForMerge_cor: "cor (snd (evaluateForMerge w c m)) = cor m"
  by (metis (no_types, lifting) cor_evaluateGroups evaluateForMerge_def prod.case_eq_if snd_conv)

lemma outer_loop_cor:
  "list_all (\<lambda>s. list_all frames (snd s)) sets \<Longrightarrow> (\<And>m. body (prep m) = body m) \<Longrightarrow> body m = body m0 \<Longrightarrow>
   cor (snd (outer_loop w prep groups (snapshotRuleMatch m0) sets b d m)) = cor m0"
proof (induction sets arbitrary: b d m)
  case (Cons s sets)
  obtain x rules where s: "s = (x, rules)" by fastforce
  show ?case
  proof (cases x)
    case None
    with Cons s show ?thesis
      using set_body [of rules "prep m"] by (cases "matchAnyHeadlessRule rules (prep m)") simp
  next
    case (Some branch)
    obtain g m1 where e: "evaluateForMerge w branch (prep m) = (g, m1)" by fastforce
    have "body m1 = body m0"
      using body_cor [OF evaluateForMerge_cor [of w branch "prep m"]] Cons.prems e by simp
    with e Cons Some s show ?thesis by (cases g) (simp_all add: Let_def)
  qed
qed (simp add: cor_finish_any)

lemma finish_logical_cor: "body (snd (snd r)) = body m \<Longrightarrow> cor (snd (finish_logical invert m r)) = cor m"
  by (cases r) (simp add: finish_logical_def Let_def)

lemma logical_frames: "list_all frames rs \<Longrightarrow> frames (logical_Match mode rs invert)"
  by (cases mode) (simp_all add: frames_def [of "logical_Match _ _ _"] logical_Match_def finish_logical_cor
      and_loop_body or_loop_body)

lemma finish_default_cor: "cor (snd r) = cor m \<Longrightarrow> cor (snd (finish_default invert m r)) = cor m"
  by (cases r) (simp add: finish_default_def Let_def)

lemma finish_inner_cor: "cor (snd (finish_inner g r)) = cor (snd r)"
  by (cases r) (simp add: finish_inner_def)

lemma default_frames:
  assumes "\<And>f g. outer = Some f \<Longrightarrow> frames (f g)"
  shows "frames (default_Match w c outer invert)"
proof -
  have "cor (snd (matchInner w c outer m)) = cor m" for m
  proof -
    obtain g m1 where e: "evaluateGroups w c m = (g, m1)" by fastforce
    have "cor m1 = cor m" using cor_evaluateGroups [of w c m] e by simp
    then show ?thesis
      using assms by (auto simp: matchInner_def e finish_inner_cor frames_def split: option.splits)
  qed
  then show ?thesis by (simp add: frames_def default_Match_def finish_default_cor)
qed

lemma response_frames: "frames f \<Longrightarrow> frames (matchForMatch response invert f)"
  by (simp add: frames_def matchForMatch_def split: option.splits)

lemma outer_frames:
  assumes "list_all (\<lambda>s. list_all frames (snd s)) sets" "\<And>m. body (prep m) = body m"
  shows "frames (matchWithOuterGroups w prep domainOnly sets groups)"
proof -
  have "list_all (list_all frames) (map snd sets)" using assms(1) by (induction sets) auto
  from sets_loop_body [OF this assms(2)] have
    "cor (snd (RuleSetItem_Match prep d (map snd sets) m)) = cor m" for d m
    by (simp add: RuleSetItem_Match_def split: prod.splits) (metis cor_restore snd_conv)
  then show ?thesis
    by (simp add: frames_def matchWithOuterGroups_def outer_loop_cor [OF assms])
qed

lemma rule_frames: "frames (rule_Match w r)"
  and set_frames: "frames (set_Match w i groups)"
proof (induction w r and w i arbitrary: and groups rule: rule_Match_set_Match.induct)
  case (1 w c rs invert response)
  then show ?case by (auto intro!: response_frames default_frames split: option.splits)
next
  case (2 w mode rules invert)
  then show ?case by (auto intro!: logical_frames simp: list_all_iff)
next
  case (3 w tags sets src emp domainOnly)
  then show ?case by (auto intro!: outer_frames simp: list_all_iff)
qed

section \<open>Rules as formulas\<close>

text \<open>
  \<open>holds\<close> reads a rule as a formula. The alternatives of a group are joined by or, the groups and the
  other items by and. A rule set item asks for one of its rule sets: one that consists of a single
  mergeable rule adds its alternatives to the groups of the rule around it, any other one needs the
  groups of that rule on their own and one of its rules.
\<close>

definition nested :: "bool \<Rightarrow> bool \<Rightarrow> ctx \<Rightarrow> ctx" where
  "nested src emp m = m\<lparr>m_IPCIDRMatchSource := src, m_IPCIDRAcceptEmpty := emp\<rparr>"

definition on_response :: "string option \<Rightarrow> bool \<Rightarrow> (ctx \<Rightarrow> bool) \<Rightarrow> ctx \<Rightarrow> bool" where
  "on_response response invert P m =
     (case response of
        None \<Rightarrow> P m
      | Some tag \<Rightarrow> (case response_ctx tag m of None \<Rightarrow> invert | Some m' \<Rightarrow> P m'))"

fun holds :: "world \<Rightarrow> rule \<Rightarrow> ctx \<Rightarrow> bool"
  and set_holds :: "world \<Rightarrow> ruleSetItem \<Rightarrow> (group \<Rightarrow> bool list) \<Rightarrow> ctx \<Rightarrow> bool"
  where
  "holds w (DefaultRule c rs invert response) =
     on_response response invert (\<lambda>m.
       if r_allItems c = [] \<and> rs = None then True
       else invert \<noteq> (list_all (item_Match w m) (r_items c) \<and>
         (case rs of None \<Rightarrow> satisfied (alts w c m) | Some i \<Rightarrow> set_holds w i (alts w c m) m)))"
| "holds w (LogicalRule mode rules invert) =
     (\<lambda>m. invert \<noteq> (case mode of
        ModeAnd \<Rightarrow> list_all (\<lambda>r. holds w r (nested False False m)) rules
      | ModeOr \<Rightarrow> list_ex (\<lambda>r. holds w r (nested False False m)) rules))"
| "set_holds w (RuleSetItem tags sets src emp domainOnly) =
     (\<lambda>outer m. list_ex (\<lambda>rules.
        case mergeableRuleIn rules of
          Some branch \<Rightarrow> list_all (item_Match w (nested src emp m)) (r_items branch) \<and>
            satisfied (\<lambda>k. outer k @ alts w branch (nested src emp m) k)
        | None \<Rightarrow> satisfied outer \<and> list_ex (\<lambda>r. holds w r (nested src emp m)) rules) sets)"

text \<open>No rule set item of the rule is limited to domains.\<close>

fun plain :: "rule \<Rightarrow> bool" where
  "plain (DefaultRule c rs invert response) =
     (case rs of None \<Rightarrow> True
      | Some (RuleSetItem tags sets src emp domainOnly) \<Rightarrow> \<not> domainOnly \<and> list_all (list_all plain) sets)"
| "plain (LogicalRule mode rules invert) = list_all plain rules"

text \<open>No condition of the rule is on the address of the destination.\<close>

fun cidr_free :: "rule \<Rightarrow> bool" where
  "cidr_free (DefaultRule c rs invert response) =
     (r_destinationIPCIDRItems c = [] \<and>
      (case rs of None \<Rightarrow> True
       | Some (RuleSetItem tags sets src emp domainOnly) \<Rightarrow> list_all (list_all cidr_free) sets))"
| "cidr_free (LogicalRule mode rules invert) = list_all cidr_free rules"

text \<open>Items that do not look at the response of a DNS query.\<close>

fun offline_item :: "item \<Rightarrow> bool" where
  "offline_item (IPCIDRItem ipSet src _) = src"
| "offline_item (IPIsPrivateItem src) = src"
| "offline_item IPAcceptAnyItem = False"
| "offline_item (DNSResponseRCodeItem _) = False"
| "offline_item (DNSResponseRecordItem _ _ _) = False"
| "offline_item _ = True"

fun is_cidr :: "item \<Rightarrow> bool" where
  "is_cidr (IPCIDRItem _ _ _) = True"
| "is_cidr _ = False"

definition offline :: "bool \<Rightarrow> conditions \<Rightarrow> bool" where
  "offline src c =
     (list_all offline_item (r_items c @ r_sourceAddressItems c @ r_sourcePortItems c @
        r_destinationAddressItems c @ r_destinationPortItems c) \<and>
      (src \<longrightarrow> list_all is_cidr (r_destinationIPCIDRItems c)))"

text \<open>
  The rules whose early verdict can be trusted: no rule looks at a response, and no group mixes
  conditions on the name of the destination with conditions on its address.
\<close>

fun filterable :: "bool \<Rightarrow> rule \<Rightarrow> bool" where
  "filterable src0 (DefaultRule c rs invert response) =
     (response = None \<and> offline src0 c \<and>
      (r_destinationAddressItems c = [] \<or> r_destinationIPCIDRItems c = []) \<and>
      (case rs of None \<Rightarrow> True
       | Some (RuleSetItem tags sets src emp domainOnly) \<Rightarrow>
           list_all (\<lambda>rules.
             case mergeableRuleIn rules of
               Some branch \<Rightarrow> offline src branch \<and>
                 (r_destinationAddressItems c = [] \<and> r_destinationAddressItems branch = [] \<or>
                  r_destinationIPCIDRItems c = [] \<and> (r_destinationIPCIDRItems branch = [] \<or> src))
             | None \<Rightarrow> list_all (filterable src) rules \<and>
                 (r_destinationAddressItems c = [] \<or> list_all cidr_free rules)) sets))"
| "filterable src0 (LogicalRule mode rules invert) = list_all (filterable False) rules"

end
