(* ===== verification/Rule_Sound.thy ===== *)
theory Rule_Sound
  imports Rule_Semantics
begin

text \<open>
  The match decides the formula. \<open>sound k z f H\<close> says of a matching function \<open>f\<close> in the contexts like
  \<open>k\<close> that a verdict which is not put off tells the truth of \<open>H\<close>, and that with \<open>z\<close> none is put off.
  The loops over rules and rule sets keep it; \<open>rule_sound\<close> puts them together by induction on the rule.
\<close>

section \<open>Before and after the response\<close>

text \<open>
  The context an early match stands for: the one in which the response is known. A context that does
  not ignore the conditions on addresses stands for itself.
\<close>

definition actual :: "msg option \<Rightarrow> ctx \<Rightarrow> ctx" where
  "actual response m =
     (if m_IgnoreDestinationIPCIDR m
      then m\<lparr>m_IgnoreDestinationIPCIDR := False, m_DNSResponse := response, m_MatchFromResponse := True\<rparr>
      else m)"

lemma nested_simps [simp]:
  "m_IPCIDRMatchSource (nested a b m) = a"
  "m_IgnoreDestinationIPCIDR (nested a b m) = m_IgnoreDestinationIPCIDR m"
  "m_RuleSetDomainOnly (nested a b m) = m_RuleSetDomainOnly m"
  "nested a b (nested c d m) = nested a b m"
  by (simp_all add: nested_def)

lemma actual_simps [simp]:
  "m_IPCIDRMatchSource (actual x m) = m_IPCIDRMatchSource m"
  "m_IgnoreDestinationIPCIDR (actual x m) = False"
  "actual x (nested a b m) = nested a b (actual x m)"
  by (simp_all add: actual_def nested_def)

lemma actual_same [simp]: "\<not> m_IgnoreDestinationIPCIDR m \<Longrightarrow> actual x m = m"
  by (simp add: actual_def)

lemma cor_nested: "cor (nested a b m) = nested a b (cor m)"
  by (simp add: cor_def nested_def)

lemma cor_nested_cong: "cor m = cor m' \<Longrightarrow> cor (nested a b m) = cor (nested a b m')"
  by (simp add: cor_nested)

lemma cor_ResetRuleCache: "cor (ResetRuleCache m) = cor (nested False False m)"
  by (simp add: ResetRuleCache_def nested_def)

lemma offline_same: "offline_item i \<Longrightarrow> item_Match w (actual x m) i = item_Match w m i"
  by (cases i) (simp_all add: item_defs actual_def domain_host_def)

lemma cidr_same: "is_cidr i \<Longrightarrow> m_IPCIDRMatchSource m \<Longrightarrow> item_Match w (actual x m) i = item_Match w m i"
  by (cases i) (simp_all add: item_defs actual_def)

lemma offline_map:
  "list_all offline_item is \<Longrightarrow> map (item_Match w (actual x m)) is = map (item_Match w m) is"
  by (simp add: list_all_iff offline_same)

lemma cidr_map:
  "list_all is_cidr is \<Longrightarrow> m_IPCIDRMatchSource m \<Longrightarrow> map (item_Match w (actual x m)) is = map (item_Match w m) is"
  by (simp add: list_all_iff cidr_same)

text \<open>\<open>A\<close> are the alternatives before, \<open>A'\<close> after; with \<open>put_off\<close> those of the destination are missing before.\<close>

definition approx :: "(group \<Rightarrow> bool list) \<Rightarrow> (group \<Rightarrow> bool list) \<Rightarrow> bool \<Rightarrow> bool" where
  "approx A A' put_off = ((\<forall>k. k \<noteq> DstAddr \<longrightarrow> A k = A' k) \<and>
     (if put_off then A DstAddr = [] else A DstAddr = A' DstAddr))"

lemma approx_no: "approx A A' p \<Longrightarrow> satisfied A' \<Longrightarrow> satisfied A"
  unfolding approx_def satisfied_def by (metis ok_def)

lemma approx_yes: "approx A A' False \<Longrightarrow> satisfied A \<Longrightarrow> satisfied A'"
  unfolding approx_def satisfied_def by metis

lemma approx_append:
  assumes "approx A A' p" "approx B B' q" "p \<or> q \<Longrightarrow> A DstAddr = [] \<and> B DstAddr = []"
  shows "approx (\<lambda>k. A k @ B k) (\<lambda>k. A' k @ B' k) (p \<or> q)"
  using assms by (auto simp: approx_def)

lemma alts_approx:
  assumes "m_IgnoreDestinationIPCIDR m \<Longrightarrow> offline (m_IPCIDRMatchSource m) c"
    and "m_IgnoreDestinationIPCIDR m \<Longrightarrow> \<not> m_IPCIDRMatchSource m \<Longrightarrow>
      r_destinationAddressItems c = [] \<or> r_destinationIPCIDRItems c = []"
  shows "approx (alts w c m) (alts w c (actual x m)) (puts_off c m)"
proof (cases "m_IgnoreDestinationIPCIDR m")
  case True
  then have off: "offline (m_IPCIDRMatchSource m) c" by (rule assms)
  have "alts w c (actual x m) k = alts w c m k" if "k \<noteq> DstAddr" for k
    using that off
    by (cases k; cases "m_IPCIDRMatchSource m") (simp_all add: alts_def offline_def offline_map cidr_map)
  moreover have "alts w c m DstAddr = []" if "puts_off c m"
    using that by (simp add: alts_def puts_off_def)
  moreover have "alts w c (actual x m) DstAddr = alts w c m DstAddr" if "\<not> puts_off c m"
    using that off True assms(2) by (auto simp: alts_def puts_off_def offline_def offline_map)
  ultimately show ?thesis by (simp add: approx_def)
qed (simp add: approx_def puts_off_def)

section \<open>Sound verdicts\<close>

definition sound :: "ctx \<Rightarrow> bool \<Rightarrow> matcher \<Rightarrow> bool \<Rightarrow> bool" where
  "sound k z f H = (\<forall>m. cor m = cor k \<and> m_DeferredGroups m = 0 \<longrightarrow>
     (H \<longrightarrow> fst (f m)) \<and>
     (fst (f m) \<and> m_DeferredGroups (snd (f m)) = 0 \<longrightarrow> H) \<and>
     (z \<longrightarrow> m_DeferredGroups (snd (f m)) = 0) \<and>
     m_DeferredGroups (snd (f m)) \<in> {0, 4})"

text \<open>What a loop over functions needs of each of them.\<close>

definition good :: "ctx \<Rightarrow> bool \<Rightarrow> ('r \<Rightarrow> matcher) \<Rightarrow> ('r \<Rightarrow> bool) \<Rightarrow> 'r \<Rightarrow> bool" where
  "good k z f H r = (sound k z (f r) (H r) \<and> frames (f r))"

lemma good_call:
  assumes "good k z f H r" "f r m = (b, m')" "cor m = cor k" "m_DeferredGroups m = 0"
  shows "H r \<longrightarrow> b" "b \<and> m_DeferredGroups m' = 0 \<longrightarrow> H r" "z \<longrightarrow> m_DeferredGroups m' = 0"
    "m_DeferredGroups m' = 0 \<or> m_DeferredGroups m' = 4" "cor m' = cor k"
  using assms unfolding good_def sound_def frames_def by (metis fst_conv snd_conv insert_iff singletonD)+

lemma reset_zero [simp]:
  "m_DeferredGroups (ResetRuleCache m) = 0" "m_DeferredGroups (ResetRuleMatchCache m) = 0"
  by (simp_all add: ResetRuleCache_def ResetRuleMatchCache_def)

lemma nested_again:
  assumes "cor m' = cor k" "cor (nested a b m) = cor k" shows "cor (nested a b m') = cor k"
proof -
  have "cor (nested a b m') = nested a b (cor k)" by (simp only: cor_nested assms(1))
  also have "\<dots> = nested a b (cor (nested a b m))" by (simp only: assms(2))
  also have "\<dots> = cor (nested a b m)" by (simp add: cor_nested)
  finally show ?thesis by (simp only: assms)
qed

lemma list_ex_Cons: "list_ex P (x # xs) = (P x \<or> list_ex P xs)"
  by simp

lemmas loop_simps = list.pred_inject list_ex_Cons or_eq_0_iff

lemma or_04: "(a :: u8) \<in> {0, 4} \<Longrightarrow> b \<in> {0, 4} \<Longrightarrow> a OR b \<in> {0, 4}"
  by auto

lemma and_loop_sound:
  assumes "list_all (good k z f H) rules" "cor (nested False False m) = cor k" "d \<in> {0, 4}"
    and "and_loop (map f rules) d m = (b, d', m')"
  shows "(list_all H rules \<longrightarrow> b) \<and> (b \<and> d' = 0 \<longrightarrow> list_all H rules \<and> d = 0) \<and> (z \<and> d = 0 \<longrightarrow> d' = 0) \<and>
    d' \<in> {0, 4}"
  using assms
proof (induction rules arbitrary: d m)
  case (Cons r rules)
  obtain b1 m1 where r: "f r (ResetRuleCache m) = (b1, m1)" by fastforce
  have rest: "list_all (good k z f H) rules" and "good k z f H r" using Cons.prems(1) by simp_all
  note g = good_call [OF this(2) r]
  have cor: "cor (ResetRuleCache m) = cor k" using Cons.prems(2) by (simp add: cor_ResetRuleCache)
  note g = g [OF cor reset_zero(1)]
  have c1: "cor (nested False False m1) = cor k"
    by (rule nested_again [OF g(5) Cons.prems(2)])
  show ?case
  proof (cases b1)
    case True
    have d1: "d OR m_DeferredGroups m1 \<in> {0, 4}" by (rule or_04 [OF Cons.prems(3)]) (use g(4) in simp)
    have "and_loop (map f rules) (d OR m_DeferredGroups m1) m1 = (b, d', m')"
      using Cons.prems(4) r True by simp
    from Cons.IH [OF rest c1 d1 this] g(1-3) True show ?thesis
      unfolding loop_simps by blast
  next
    case False
    with r g(1) Cons.prems(4) show ?thesis by auto
  qed
qed auto

lemma or_loop_sound:
  assumes "list_all (good k z f H) rules" "cor (nested False False m) = cor k" "d \<in> {0, 4}"
    and "\<not> m_RuleSetDomainOnly k" "matched \<longrightarrow> d \<noteq> 0"
    and "or_loop (map f rules) matched d m = (b, d', m')"
  shows "(matched \<or> list_ex H rules \<longrightarrow> b) \<and> (b \<and> d' = 0 \<longrightarrow> list_ex H rules) \<and> (z \<and> d = 0 \<longrightarrow> d' = 0) \<and>
    d' \<in> {0, 4}"
  using assms
proof (induction rules arbitrary: d m matched)
  case (Cons r rules)
  obtain b1 m1 where r: "f r (ResetRuleCache m) = (b1, m1)" by fastforce
  have rest: "list_all (good k z f H) rules" and "good k z f H r" using Cons.prems(1) by simp_all
  note g = good_call [OF this(2) r]
  have cor: "cor (ResetRuleCache m) = cor k" using Cons.prems(2) by (simp add: cor_ResetRuleCache)
  note g = g [OF cor reset_zero(1)]
  have c1: "cor (nested False False m1) = cor k"
    by (rule nested_again [OF g(5) Cons.prems(2)])
  have st: "conclusive m1 = (m_DeferredGroups m1 = 0)"
    using cor_flags(3) [OF g(5)] Cons.prems(4) by (simp add: conclusive_def)
  show ?case
  proof (cases "b1 \<and> m_DeferredGroups m1 \<noteq> 0")
    case True
    have d1: "d OR m_DeferredGroups m1 \<in> {0, 4}" by (rule or_04 [OF Cons.prems(3)]) (use g(4) in simp)
    have "or_loop (map f rules) True (d OR m_DeferredGroups m1) m1 = (b, d', m')"
      using Cons.prems(6) r st True by simp
    from Cons.IH [OF rest c1 d1 Cons.prems(4) _ this] g(1-3) True show ?thesis
      unfolding loop_simps by blast
  next
    case no: False
    show ?thesis
    proof (cases b1)
      case True
      with no st r Cons.prems(6) g(2) show ?thesis by auto
    next
      case False
      then have "or_loop (map f rules) matched d m1 = (b, d', m')" using Cons.prems(6) r by simp
      from Cons.IH [OF rest c1 Cons.prems(3,4,5) this] g(1) False show ?thesis unfolding loop_simps by blast
    qed
  qed
qed auto

lemma any_loop_sound:
  assumes "list_all (good k z f H) rules" "cor m = cor k" "d \<in> {0, 4}"
    and "\<not> m_RuleSetDomainOnly k" "matched \<longrightarrow> d \<noteq> 0" "sn_deferredGroups s = 0"
    and "any_loop s (map f rules) matched d m = (b, m')"
  shows "(matched \<or> list_ex H rules \<longrightarrow> b) \<and> (b \<and> m_DeferredGroups m' = 0 \<longrightarrow> list_ex H rules) \<and>
    (z \<and> d = 0 \<longrightarrow> m_DeferredGroups m' = 0) \<and> m_DeferredGroups m' \<in> {0, 4}"
  using assms
proof (induction rules arbitrary: d m matched)
  case Nil
  then show ?case by (auto simp: finish_any_def Let_def snapshot_restore_def)
next
  case (Cons r rules)
  obtain b1 m1 where r: "f r (ResetRuleMatchCache m) = (b1, m1)" by fastforce
  have rest: "list_all (good k z f H) rules" and "good k z f H r" using Cons.prems(1) by simp_all
  note g = good_call [OF this(2) r]
  have cor: "cor (ResetRuleMatchCache m) = cor k" using Cons.prems(2) by simp
  note g = g [OF cor reset_zero(2)]
  have st: "conclusive m1 = (m_DeferredGroups m1 = 0)"
    using cor_flags(3) [OF g(5)] Cons.prems(4) by (simp add: conclusive_def)
  show ?case
  proof (cases "b1 \<and> m_DeferredGroups m1 \<noteq> 0")
    case True
    have d1: "d OR m_DeferredGroups m1 \<in> {0, 4}" by (rule or_04 [OF Cons.prems(3)]) (use g(4) in simp)
    have "any_loop s (map f rules) True (d OR m_DeferredGroups m1) m1 = (b, m')"
      using Cons.prems(7) r st True by simp
    from Cons.IH [OF rest g(5) d1 Cons.prems(4) _ Cons.prems(6) this] g(1-3) True show ?thesis
      unfolding loop_simps by blast
  next
    case no: False
    show ?thesis
    proof (cases b1)
      case True
      with no st r Cons.prems(6,7) g(2) show ?thesis by (auto simp: snapshot_restore_def)
    next
      case False
      then have "any_loop s (map f rules) matched d m1 = (b, m')" using Cons.prems(7) r by simp
      from Cons.IH [OF rest g(5) Cons.prems(3,4,5,6) this] g(1) False show ?thesis unfolding loop_simps by blast
    qed
  qed
qed

section \<open>Rule sets\<close>

lemma puts_off_same: "cor m = cor k \<Longrightarrow> puts_off c m = puts_off c k"
  using cor_flags [of m k] by (simp add: puts_off_def)

lemma evaluateGroups_call:
  assumes "cor m = cor k" "\<not> m_RuleSetDomainOnly k" "evaluateGroups w c m = (g, m1)"
  shows "g = of_alts (alts w c k)" "cor m1 = cor k"
    "m_DeferredGroups m1 = m_DeferredGroups m OR (if puts_off c k then 4 else 0)"
proof -
  have "\<not> m_RuleSetDomainOnly m" using assms(1,2) cor_flags(3) by metis
  with assms evaluateGroups_groups [of m w c] show "g = of_alts (alts w c k)"
    by (simp add: alts_same [OF assms(1)])
  show "cor m1 = cor k" using cor_evaluateGroups [of w c m] assms(1,3) by simp
  have "m1 = snd (evaluateGroups w c m)" by (simp add: assms(3))
  then show "m_DeferredGroups m1 = m_DeferredGroups m OR (if puts_off c k then 4 else 0)"
    by (simp add: evaluateGroups_ctx Let_def puts_off_same [OF assms(1)] ruleMatchDestinationAddress_def)
qed

lemma merge_call:
  assumes "cor m = cor k" "m_DeferredGroups m = 0" "\<not> m_RuleSetDomainOnly k" "evaluateForMerge w c m = (g, m1)"
  shows "g = (if list_all (item_Match w k) (r_items c) then Some (of_alts (alts w c k)) else None)"
    "cor m1 = cor k" "m_DeferredGroups m1 = (if puts_off c k then 4 else 0)"
proof -
  obtain g0 where e: "evaluateGroups w c m = (g0, m1)"
    using assms(4) by (auto simp: evaluateForMerge_def split: prod.splits)
  note c = evaluateGroups_call [OF assms(1,3) e]
  show "g = (if list_all (item_Match w k) (r_items c) then Some (of_alts (alts w c k)) else None)"
    using assms(4) c(1) items_same [OF c(2)] by (simp add: evaluateForMerge_def e)
  show "cor m1 = cor k" by (rule c(2))
  show "m_DeferredGroups m1 = (if puts_off c k then 4 else 0)" using c(3) by (simp add: assms(2))
qed

text \<open>
  One rule set seen from the rule around it, whose alternatives are \<open>A\<close> before and \<open>A'\<close> after;
  \<open>k\<close> is the context of the nested match and \<open>p\<close> tells that the rule around it is put off.
\<close>

definition set_truth :: "world \<Rightarrow> (rule \<Rightarrow> bool) \<Rightarrow> (group \<Rightarrow> bool list) \<Rightarrow> ctx \<Rightarrow> rule list \<Rightarrow> bool" where
  "set_truth w H A' k' rules =
     (case mergeableRuleIn rules of
        Some branch \<Rightarrow> list_all (item_Match w k') (r_items branch) \<and> satisfied (\<lambda>x. A' x @ alts w branch k' x)
      | None \<Rightarrow> satisfied A' \<and> list_ex H rules)"

definition set_good :: "world \<Rightarrow> (rule \<Rightarrow> bool) \<Rightarrow> (group \<Rightarrow> bool list) \<Rightarrow> bool \<Rightarrow> ctx \<Rightarrow> ctx \<Rightarrow> bool \<Rightarrow> rule list \<Rightarrow> bool" where
  "set_good w H A p k k' z rules =
     (case mergeableRuleIn rules of
        Some branch \<Rightarrow>
          approx (alts w branch k) (alts w branch k') (puts_off branch k) \<and>
          (p \<or> puts_off branch k \<longrightarrow> A DstAddr = [] \<and> alts w branch k DstAddr = []) \<and>
          list_all (item_Match w k) (r_items branch) = list_all (item_Match w k') (r_items branch) \<and>
          (z \<longrightarrow> \<not> puts_off branch k)
      | None \<Rightarrow> list_all (good k z (rule_Match w) H) rules)"

lemma merge_truth:
  assumes "approx A A' p" "set_good w H A p k k' z rules" "mergeableRuleIn rules = Some c"
  shows "set_truth w H A' k' rules \<longrightarrow>
      list_all (item_Match w k) (r_items c) \<and> satisfied (\<lambda>x. A x @ alts w c k x)"
    "\<not> p \<and> \<not> puts_off c k \<and> list_all (item_Match w k) (r_items c) \<and> satisfied (\<lambda>x. A x @ alts w c k x) \<longrightarrow>
      set_truth w H A' k' rules"
    "p \<or> puts_off c k \<longrightarrow> A DstAddr @ alts w c k DstAddr = []"
    "z \<longrightarrow> \<not> puts_off c k"
proof -
  have "approx (\<lambda>x. A x @ alts w c k x) (\<lambda>x. A' x @ alts w c k' x) (p \<or> puts_off c k)"
    using assms by (intro approx_append) (auto simp: set_good_def)
  note ap = this
  show "set_truth w H A' k' rules \<longrightarrow>
      list_all (item_Match w k) (r_items c) \<and> satisfied (\<lambda>x. A x @ alts w c k x)"
    using assms(2,3) approx_no [OF ap] by (simp add: set_truth_def set_good_def)
  show "\<not> p \<and> \<not> puts_off c k \<and> list_all (item_Match w k) (r_items c) \<and> satisfied (\<lambda>x. A x @ alts w c k x) \<longrightarrow>
      set_truth w H A' k' rules"
    using assms(2,3) approx_yes [of "\<lambda>x. A x @ alts w c k x"] ap by (auto simp: set_truth_def set_good_def)
  show "p \<or> puts_off c k \<longrightarrow> A DstAddr @ alts w c k DstAddr = []" "z \<longrightarrow> \<not> puts_off c k"
    using assms(2,3) by (auto simp: set_good_def)
qed

definition paired :: "world \<Rightarrow> rule list \<Rightarrow> conditions option \<times> matcher list" where
  "paired w rules = (mergeableRuleIn rules, map (rule_Match w) rules)"

text \<open>The loop after it has looked at one rule set.\<close>

lemma outer_step_merge:
  assumes "mergeableRuleIn rules = Some c" "approx A A' (own \<noteq> 0)" "set_good w H A (own \<noteq> 0) k k' z rules"
    and "cor (prep m) = cor k" "m_DeferredGroups (prep m) = 0" "\<not> m_RuleSetDomainOnly k"
    and "own \<in> {0, 4}" "sn_deferredGroups s = own"
    and "outer_loop w prep (of_alts A) s (paired w rules # sets) matched d m = r"
  shows "\<exists>m1. cor m1 = cor k \<and>
    (\<not> set_truth w H A' k' rules \<and> r = outer_loop w prep (of_alts A) s sets matched d m1 \<or>
     (own = 0 \<longrightarrow> set_truth w H A' k' rules) \<and> fst r \<and> m_DeferredGroups (snd r) = own \<or>
     \<not> z \<and> r = outer_loop w prep (of_alts A) s sets True (d OR 4) m1)"
proof -
  obtain g m1 where e: "evaluateForMerge w c (prep m) = (g, m1)" by fastforce
  note c = merge_call [OF assms(4,5,6) e]
  note tr = merge_truth [OF assms(2,3,1)]
  let ?B = "\<lambda>x. A x @ alts w c k x"
  have off: "own AND NOT (g_satisfied (of_alts ?B)) = own"
    using assms(7) tr(3) by (auto simp: of_alts_def bits_sat)
  have offc: "m_DeferredGroups m1 AND NOT (g_satisfied (of_alts ?B)) = m_DeferredGroups m1"
    using c(3) tr(3) by (auto simp: of_alts_def bits_sat)
  consider (no) "\<not> (list_all (item_Match w k) (r_items c) \<and> satisfied ?B)"
    | (yes) "list_all (item_Match w k) (r_items c) \<and> satisfied ?B" "\<not> puts_off c k"
    | (off) "list_all (item_Match w k) (r_items c) \<and> satisfied ?B" "puts_off c k" by blast
  then show ?thesis
  proof cases
    case no
    then have "r = outer_loop w prep (of_alts A) s sets matched d m1"
      using assms(9) c(1) by (auto simp: paired_def assms(1) e Let_def merge_of_alts)
    moreover have "\<not> set_truth w H A' k' rules" using no tr(1) by blast
    ultimately show ?thesis using c(2) by blast
  next
    case yes
    then have "fst r" "m_DeferredGroups (snd r) = own"
      using assms(8,9) c(1,3) offc off
      by (auto simp: paired_def assms(1) e Let_def merge_of_alts snapshot_restore_def)
    moreover have "own = 0 \<longrightarrow> set_truth w H A' k' rules" using yes tr(2) by blast
    ultimately show ?thesis using c(2) by blast
  next
    case off
    then have "r = outer_loop w prep (of_alts A) s sets True (d OR 4) m1"
      using assms(9) c(1,3) offc by (auto simp: paired_def assms(1) e Let_def merge_of_alts)
    moreover have "\<not> z" using off tr(4) by blast
    ultimately show ?thesis using c(2) by blast
  qed
qed

lemma matchAnyHeadlessRule_call:
  assumes "list_all (good k z f H) rules" "cor m = cor k" "m_DeferredGroups m = 0" "\<not> m_RuleSetDomainOnly k"
    and "matchAnyHeadlessRule (map f rules) m = (b, m')"
  shows "(list_ex H rules \<longrightarrow> b) \<and> (b \<and> m_DeferredGroups m' = 0 \<longrightarrow> list_ex H rules) \<and>
    (z \<longrightarrow> m_DeferredGroups m' = 0) \<and> m_DeferredGroups m' \<in> {0, 4}" "cor m' = cor k"
proof -
  have "any_loop (snapshotRuleMatch m) (map f rules) False 0 m = (b, m')"
    using assms(5) by (simp add: matchAnyHeadlessRule_def)
  from any_loop_sound [OF assms(1,2) _ assms(4) _ _ this] assms(3)
  show "(list_ex H rules \<longrightarrow> b) \<and> (b \<and> m_DeferredGroups m' = 0 \<longrightarrow> list_ex H rules) \<and>
    (z \<longrightarrow> m_DeferredGroups m' = 0) \<and> m_DeferredGroups m' \<in> {0, 4}"
    by (simp add: snapshotRuleMatch_def)
  have "list_all frames (map f rules)" using assms(1) by (auto simp: good_def list_all_iff)
  from matchAnyHeadlessRule_frames [OF this] assms(2,5) show "cor m' = cor k"
    by (metis frames_def snd_conv)
qed

lemma outer_step_any:
  assumes "mergeableRuleIn rules = None" "approx A A' (own \<noteq> 0)" "set_good w H A (own \<noteq> 0) k k' z rules"
    and "cor (prep m) = cor k" "m_DeferredGroups (prep m) = 0" "\<not> m_RuleSetDomainOnly k"
    and "sn_deferredGroups s = own"
    and "outer_loop w prep (of_alts A) s (paired w rules # sets) matched d m = r"
  shows "\<exists>m1. cor m1 = cor k \<and>
    (\<not> set_truth w H A' k' rules \<and> r = outer_loop w prep (of_alts A) s sets matched d m1 \<or>
     (own = 0 \<longrightarrow> set_truth w H A' k' rules) \<and> fst r \<and> m_DeferredGroups (snd r) = own \<or>
     \<not> z \<and> r = outer_loop w prep (of_alts A) s sets True (d OR 4) m1)"
proof (cases "satisfied A")
  case False
  then have "r = outer_loop w prep (of_alts A) s sets matched d (prep m)"
    using assms(8) by (simp add: paired_def assms(1))
  moreover have "\<not> set_truth w H A' k' rules"
    using False approx_no [OF assms(2)] by (auto simp: set_truth_def assms(1))
  ultimately show ?thesis using assms(4) by blast
next
  case True
  obtain b m1 where e: "matchAnyHeadlessRule (map (rule_Match w) rules) (prep m) = (b, m1)" by fastforce
  have "list_all (good k z (rule_Match w) H) rules" using assms(3) by (simp add: set_good_def assms(1))
  note c = matchAnyHeadlessRule_call [OF this assms(4-6) e]
  have H: "own = 0 \<Longrightarrow> set_truth w H A' k' rules = list_ex H rules"
    using approx_yes assms(2) True by (auto simp: set_truth_def assms(1))
  have no: "\<not> list_ex H rules \<Longrightarrow> \<not> set_truth w H A' k' rules" by (simp add: set_truth_def assms(1))
  consider "\<not> b" | "b" "m_DeferredGroups m1 = 0" | "b" "m_DeferredGroups m1 = 4" "\<not> z" using c(1) by auto
  then show ?thesis
  proof cases
    case 1
    then have "r = outer_loop w prep (of_alts A) s sets matched d m1"
      using assms(8) True by (simp add: paired_def assms(1) e)
    with 1 c no show ?thesis by blast
  next
    case 2
    then have "fst r" "m_DeferredGroups (snd r) = own"
      using assms(7,8) True by (auto simp: paired_def assms(1) e snapshot_restore_def)
    with 2 c H show ?thesis by blast
  next
    case 3
    then have "r = outer_loop w prep (of_alts A) s sets True (d OR 4) m1"
      using assms(8) True by (simp add: paired_def assms(1) e)
    with 3 c show ?thesis by blast
  qed
qed

lemmas outer_step = outer_step_merge outer_step_any

lemma outer_loop_sound:
  assumes "list_all (set_good w H A (own \<noteq> 0) k k' z) sets" "approx A A' (own \<noteq> 0)"
    and prep: "\<And>m. cor (nested src emp m) = cor k \<Longrightarrow> cor (prep m) = cor k \<and> m_DeferredGroups (prep m) = 0"
    and "\<not> m_RuleSetDomainOnly k" "own \<in> {0, 4}" "sn_deferredGroups s = own"
    and "cor (nested src emp m) = cor k" "d \<in> {0, 4}" "matched \<longrightarrow> d \<noteq> 0"
    and "outer_loop w prep (of_alts A) s (map (paired w) sets) matched d m = r"
  shows "(matched \<or> list_ex (set_truth w H A' k') sets \<longrightarrow> fst r) \<and>
    (fst r \<and> m_DeferredGroups (snd r) = 0 \<longrightarrow> list_ex (set_truth w H A' k') sets) \<and>
    (z \<and> own = 0 \<and> d = 0 \<longrightarrow> m_DeferredGroups (snd r) = 0) \<and> m_DeferredGroups (snd r) \<in> {0, 4}"
  using assms(1,7-10)
proof (induction sets arbitrary: m matched d)
  case Nil
  have "m_DeferredGroups (snd r) = (if matched then own OR d else own)" "fst r = matched"
    using Nil.prems(5) assms(6) by (auto simp: finish_any_def Let_def snapshot_restore_def)
  moreover have "own OR d \<in> {0, 4}" using assms(5) Nil.prems(3) by (rule or_04)
  ultimately show ?case using Nil.prems(4) assms(5) by (auto simp: or_eq_0_iff)
next
  case (Cons rules sets)
  have g: "set_good w H A (own \<noteq> 0) k k' z rules" and rest: "list_all (set_good w H A (own \<noteq> 0) k k' z) sets"
    using Cons.prems(1) by simp_all
  have p: "cor (prep m) = cor k" "m_DeferredGroups (prep m) = 0" using prep [OF Cons.prems(2)] by simp_all
  have run: "outer_loop w prep (of_alts A) s (paired w rules # map (paired w) sets) matched d m = r"
    using Cons.prems(5) by simp
  have "\<exists>m1. cor m1 = cor k \<and>
    (\<not> set_truth w H A' k' rules \<and> r = outer_loop w prep (of_alts A) s (map (paired w) sets) matched d m1 \<or>
     (own = 0 \<longrightarrow> set_truth w H A' k' rules) \<and> fst r \<and> m_DeferredGroups (snd r) = own \<or>
     \<not> z \<and> r = outer_loop w prep (of_alts A) s (map (paired w) sets) True (d OR 4) m1)"
    using outer_step_merge [OF _ assms(2) g p assms(4-6) run] outer_step_any [OF _ assms(2) g p assms(4,6) run]
    by (cases "mergeableRuleIn rules") simp_all
  then obtain m1 where m1: "cor m1 = cor k"
    and cases: "\<not> set_truth w H A' k' rules \<and> outer_loop w prep (of_alts A) s (map (paired w) sets) matched d m1 = r \<or>
     (own = 0 \<longrightarrow> set_truth w H A' k' rules) \<and> fst r \<and> m_DeferredGroups (snd r) = own \<or>
     \<not> z \<and> outer_loop w prep (of_alts A) s (map (paired w) sets) True (d OR 4) m1 = r" by auto
  have m1': "cor (nested src emp m1) = cor k" by (rule nested_again [OF m1 Cons.prems(2)])
  from cases show ?case
  proof (elim disjE conjE)
    assume no: "\<not> set_truth w H A' k' rules"
      and "outer_loop w prep (of_alts A) s (map (paired w) sets) matched d m1 = r"
    from Cons.IH [OF rest m1' Cons.prems(3,4) this(2)] no show ?thesis unfolding loop_simps by blast
  next
    assume "own = 0 \<longrightarrow> set_truth w H A' k' rules" "fst r" "m_DeferredGroups (snd r) = own"
    with assms(5) show ?thesis unfolding loop_simps by metis
  next
    assume z: "\<not> z" and "outer_loop w prep (of_alts A) s (map (paired w) sets) True (d OR 4) m1 = r"
    moreover have "d OR 4 \<in> {0, 4}" "True \<longrightarrow> d OR 4 \<noteq> 0" using Cons.prems(3) by auto
    ultimately show ?thesis using Cons.IH [OF rest m1' _ _, of "d OR 4" True] unfolding loop_simps by blast
  qed
qed

section \<open>Rules\<close>

lemma logical_sound:
  assumes "list_all (good (nested False False k) z (rule_Match w) H) rules" "\<not> m_RuleSetDomainOnly k"
  shows "sound k z (logical_Match mode (map (rule_Match w) rules) invert)
    (invert \<noteq> (case mode of ModeAnd \<Rightarrow> list_all H rules | ModeOr \<Rightarrow> list_ex H rules))"
  unfolding sound_def
proof (intro allI impI, elim conjE)
  fix m assume m: "cor m = cor k" "m_DeferredGroups m = 0"
  have n: "cor (nested False False m) = cor (nested False False k)" by (rule cor_nested_cong [OF m(1)])
  let ?H = "case mode of ModeAnd \<Rightarrow> list_all H rules | ModeOr \<Rightarrow> list_ex H rules"
  let ?r = "logical_Match mode (map (rule_Match w) rules) invert m"
  obtain b d m1 where r: "(case mode of ModeAnd \<Rightarrow> and_loop (map (rule_Match w) rules) 0 m
      | ModeOr \<Rightarrow> or_loop (map (rule_Match w) rules) False 0 m) = (b, d, m1)"
    by (metis prod_cases3)
  have s: "(?H \<longrightarrow> b) \<and> (b \<and> d = 0 \<longrightarrow> ?H) \<and> (z \<longrightarrow> d = 0) \<and> d \<in> {0, 4}"
    using r and_loop_sound [OF assms(1) n, of 0 b d m1] or_loop_sound [OF assms(1) n, of 0 False b d m1] assms(2)
    by (cases mode) simp_all
  have "fst ?r = (if invert then \<not> b \<or> d \<noteq> 0 else b)"
    "m_DeferredGroups (snd ?r) = (if b then d else 0)"
    using m(2) by (auto simp: logical_Match_def r finish_logical_def Let_def snapshot_restore_def snapshotRuleMatch_def)
  with s show "(invert \<noteq> ?H \<longrightarrow> fst ?r) \<and> (fst ?r \<and> m_DeferredGroups (snd ?r) = 0 \<longrightarrow> invert \<noteq> ?H) \<and>
      (z \<longrightarrow> m_DeferredGroups (snd ?r) = 0) \<and> m_DeferredGroups (snd ?r) \<in> {0, 4}"
    by (cases invert; cases b) auto
qed

text \<open>A verdict and what it leaves put off, against the truth \<open>T\<close>.\<close>

definition verdict :: "bool \<Rightarrow> bool \<Rightarrow> bool \<times> ctx \<Rightarrow> bool" where
  "verdict z T r = ((T \<longrightarrow> fst r) \<and> (fst r \<and> m_DeferredGroups (snd r) = 0 \<longrightarrow> T) \<and>
     (z \<longrightarrow> m_DeferredGroups (snd r) = 0) \<and> m_DeferredGroups (snd r) \<in> {0, 4})"

lemma sound_verdict: "sound k z f H = (\<forall>m. cor m = cor k \<and> m_DeferredGroups m = 0 \<longrightarrow> verdict z H (f m))"
  by (simp add: sound_def verdict_def)

lemma verdict_weaken: "verdict z T r \<Longrightarrow> (z' \<Longrightarrow> z) \<Longrightarrow> verdict z' T r"
  by (auto simp: verdict_def)

lemma finish_default_verdict: "verdict z T r \<Longrightarrow> verdict z (invert \<noteq> T) (finish_default invert m r)"
  by (cases r; cases invert) (auto simp: verdict_def finish_default_def Let_def)

lemma finish_inner_verdict:
  assumes "verdict (z \<or> True \<in> set (A DstAddr)) T r" shows "verdict z T (finish_inner (of_alts A) r)"
proof -
  have "d AND NOT (g_satisfied (of_alts A)) = d" if "d \<in> {0, 4}" "True \<in> set (A DstAddr) \<longrightarrow> d = 0" for d
    using that by (auto simp: of_alts_def bits_sat)
  with assms show ?thesis by (cases r) (auto simp: verdict_def finish_inner_def)
qed

lemma matchInner_verdict:
  assumes m: "cor m = cor k" "m_DeferredGroups m = 0" and k: "\<not> m_RuleSetDomainOnly k"
    and items: "list_all (item_Match w k) (r_items c) = list_all (item_Match w k') (r_items c)"
    and put: "z \<longrightarrow> \<not> puts_off c k" "True \<in> set (alts w c k DstAddr) \<longrightarrow> \<not> puts_off c k"
    and none: "outer = None \<Longrightarrow> approx (alts w c k) (alts w c k') (puts_off c k) \<and> S = satisfied (alts w c k')"
    and some: "\<And>f m1. outer = Some f \<Longrightarrow> cor m1 = cor k \<Longrightarrow>
      m_DeferredGroups m1 = (if puts_off c k then 4 else 0) \<Longrightarrow>
      verdict (z \<or> True \<in> set (alts w c k DstAddr)) S (f (of_alts (alts w c k)) m1)"
  shows "verdict z (list_all (item_Match w k') (r_items c) \<and> S) (matchInner w c outer m)"
proof -
  obtain g m1 where e: "evaluateGroups w c m = (g, m1)" by fastforce
  note c = evaluateGroups_call [OF m(1) k e]
  have d: "m_DeferredGroups m1 = (if puts_off c k then 4 else 0)" using c(3) m(2) by simp
  have i: "list_all (item_Match w m1) (r_items c) = list_all (item_Match w k') (r_items c)"
    using items items_same [OF c(2)] by simp
  show ?thesis
  proof (cases "list_all (item_Match w k') (r_items c)")
    case False
    with d put show ?thesis by (auto simp: matchInner_def e i verdict_def)
  next
    case True
    have "verdict (z \<or> True \<in> set (alts w c k DstAddr)) S
        (case outer of None \<Rightarrow> (groups_done g, m1) | Some f \<Rightarrow> f g m1)"
    proof (cases outer)
      case None
      note n = none [OF None]
      have "S \<longrightarrow> satisfied (alts w c k)" using n approx_no by blast
      moreover have "\<not> puts_off c k \<Longrightarrow> satisfied (alts w c k) \<longrightarrow> S"
        using n approx_yes [of "alts w c k" "alts w c k'"] by auto
      ultimately show ?thesis using d put by (auto simp: None c(1) verdict_def)
    next
      case (Some f)
      then show ?thesis using some [OF Some c(2) d] by (simp add: c(1))
    qed
    from finish_inner_verdict [of z "alts w c k", OF this] True show ?thesis
      unfolding c(1) by (simp add: matchInner_def e i c(1))
  qed
qed

lemma default_verdict:
  assumes "r_allItems c = [] \<and> outer = None \<Longrightarrow> T" "m_DeferredGroups m = 0"
    and "r_allItems c \<noteq> [] \<or> outer \<noteq> None \<Longrightarrow> T = (invert \<noteq> T')"
    and "verdict z T' (matchInner w c outer m)"
  shows "verdict z T (default_Match w c outer invert m)"
proof (cases "r_allItems c = [] \<and> outer = None")
  case True
  then show ?thesis using assms(1,2) by (simp add: default_Match_def verdict_def)
next
  case False
  have "T = (invert \<noteq> T')" by (rule assms(3)) (use False in auto)
  with finish_default_verdict [OF assms(4), of invert m] False show ?thesis by (auto simp: default_Match_def)
qed

lemma prepareNestedMatch_nested:
  assumes "\<not> rs_domainOnly i"
  shows "cor (prepareNestedMatch i m) = cor (nested (rs_ipCidrMatchSource i) (rs_ipCidrAcceptEmpty i) m)"
    "m_DeferredGroups (prepareNestedMatch i m) = 0"
  using assms by (simp_all add: prepareNestedMatch_def nested_def ResetRuleMatchCache_def cor_def)

text \<open>What the match of a rule needs: no domain-only rule sets and, in an early match, a filterable rule.\<close>

definition fits :: "ctx \<Rightarrow> rule \<Rightarrow> bool" where
  "fits k r = (plain r \<and> (m_IgnoreDestinationIPCIDR k \<longrightarrow> filterable (m_IPCIDRMatchSource k) r))"

definition decides :: "world \<Rightarrow> msg option \<Rightarrow> rule \<Rightarrow> bool" where
  "decides w x r = (\<forall>k. \<not> m_RuleSetDomainOnly k \<and> fits k r \<longrightarrow>
     sound k (\<not> m_IgnoreDestinationIPCIDR k \<or> cidr_free r) (rule_Match w r) (holds w r (actual x k)))"

lemma decides_good:
  assumes "decides w x r" "\<not> m_RuleSetDomainOnly k" "fits k r" "z \<Longrightarrow> \<not> m_IgnoreDestinationIPCIDR k \<or> cidr_free r"
  shows "good k z (rule_Match w) (\<lambda>r. holds w r (actual x k)) r"
  using assms verdict_weaken [of "\<not> m_IgnoreDestinationIPCIDR k \<or> cidr_free r"]
  by (auto simp: good_def rule_frames decides_def sound_verdict)

lemma filterable_items:
  assumes "m_IgnoreDestinationIPCIDR k \<Longrightarrow> offline src c"
  shows "list_all (item_Match w k) (r_items c) = list_all (item_Match w (actual x k)) (r_items c)"
  using assms offline_same by (cases "m_IgnoreDestinationIPCIDR k") (fastforce simp: offline_def list_all_iff)+

lemma mergeable_cases:
  assumes "mergeableRuleIn rules = Some c"
  obtains response where "rules = [DefaultRule c None False response]"
  using assms by (cases rules rule: mergeableRuleIn.cases) (auto split: if_splits)

lemma set_good_any:
  assumes "mergeableRuleIn rules = None" "\<And>r. r \<in> set rules \<Longrightarrow> decides w x r"
    and "\<not> m_RuleSetDomainOnly k" "list_all plain rules"
    and "m_IgnoreDestinationIPCIDR k \<Longrightarrow> list_all (filterable (m_IPCIDRMatchSource k)) rules"
    and "z \<Longrightarrow> \<not> m_IgnoreDestinationIPCIDR k \<or> list_all cidr_free rules"
  shows "set_good w (\<lambda>r. holds w r (actual x k)) A p k (actual x k) z rules"
proof -
  have "good k z (rule_Match w) (\<lambda>r. holds w r (actual x k)) r" if "r \<in> set rules" for r
    using that assms by (intro decides_good) (auto simp: fits_def list_all_iff)
  then show ?thesis by (simp add: set_good_def assms(1) list_all_iff)
qed

lemma set_good_merge:
  assumes "mergeableRuleIn rules = Some b"
    and "m_IgnoreDestinationIPCIDR k \<Longrightarrow> offline (m_IPCIDRMatchSource k) b"
    and "m_IgnoreDestinationIPCIDR k \<Longrightarrow> A DstAddr = [] \<and> r_destinationAddressItems b = [] \<or>
      \<not> p \<and> (r_destinationIPCIDRItems b = [] \<or> m_IPCIDRMatchSource k)"
    and "p \<Longrightarrow> m_IgnoreDestinationIPCIDR k"
    and "z \<Longrightarrow> \<not> m_IgnoreDestinationIPCIDR k \<or> r_destinationIPCIDRItems b = [] \<or> m_IPCIDRMatchSource k"
  shows "set_good w H A p k (actual x k) z rules"
proof -
  have "approx (alts w b k) (alts w b (actual x k)) (puts_off b k)"
    using assms(2,3) by (intro alts_approx) auto
  moreover have "p \<or> puts_off b k \<longrightarrow> A DstAddr = [] \<and> alts w b k DstAddr = []"
    using assms(3,4) by (auto simp: puts_off_def alts_def)
  moreover have "z \<longrightarrow> \<not> puts_off b k" using assms(5) by (auto simp: puts_off_def)
  ultimately show ?thesis
    using filterable_items [OF assms(2), of k w x] by (simp add: set_good_def assms(1))
qed

lemma outer_verdict:
  assumes rules: "list_all (list_all (decides w x)) sets"
    and k: "\<not> m_RuleSetDomainOnly k" "fits k (DefaultRule c (Some (RuleSetItem tags sets src emp False)) invert None)"
    and m: "cor m = cor k" "m_DeferredGroups m = (if puts_off c k then 4 else 0)"
    and z: "z \<Longrightarrow> \<not> m_IgnoreDestinationIPCIDR k \<or> r_destinationAddressItems c \<noteq> [] \<or>
      r_destinationIPCIDRItems c = [] \<and> list_all (list_all cidr_free) sets"
  shows "verdict z (set_holds w (RuleSetItem tags sets src emp False) (alts w c (actual x k)) (actual x k))
    (set_Match w (RuleSetItem tags sets src emp False) (of_alts (alts w c k)) m)"
proof -
  let ?i = "RuleSetItem tags sets src emp False"
  let ?k = "nested src emp k" and ?own = "if puts_off c k then 4 else 0 :: u8"
  let ?H = "\<lambda>r. holds w r (actual x ?k)"
  have p: "(?own \<noteq> 0) = puts_off c k" by simp
  have good: "set_good w ?H (alts w c k) (puts_off c k) ?k (actual x ?k) z rules" if s: "rules \<in> set sets" for rules
  proof (cases "mergeableRuleIn rules")
    case None
    show ?thesis
      by (rule set_good_any [OF None]) (use None s k z rules in \<open>auto simp: fits_def list_all_iff\<close>)
  next
    case (Some b)
    have "cidr_free (DefaultRule b None False response) \<longrightarrow> r_destinationIPCIDRItems b = []" for response by simp
    then have free: "list_all cidr_free rules \<longrightarrow> r_destinationIPCIDRItems b = []"
      using Some by (auto elim: mergeable_cases)
    have f: "m_IgnoreDestinationIPCIDR k \<Longrightarrow> offline src b \<and>
        (r_destinationAddressItems c = [] \<and> r_destinationAddressItems b = [] \<or>
         r_destinationIPCIDRItems c = [] \<and> (r_destinationIPCIDRItems b = [] \<or> src))"
      using k(2) Some s by (auto simp: fits_def list_all_iff)
    show ?thesis
      by (rule set_good_merge [OF Some]) (use f z free s in \<open>auto simp: puts_off_def alts_def list_all_iff\<close>)
  qed
  have ap: "approx (alts w c k) (alts w c (actual x k)) (puts_off c k)"
    using k(2) by (intro alts_approx) (auto simp: fits_def)
  have prep: "cor (prepareNestedMatch ?i m) = cor ?k \<and> m_DeferredGroups (prepareNestedMatch ?i m) = 0"
    if "cor (nested src emp m) = cor ?k" for m
    using that prepareNestedMatch_nested [of ?i m] by simp
  have "set_Match w ?i (of_alts (alts w c k)) m =
      outer_loop w (prepareNestedMatch ?i) (of_alts (alts w c k)) (snapshotRuleMatch m) (map (paired w) sets) False 0 m"
    by (simp add: matchWithOuterGroups_def paired_def [abs_def])
  note run = this [symmetric]
  have g: "list_all (set_good w ?H (alts w c k) (?own \<noteq> 0) ?k (actual x ?k) z) sets"
    using good by (simp add: list_all_iff p)
  have ap': "approx (alts w c k) (alts w c (actual x k)) (?own \<noteq> 0)" using ap by (simp add: p)
  have d: "\<not> m_RuleSetDomainOnly ?k" "?own \<in> {0, 4}" "sn_deferredGroups (snapshotRuleMatch m) = ?own"
    using k(1) m(2) by (simp_all add: snapshotRuleMatch_def)
  note s = outer_loop_sound [OF g ap' prep d cor_nested_cong [OF m(1)] _ _ run]
  have "z \<longrightarrow> ?own = 0" using z by (auto simp: puts_off_def)
  moreover have "list_ex (set_truth w ?H (alts w c (actual x k)) (actual x ?k)) sets =
      set_holds w ?i (alts w c (actual x k)) (actual x k)"
    by (simp add: set_truth_def [abs_def])
  ultimately show ?thesis using s unfolding verdict_def by simp
qed

lemma default_sound:
  assumes rules: "\<And>i. rs = Some i \<Longrightarrow> list_all (list_all (decides w x)) (rs_setList i)"
    and k: "\<not> m_RuleSetDomainOnly k" "fits k (DefaultRule c rs invert None)"
  shows "sound k (\<not> m_IgnoreDestinationIPCIDR k \<or> cidr_free (DefaultRule c rs invert None))
    (rule_Match w (DefaultRule c rs invert None)) (holds w (DefaultRule c rs invert None) (actual x k))"
  unfolding sound_verdict
proof (intro allI impI, elim conjE)
  fix m assume m: "cor m = cor k" "m_DeferredGroups m = 0"
  let ?z = "\<not> m_IgnoreDestinationIPCIDR k \<or> cidr_free (DefaultRule c rs invert None)"
  let ?outer = "case rs of None \<Rightarrow> None | Some i \<Rightarrow> Some (set_Match w i)"
  let ?S = "case rs of None \<Rightarrow> satisfied (alts w c (actual x k))
    | Some i \<Rightarrow> set_holds w i (alts w c (actual x k)) (actual x k)"
  have ap: "approx (alts w c k) (alts w c (actual x k)) (puts_off c k)"
    using k(2) by (intro alts_approx) (auto simp: fits_def)
  have "verdict ?z (list_all (item_Match w (actual x k)) (r_items c) \<and> ?S) (matchInner w c ?outer m)"
  proof (rule matchInner_verdict [OF m k(1)])
    show "list_all (item_Match w k) (r_items c) = list_all (item_Match w (actual x k)) (r_items c)"
      by (rule filterable_items) (use k(2) in \<open>auto simp: fits_def\<close>)
    show "?z \<longrightarrow> \<not> puts_off c k" by (auto simp: puts_off_def)
    show "True \<in> set (alts w c k DstAddr) \<longrightarrow> \<not> puts_off c k" by (auto simp: puts_off_def alts_def)
  next
    assume "?outer = None"
    then show "approx (alts w c k) (alts w c (actual x k)) (puts_off c k) \<and> ?S = satisfied (alts w c (actual x k))"
      using ap by (cases rs) simp_all
  next
    fix f m1 assume f: "?outer = Some f" "cor m1 = cor k" "m_DeferredGroups m1 = (if puts_off c k then 4 else 0)"
    then obtain tags sets src emp where i: "rs = Some (RuleSetItem tags sets src emp False)"
      using k(2) by (cases rs) (auto simp: fits_def split: ruleSetItem.splits)
    have rules': "list_all (list_all (decides w x)) sets" using rules [OF i] by simp
    have dst: "True \<in> set (alts w c k DstAddr) \<Longrightarrow> \<not> m_IgnoreDestinationIPCIDR k \<or> r_destinationAddressItems c \<noteq> []"
      by (auto simp: alts_def)
    show "verdict (?z \<or> True \<in> set (alts w c k DstAddr)) ?S (f (of_alts (alts w c k)) m1)"
      using outer_verdict [OF rules' k(1) k(2) [unfolded i] f(2,3),
        where z = "?z \<or> True \<in> set (alts w c k DstAddr)"] f(1) i dst by auto
  qed
  from default_verdict [OF _ m(2) _ this, of "holds w (DefaultRule c rs invert None) (actual x k)" invert]
  show "verdict ?z (holds w (DefaultRule c rs invert None) (actual x k)) (rule_Match w (DefaultRule c rs invert None) m)"
    by (cases rs) (auto simp: matchForMatch_def on_response_def)
qed

lemma response_sound:
  assumes "\<And>k. \<not> m_RuleSetDomainOnly k \<Longrightarrow> \<not> m_IgnoreDestinationIPCIDR k \<Longrightarrow> sound k True f (P k)"
    and k: "\<not> m_RuleSetDomainOnly k" "\<not> m_IgnoreDestinationIPCIDR k"
  shows "sound k True (matchForMatch (Some tag) invert f) (on_response (Some tag) invert P k)"
  unfolding sound_verdict
proof (intro allI impI, elim conjE)
  fix m assume m: "cor m = cor k" "m_DeferredGroups m = 0"
  have msg: "m_DNSResponse m = m_DNSResponse k" "m_NamedDNSResponses m = m_NamedDNSResponses k"
    using arg_cong [OF m(1), of m_DNSResponse] arg_cong [OF m(1), of m_NamedDNSResponses] by (simp_all add: cor_def)
  show "verdict True (on_response (Some tag) invert P k) (matchForMatch (Some tag) invert f m)"
  proof (cases "response_ctx tag k")
    case None
    then have "response_ctx tag m = None" by (simp add: response_ctx_def msg split: option.splits if_splits)
    with None m show ?thesis by (simp add: matchForMatch_def on_response_def verdict_def)
  next
    case (Some k')
    then obtain y where y: "(if tag \<noteq> [] then m_NamedDNSResponses k tag else m_DNSResponse k) = Some y"
      by (cases "if tag \<noteq> [] then m_NamedDNSResponses k tag else m_DNSResponse k") (simp_all add: response_ctx_def)
    let ?to = "\<lambda>m :: ctx. m\<lparr>m_DNSResponse := Some y, m_MatchFromResponse := True\<rparr>"
    have k': "response_ctx tag k = Some (?to k)" and m': "response_ctx tag m = Some (?to m)"
      unfolding response_ctx_def msg y by simp_all
    have "cor (?to m) = ?to (cor m)" "cor (?to k) = ?to (cor k)" by (simp_all add: cor_def)
    then have "cor (?to m) = cor (?to k)" using m(1) by simp
    moreover have "sound (?to k) True f (P (?to k))" by (rule assms(1)) (use k in simp_all)
    ultimately have "verdict True (P (?to k)) (f (?to m))"
      using m(2) by (simp add: sound_verdict)
    then have "fst (f (?to m)) = P (?to k)" unfolding verdict_def by blast
    then show ?thesis using m(2) by (simp add: matchForMatch_def on_response_def k' m' verdict_def)
  qed
qed

lemma rule_decides: "decides w x r"
  and "list_all (list_all (decides w x)) (rs_setList i)"
proof (induction r and i)
  case (DefaultRule c rs invert response)
  have s: "sound k (\<not> m_IgnoreDestinationIPCIDR k \<or> cidr_free (DefaultRule c rs invert None))
      (rule_Match w (DefaultRule c rs invert None)) (holds w (DefaultRule c rs invert None) (actual x k))"
    if "\<not> m_RuleSetDomainOnly k" "fits k (DefaultRule c rs invert None)" for k
    by (rule default_sound [OF _ that]) (use DefaultRule in auto)
  show ?case
  proof (cases response)
    case None
    then show ?thesis using s by (simp add: decides_def)
  next
    case (Some tag)
    show ?thesis
      unfolding decides_def
    proof (intro allI impI, elim conjE)
      fix k assume k: "\<not> m_RuleSetDomainOnly k" "fits k (DefaultRule c rs invert response)"
      then have i: "\<not> m_IgnoreDestinationIPCIDR k" and p: "plain (DefaultRule c rs invert None)"
        using Some by (auto simp: fits_def)
      have "sound k True (rule_Match w (DefaultRule c rs invert None)) (holds w (DefaultRule c rs invert None) k)"
        if "\<not> m_RuleSetDomainOnly k" "\<not> m_IgnoreDestinationIPCIDR k" for k
        using s [of k] that p by (simp add: fits_def del: rule_Match.simps holds.simps)
      note r = response_sound [OF this k(1) i, of tag invert]
      have "rule_Match w (DefaultRule c rs invert response) =
          matchForMatch (Some tag) invert (rule_Match w (DefaultRule c rs invert None))"
        by (simp add: Some matchForMatch_def [of None, abs_def])
      moreover have "holds w (DefaultRule c rs invert response) k =
          on_response (Some tag) invert (holds w (DefaultRule c rs invert None)) k"
        by (simp add: Some on_response_def [of None, abs_def])
      ultimately show "sound k (\<not> m_IgnoreDestinationIPCIDR k \<or> cidr_free (DefaultRule c rs invert response))
          (rule_Match w (DefaultRule c rs invert response)) (holds w (DefaultRule c rs invert response) (actual x k))"
        using r i by (simp del: rule_Match.simps holds.simps)
    qed
  qed
next
  case (LogicalRule mode rules invert)
  show ?case
    unfolding decides_def
  proof (intro allI impI, elim conjE)
    fix k assume k: "\<not> m_RuleSetDomainOnly k" "fits k (LogicalRule mode rules invert)"
    let ?k = "nested False False k" and ?z = "\<not> m_IgnoreDestinationIPCIDR k \<or> list_all cidr_free rules"
    have "good ?k ?z (rule_Match w) (\<lambda>r. holds w r (actual x ?k)) r" if "r \<in> set rules" for r
      using that LogicalRule k by (intro decides_good) (auto simp: fits_def list_all_iff)
    then have "list_all (good ?k ?z (rule_Match w) (\<lambda>r. holds w r (actual x ?k))) rules" by (simp add: list_all_iff)
    from logical_sound [OF this k(1), of mode invert]
    show "sound k (\<not> m_IgnoreDestinationIPCIDR k \<or> cidr_free (LogicalRule mode rules invert))
      (rule_Match w (LogicalRule mode rules invert)) (holds w (LogicalRule mode rules invert) (actual x k))"
      unfolding actual_simps by simp
  qed
next
  case (RuleSetItem tags sets src emp domainOnly)
  then show ?case by (simp add: list_all_iff)
qed

end
