(* ===== verification/Rule_Made.thy ===== *)
theory Rule_Made
  imports Rule_Build Rule_Sound "HOL-Library.Multiset"
begin

text \<open>
  What the constructors give: which items end up in which list, that the rules of a rule set are of
  the kind the early match can deal with, and that the summary computed from the options is true of
  the rules made from them.
\<close>

section \<open>Building\<close>

fun added :: "place \<Rightarrow> build_step list \<Rightarrow> item list" where
  "added p [] = []"
| "added p (Add q i # steps) = (if p = q then i # added p steps else added p steps)"
| "added p (_ # steps) = added p steps"

fun all_added :: "build_step list \<Rightarrow> item list" where
  "all_added [] = []"
| "all_added (Add q i # steps) = i # all_added steps"
| "all_added (_ # steps) = all_added steps"

fun failed :: "build_step list \<Rightarrow> rule_error option" where
  "failed [] = None"
| "failed (Fail e # steps) = Some e"
| "failed (_ # steps) = failed steps"

fun listed_at :: "place \<Rightarrow> conditions \<Rightarrow> item list" where
  "listed_at Items c = r_items c"
| "listed_at SourceAddress c = r_sourceAddressItems c"
| "listed_at SourcePort c = r_sourcePortItems c"
| "listed_at DestinationAddress c = r_destinationAddressItems c"
| "listed_at DestinationIPCIDR c = r_destinationIPCIDRItems c"
| "listed_at DestinationPort c = r_destinationPortItems c"

lemma listed_add: "listed_at p (add_item q i c) = (if p = q then listed_at p c @ [i] else listed_at p c)"
  by (cases p; cases q) simp_all

lemma all_add: "r_allItems (add_item q i c) = r_allItems c @ [i]"
  by (cases q) simp_all

lemma build_failed: "build steps c = Inl e \<longleftrightarrow> failed steps = Some e"
  by (induction steps c rule: build.induct) auto

lemma build_made:
  assumes "build steps c = Inr c'"
  shows "failed steps = None" "listed_at p c' = listed_at p c @ added p steps" "r_allItems c' = r_allItems c @ all_added steps"
  using assms by (induction steps c rule: build.induct) (auto simp: listed_add all_add)

lemma added_append [simp]: "added p (xs @ ys) = added p xs @ added p ys"
  by (induction p xs rule: added.induct) auto

lemma failed_append [simp]: "failed (xs @ ys) = (case failed xs of None \<Rightarrow> failed ys | Some e \<Rightarrow> Some e)"
  by (induction xs rule: failed.induct) auto

lemma all_added_mset: "mset (all_added steps) =
    mset (concat (map (\<lambda>p. added p steps)
      [Items, SourceAddress, SourcePort, DestinationAddress, DestinationIPCIDR, DestinationPort]))"
proof (induction steps rule: all_added.induct)
  case (2 q i steps)
  then show ?case by (cases q) simp_all
qed simp_all

lemma build_partition:
  assumes "build steps no_conditions = Inr c"
  shows "mset (r_allItems c) = mset (r_items c) + mset (r_sourceAddressItems c) + mset (r_sourcePortItems c) +
    mset (r_destinationAddressItems c) + mset (r_destinationIPCIDRItems c) + mset (r_destinationPortItems c)"
proof -
  have "listed_at p c = added p steps" for p
    using build_made(2) [OF assms, of p] by (cases p) (simp_all add: no_conditions_def)
  from this [of Items] this [of SourceAddress] this [of SourcePort] this [of DestinationAddress]
    this [of DestinationIPCIDR] this [of DestinationPort] build_made(3) [OF assms]
  show ?thesis by (simp add: all_added_mset no_conditions_def)
qed

text \<open>The items of one place, step by step.\<close>

lemma added_step [simp]:
  "added p (only b (Add q i) # steps) = (if p = q \<and> b then [i] else []) @ added p steps"
  "added p (only b (Fail e) # steps) = added p steps"
  "added p (only b (adding q r) # steps) =
     (if p = q \<and> b then case r of Inl e \<Rightarrow> [] | Inr i \<Rightarrow> [i] else []) @ added p steps"
  "added p (either_step b (Add q i) raw (\<lambda>x. Add q (g x)) # steps) =
     (if p = q then if b then [i] else case raw of None \<Rightarrow> [] | Some x \<Rightarrow> [g x] else []) @ added p steps"
  "added p (either_step b (adding q r) raw (\<lambda>x. Add q (g x)) # steps) =
     (if p = q then if b then case r of Inl e \<Rightarrow> [] | Inr i \<Rightarrow> [i] else case raw of None \<Rightarrow> [] | Some x \<Rightarrow> [g x]
      else []) @ added p steps"
  "added p ((case o' of None \<Rightarrow> Skip | Some x \<Rightarrow> only (h x) (Add q (k x))) # steps) =
     (if p = q then case o' of None \<Rightarrow> [] | Some x \<Rightarrow> if h x then [k x] else [] else []) @ added p steps"
  by (simp_all add: only_def adding_def either_step_def split: sum.splits option.splits)

lemma case_sum_same [simp]: "(case r of Inl e \<Rightarrow> x | Inr i \<Rightarrow> x) = x"
  by (cases r) simp_all

lemma case_option_same [simp]: "(case r of None \<Rightarrow> x | Some y \<Rightarrow> x) = x"
  by (cases r) simp_all

fun is_fail :: "build_step \<Rightarrow> bool" where
  "is_fail (Fail e) = True"
| "is_fail _ = False"

lemma failed_None: "failed steps = None \<longleftrightarrow> list_all (\<lambda>s. \<not> is_fail s) steps"
  by (induction steps rule: failed.induct) auto

lemma is_fail_simps [simp]:
  "is_fail (only b s) = (b \<and> is_fail s)"
  "is_fail (adding p r) = (\<exists>e. r = Inl e)"
  "is_fail (either_step b s raw f) = (if b then is_fail s else case raw of None \<Rightarrow> False | Some x \<Rightarrow> is_fail (f x))"
  by (simp_all add: only_def adding_def either_step_def split: sum.splits option.splits)

section \<open>Rules of a rule set\<close>

lemmas item_makers = domain_item_def domain_regex_item_def cidr_item_def port_range_item_def
  process_path_regex_item_def package_name_regex_item_def

lemma map_sum_Inr: "map_sum id f r = Inr i \<longleftrightarrow> (\<exists>x. r = Inr x \<and> i = f x)"
  by (cases r) auto

lemma made_items:
  "domain_item l ds ss = Inr i \<Longrightarrow> \<exists>f d. i = DomainItem f d"
  "domain_regex_item l es = Inr i \<Longrightarrow> \<exists>f d. i = DomainRegexItem f d"
  "cidr_item l src ps = Inr i \<Longrightarrow> \<exists>f d. i = IPCIDRItem f src d"
  "port_range_item src rs = Inr i \<Longrightarrow> \<exists>d r. i = PortRangeItem src d r"
  "process_path_regex_item l es = Inr i \<Longrightarrow> \<exists>f d. i = ProcessPathRegexItem f d"
  "package_name_regex_item l es = Inr i \<Longrightarrow> \<exists>f d. i = PackageNameRegexItem f d"
  by (auto simp: item_makers map_sum_Inr NewIPCIDRItem_def NewPortRangeItem_def split: sum.splits option.splits)

lemma causing_Inr: "causing name r = Inr x \<longleftrightarrow> r = Inr x"
  by (cases r) (simp_all add: causing_def)

lemma causing_Inl: "(\<exists>e. causing name r = Inl e) \<longleftrightarrow> (\<exists>e. r = Inl e)"
  by (cases r) (simp_all add: causing_def)

lemmas step_defs = port_steps_def process_steps_def network_steps_def interface_steps_def

fun offline_step :: "build_step \<Rightarrow> bool" where
  "offline_step (Add p i) = (if p = DestinationIPCIDR then is_cidr i else offline_item i)"
| "offline_step _ = True"

lemma offline_step_simps:
  "offline_step (only b s) = (b \<longrightarrow> offline_step s)"
  "offline_step (adding p r) = (\<forall>i. r = Inr i \<longrightarrow> offline_step (Add p i))"
  "offline_step (either_step b s raw f) = (if b then offline_step s else \<forall>x. raw = Some x \<longrightarrow> offline_step (f x))"
  by (simp_all add: only_def adding_def either_step_def split: sum.splits option.splits)

lemma offline_added:
  assumes "list_all offline_step steps"
  shows "p \<noteq> DestinationIPCIDR \<Longrightarrow> list_all offline_item (added p steps)"
    "list_all is_cidr (added DestinationIPCIDR steps)"
  using assms by (induction p steps rule: added.induct) auto

lemma offline_made:
  "domain_item l ds ss = Inr i \<Longrightarrow> offline_item i"
  "domain_regex_item l es = Inr i \<Longrightarrow> offline_item i"
  "cidr_item l True ps = Inr i \<Longrightarrow> offline_item i"
  "cidr_item l src ps = Inr i \<Longrightarrow> is_cidr i"
  "port_range_item src rs = Inr i \<Longrightarrow> offline_item i"
  "process_path_regex_item l es = Inr i \<Longrightarrow> offline_item i"
  "package_name_regex_item l es = Inr i \<Longrightarrow> offline_item i"
  by (auto dest: made_items)

lemma headless_offline_steps: "list_all offline_step (headless_steps l networkManager o')"
  unfolding headless_steps_def step_defs
  by (simp add: offline_step_simps causing_Inr raw_cidr_item_def NewRawIPCIDRItem_def offline_made
      NewNetworkInterfaceAddressItem_def split: option.splits)

lemma headless_default_made:
  assumes "NewDefaultHeadlessRule l networkManager o' = Inr r"
  obtains c where "r = DefaultRule c None (q_Invert o') None" "failed (headless_steps l networkManager o') = None"
    "\<And>p. listed_at p c = added p (headless_steps l networkManager o')"
    "r_allItems c = all_added (headless_steps l networkManager o')"
proof -
  obtain c where c: "build (headless_steps l networkManager o') no_conditions = Inr c"
      "r = DefaultRule c None (q_Invert o') None"
    using assms by (auto simp: NewDefaultHeadlessRule_def split: sum.splits)
  note b = build_made [OF c(1)]
  have "listed_at p no_conditions = []" for p by (cases p) (simp_all add: no_conditions_def)
  then show thesis using that c(2) b by (simp add: no_conditions_def)
qed

text \<open>The rules of a rule set: no rule sets of their own, no look at a response.\<close>

fun set_rule :: "rule \<Rightarrow> bool" where
  "set_rule (DefaultRule c rs invert response) = (rs = None \<and> response = None \<and> offline True c)"
| "set_rule (LogicalRule mode rules invert) = list_all set_rule rules"

lemma offline_weaken: "offline True c \<Longrightarrow> offline src c"
  by (simp add: offline_def)

lemma set_rule_plain: "set_rule r \<Longrightarrow> plain r"
  by (induction r rule: set_rule.induct) (auto simp: list_all_iff)

lemma added_cidr:
  "added DestinationIPCIDR (headless_steps l networkManager o') =
     (if q_IPCIDR o' \<noteq> [] then case causing ''ipcidr'' (cidr_item l False (q_IPCIDR o')) of Inl e \<Rightarrow> [] | Inr i \<Rightarrow> [i]
      else case q_IPSet o' of None \<Rightarrow> [] | Some s \<Rightarrow> [raw_cidr_item False s])"
  unfolding headless_steps_def step_defs by simp

lemma default_set_rule:
  assumes "NewDefaultHeadlessRule l networkManager o' = Inr r"
  shows "set_rule r" "headless_has_cidr r = isIPCIDRHeadlessRule o'"
proof -
  obtain c where c: "r = DefaultRule c None (q_Invert o') None" "failed (headless_steps l networkManager o') = None"
    "\<And>p. listed_at p c = added p (headless_steps l networkManager o')"
    using assms by (rule headless_default_made) blast
  have "list_all offline_item (listed_at p c)" if "p \<noteq> DestinationIPCIDR" for p
    using offline_added(1) [OF headless_offline_steps that] by (simp add: c(3))
  from this [of Items] this [of SourceAddress] this [of SourcePort] this [of DestinationAddress] this [of DestinationPort]
    offline_added(2) [OF headless_offline_steps, of l networkManager o'] c(3) [of DestinationIPCIDR]
  show "set_rule r" by (simp add: c(1) offline_def)
  have "\<exists>i. cidr_item l False (q_IPCIDR o') = Inr i" if "q_IPCIDR o' \<noteq> []"
    using c(2) that unfolding failed_None headless_steps_def
    by (cases "cidr_item l False (q_IPCIDR o')") (simp_all add: causing_def)
  then have "(listed_at DestinationIPCIDR c \<noteq> []) = isIPCIDRHeadlessRule o'"
    unfolding c(3) added_cidr isIPCIDRHeadlessRule_def causing_def
    by (cases "q_IPCIDR o' = []"; cases "q_IPSet o'") auto
  then show "headless_has_cidr r = isIPCIDRHeadlessRule o'" by (simp add: c(1))
qed

lemma sub_rules_Inr: "sub_rules i rs = Inr xs \<longleftrightarrow> list_all2 (\<lambda>r x. r = Inr x) rs xs"
proof (induction rs arbitrary: i xs)
  case (Cons r rs)
  note ih = Cons.IH [of "Suc i"]
  show ?case
  proof (cases r)
    case (Inr x)
    then show ?thesis
      by (cases "sub_rules (Suc i) rs"; cases xs) (auto simp flip: ih)
  qed (cases xs; simp)
qed auto

lemma sub_rules_map:
  "sub_rules i (map f rs) = Inr xs \<longleftrightarrow> list_all2 (\<lambda>r x. f r = Inr x) rs xs"
  by (simp add: sub_rules_Inr list_all2_map1)

lemma NewHeadlessRule_logical:
  assumes "NewHeadlessRule l networkManager (HLogical mode rules invert) = Inr r"
  obtains md rs where "mode_of mode = Some md" "r = LogicalRule md rs invert"
    "list_all2 (\<lambda>h x. NewHeadlessRule l networkManager h = Inr x) rules rs"
  using assms by (auto simp: sub_rules_map split: option.splits if_splits sum.splits)

lemma NewHeadlessRule_made:
  "NewHeadlessRule l networkManager h = Inr r \<Longrightarrow>
   set_rule r \<and> headless_has_cidr r = HasHeadlessRule_in isIPCIDRHeadlessRule h"
proof (induction h arbitrary: r)
  case (HDefault o')
  then show ?case using default_set_rule [of l networkManager o' r] by (simp split: if_splits)
next
  case (HLogical mode rules invert)
  obtain md rs where r: "r = LogicalRule md rs invert"
    and rs: "list_all2 (\<lambda>h x. NewHeadlessRule l networkManager h = Inr x) rules rs"
    using HLogical.prems by (rule NewHeadlessRule_logical) blast
  from rs HLogical.IH have "list_all set_rule rs \<and>
      list_ex headless_has_cidr rs = list_ex (HasHeadlessRule_in isIPCIDRHeadlessRule) rules"
  proof (induction rules rs rule: list_all2_induct)
    case (Cons h hs x xs)
    have "set_rule x \<and> headless_has_cidr x = HasHeadlessRule_in isIPCIDRHeadlessRule h"
      by (rule Cons.prems) (use Cons.hyps in simp_all)
    moreover have "list_all set_rule xs \<and>
        list_ex headless_has_cidr xs = list_ex (HasHeadlessRule_in isIPCIDRHeadlessRule) hs"
      by (rule Cons.IH) (rule Cons.prems, simp_all)
    ultimately show ?case by simp
  qed simp
  then show ?case by (simp add: r)
qed simp

lemma rule_set_made:
  assumes "list_all2 (\<lambda>h x. NewHeadlessRule l networkManager h = Inr x) hs rs"
  shows "list_all set_rule rs" "list_ex headless_has_cidr rs = HasHeadlessRule hs isIPCIDRHeadlessRule"
  using assms
  by (induction hs rs rule: list_all2_induct) (auto simp: HasHeadlessRule_def dest: NewHeadlessRule_made)

lemma made_plain:
  "list_all2 (\<lambda>h x. NewHeadlessRule l networkManager h = Inr x) hs rs \<Longrightarrow> list_all plain rs"
  using rule_set_made(1) set_rule_plain by (auto simp: list_all_iff)

section \<open>A valid rule asks for something\<close>

lemma nothing_added: "failed steps = None \<Longrightarrow> all_added steps = [] \<Longrightarrow> list_all (\<lambda>s. s = Skip) steps"
  by (induction steps rule: failed.induct) auto

lemma skip_step [simp]:
  "only b (Add p i) = Skip \<longleftrightarrow> \<not> b"
  "only b (adding p r) = Skip \<longleftrightarrow> \<not> b"
  "either_step b (Add p i) raw (\<lambda>x. Add q (g x)) = Skip \<longleftrightarrow> \<not> b \<and> Option.is_none raw"
  "either_step b (adding p r) raw (\<lambda>x. Add q (g x)) = Skip \<longleftrightarrow> \<not> b \<and> Option.is_none raw"
  "(case o' of None \<Rightarrow> Skip | Some xs \<Rightarrow> only (xs \<noteq> []) (Add p (k xs))) = Skip \<longleftrightarrow> o' = None \<or> o' = Some []"
  by (auto simp: only_def adding_def either_step_def Option.is_none_def split: sum.splits option.splits if_splits)

lemma headless_asks:
  assumes "NewDefaultHeadlessRule l True o' = Inr (DefaultRule c rs invert response)" "default_headless_IsValid o'"
    and "q_NetworkInterfaceAddress o' \<noteq> Some []"
  shows "r_allItems c \<noteq> []"
proof
  assume "r_allItems c = []"
  with assms(1) have "failed (headless_steps l True o') = None" "all_added (headless_steps l True o') = []"
    using headless_default_made [OF assms(1)] by (metis rule.inject(1))+
  then have "list_all (\<lambda>s. s = Skip) (headless_steps l True o')" by (rule nothing_added)
  with assms(2,3) show False
    unfolding headless_steps_def step_defs default_headless_IsValid_def common_zero_def by simp
qed

end
