(* ===== verification/Rule_Verdict.thy ===== *)
theory Rule_Verdict
  imports Rule_Made
begin

text \<open>
  The verdicts of rules outside the proofs about the match itself. \<open>rule_interface\<close> is what a rule
  set and a logical rule rely on when they call a rule through \<open>adapter.HeadlessRule\<close>: the verdict is
  the truth of the rule, the context comes back up to its cache, and nothing is put off. The rules of
  the model provide it. Then the early match of DNS rules, \<open>LegacyPreMatch\<close>, against the match with
  the response, \<open>MatchAddressLimit\<close>.
\<close>

section \<open>The interface of a rule\<close>

text \<open>A context as the router passes it to a rule.\<close>

definition fresh :: "ctx \<Rightarrow> bool" where
  "fresh m = (\<not> m_IgnoreDestinationIPCIDR m \<and> \<not> m_RuleSetDomainOnly m \<and> m_DeferredGroups m = 0)"

lemma fresh_same: "cor m = cor m' \<Longrightarrow> fresh m' \<Longrightarrow> m_DeferredGroups m = 0 \<Longrightarrow> fresh m"
  using cor_flags [of m m'] by (simp add: fresh_def)

locale rule_interface =
  fixes match :: "'r \<Rightarrow> matcher" and truth :: "'r \<Rightarrow> ctx \<Rightarrow> bool" and usable :: "'r \<Rightarrow> bool"
  assumes match_true: "usable r \<Longrightarrow> fresh m \<Longrightarrow> fst (match r m) = truth r m"
    and match_keeps: "usable r \<Longrightarrow> fresh m \<Longrightarrow> cor (snd (match r m)) = cor m"
    and match_settles: "usable r \<Longrightarrow> fresh m \<Longrightarrow> m_DeferredGroups (snd (match r m)) = 0"
    and truth_same: "usable r \<Longrightarrow> fresh m \<Longrightarrow> fresh m' \<Longrightarrow> cor m = cor m' \<Longrightarrow> truth r m' = truth r m"
begin

lemma match_call:
  assumes "usable r" "fresh k" "cor m = cor k" "m_DeferredGroups m = 0" "match r m = (b, m')"
  shows "b = truth r k" "cor m' = cor k" "m_DeferredGroups m' = 0"
proof -
  have f: "fresh m" using fresh_same [OF assms(3,2,4)] .
  show "b = truth r k" using match_true [OF assms(1) f] truth_same [OF assms(1,2) f assms(3) [symmetric]] by (simp add: assms(5))
  show "cor m' = cor k" "m_DeferredGroups m' = 0"
    using match_keeps [OF assms(1) f] match_settles [OF assms(1) f] assms(3) unfolding assms(5) snd_conv by metis+
qed

lemma any_true:
  assumes "list_all usable rs" "fresh k" "cor m = cor k"
  shows "fst (any_loop s (map match rs) False 0 m) = list_ex (\<lambda>r. truth r k) rs"
  using assms(1,3)
proof (induction rs arbitrary: m)
  case (Cons r rs)
  obtain b m1 where r: "match r (ResetRuleMatchCache m) = (b, m1)" by fastforce
  have "cor (ResetRuleMatchCache m) = cor k" by (rule trans [OF cor_simps(7) Cons.prems(2)])
  note c = match_call [OF _ assms(2) this reset_zero(2) r]
  have u: "usable r" "list_all usable rs" using Cons.prems(1) by simp_all
  have "conclusive m1"
    using c(3) [OF u(1)] cor_flags(3) [OF c(2) [OF u(1)]] assms(2) by (simp add: conclusive_def fresh_def)
  moreover have "fst (any_loop s (map match rs) False 0 m1) = list_ex (\<lambda>r. truth r k) rs"
    by (rule Cons.IH [OF u(2) c(2) [OF u(1)]])
  ultimately show ?case by (simp add: r c(1) [OF u(1)])
next
  case Nil
  show ?case by (simp add: finish_any_def Let_def)
qed

lemma matchAny_true:
  "list_all usable rs \<Longrightarrow> fresh m \<Longrightarrow> fst (matchAnyHeadlessRule (map match rs) m) = list_ex (\<lambda>r. truth r m) rs"
  unfolding matchAnyHeadlessRule_def by (rule any_true) simp_all

lemma and_true:
  assumes "list_all usable rs" "fresh k" "cor (nested False False m) = cor k"
  shows "fst (and_loop (map match rs) d m) = list_all (\<lambda>r. truth r k) rs"
  using assms(1,3)
proof (induction rs arbitrary: m d)
  case (Cons r rs)
  obtain b m1 where r: "match r (ResetRuleCache m) = (b, m1)" by fastforce
  have "cor (ResetRuleCache m) = cor k" by (rule trans [OF cor_ResetRuleCache Cons.prems(2)])
  note c = match_call [OF _ assms(2) this reset_zero(1) r]
  have u: "usable r" "list_all usable rs" using Cons.prems(1) by simp_all
  have "fst (and_loop (map match rs) d' m1) = list_all (\<lambda>r. truth r k) rs" for d'
    by (rule Cons.IH [OF u(2) nested_again [OF c(2) [OF u(1)] Cons.prems(2)]])
  then show ?case by (simp add: r c(1) [OF u(1)])
next
  case Nil
  show ?case by simp
qed

lemma or_true:
  assumes "list_all usable rs" "fresh k" "cor (nested False False m) = cor k"
  shows "fst (or_loop (map match rs) False 0 m) = list_ex (\<lambda>r. truth r k) rs"
  using assms(1,3)
proof (induction rs arbitrary: m)
  case (Cons r rs)
  obtain b m1 where r: "match r (ResetRuleCache m) = (b, m1)" by fastforce
  have "cor (ResetRuleCache m) = cor k" by (rule trans [OF cor_ResetRuleCache Cons.prems(2)])
  note c = match_call [OF _ assms(2) this reset_zero(1) r]
  have u: "usable r" "list_all usable rs" using Cons.prems(1) by simp_all
  have "conclusive m1"
    using c(3) [OF u(1)] cor_flags(3) [OF c(2) [OF u(1)]] assms(2) by (simp add: conclusive_def fresh_def)
  moreover have "fst (or_loop (map match rs) False 0 m1) = list_ex (\<lambda>r. truth r k) rs"
    by (rule Cons.IH [OF u(2) nested_again [OF c(2) [OF u(1)] Cons.prems(2)]])
  ultimately show ?case by (simp add: r c(1) [OF u(1)])
next
  case Nil
  show ?case by simp
qed

end

text \<open>The rules of the model keep to it.\<close>

lemma decides_at:
  assumes "\<not> m_RuleSetDomainOnly k" "fits k r" "actual response k = k'"
    and "(\<not> m_IgnoreDestinationIPCIDR k \<or> cidr_free r) = z"
  shows "sound k z (rule_Match w r) (holds w r k')"
  using rule_decides [of w response r, unfolded decides_def, rule_format, of k] assms by blast

lemma rule_verdict:
  assumes "plain r" "fresh k" "cor m = cor k" "m_DeferredGroups m = 0"
  shows "verdict True (holds w r k) (rule_Match w r m)"
proof -
  have "\<not> m_RuleSetDomainOnly k" "\<not> m_IgnoreDestinationIPCIDR k" using assms(2) by (simp_all add: fresh_def)
  moreover from this have "fits k r" "actual None k = k" using assms(1) by (simp_all add: fits_def actual_def)
  ultimately have "sound k True (rule_Match w r) (holds w r k)" by (intro decides_at) simp_all
  then show ?thesis using assms(3,4) unfolding sound_verdict by blast
qed

lemma verdict_exact: "verdict True H r \<Longrightarrow> fst r = H" "verdict True H r \<Longrightarrow> m_DeferredGroups (snd r) = 0"
  by (auto simp: verdict_def)

lemma fresh_zero: "fresh m \<Longrightarrow> m_DeferredGroups m = 0"
  by (simp add: fresh_def)

interpretation rules: rule_interface "rule_Match w" "holds w" plain for w
proof
  fix r m assume r: "plain r" "fresh m"
  note v = rule_verdict [OF r refl fresh_zero [OF r(2)]]
  show "fst (rule_Match w r m) = holds w r m" "m_DeferredGroups (snd (rule_Match w r m)) = 0"
    using verdict_exact [OF v] by simp_all
  show "cor (snd (rule_Match w r m)) = cor m" using rule_frames [of w r] by (simp add: frames_def)
next
  fix r m m' assume r: "plain r" "fresh m" "fresh m'" "cor m = cor m'"
  from rule_verdict [OF r(1,2) r(4) [symmetric] fresh_zero [OF r(3)]] rule_verdict [OF r(1,3) refl fresh_zero [OF r(3)]]
  show "holds w r m' = holds w r m" using verdict_exact(1) by metis
qed

section \<open>The early match\<close>

lemma abstract_plain: "filterable src r \<Longrightarrow> abstract_Match w r = rule_Match w r" "filterable src r \<Longrightarrow> \<not> matchResponse r"
  by (cases r; simp)+

text \<open>The context of \<open>MatchAddressLimit\<close>.\<close>

definition with_response :: "msg option \<Rightarrow> ctx \<Rightarrow> ctx" where
  "with_response response m = m\<lparr>m_DNSResponse := response, m_MatchFromResponse := True\<rparr>"

lemma early_verdict:
  assumes "plain r" "filterable False r" "fresh m" "\<not> m_IPCIDRMatchSource m" "\<not> m_IPCIDRAcceptEmpty m"
  shows "verdict (cidr_free r) (MatchAddressLimit w r m response) (LegacyPreMatch w r m)"
proof -
  let ?k = "m\<lparr>m_IgnoreDestinationIPCIDR := True\<rparr>"
  let ?m = "with_response response m"
  have k: "\<not> m_RuleSetDomainOnly ?k" "m_DeferredGroups ?k = 0" "fits ?k r" "actual response ?k = ?m"
    using assms by (simp_all add: fits_def actual_def fresh_def with_response_def)
  have "sound ?k (cidr_free r) (rule_Match w r) (holds w r ?m)"
    by (rule decides_at [OF k(1,3,4)]) simp
  then have v: "verdict (cidr_free r) (holds w r ?m) (rule_Match w r ?k)"
    using k(2) unfolding sound_verdict by blast
  have f: "fresh ?m" using assms(3) by (simp add: fresh_def with_response_def)
  have "cor (with_response response (ResetRuleCache m)) = cor ?m"
    using assms(4,5) by (simp add: with_response_def cor_def ResetRuleCache_def ResetRuleMatchCache_def)
  from rule_verdict [OF assms(1) f this] have "MatchAddressLimit w r m response = holds w r ?m"
    by (simp add: MatchAddressLimit_def abstract_plain [OF assms(2)] with_response_def verdict_exact(1))
  then show ?thesis
    using v by (cases "rule_Match w r ?k") (simp add: LegacyPreMatch_def abstract_plain [OF assms(2)] verdict_def)
qed

text \<open>
  Rules as the router of DNS queries has them: their rule sets have rules made by \<open>NewHeadlessRule\<close>, no
  item looks at a response, and no rule set is asked for the source or for domains only.
\<close>

fun query_rule :: "rule \<Rightarrow> bool" where
  "query_rule (DefaultRule c rs invert response) =
     (response = None \<and> offline False c \<and>
      (case rs of None \<Rightarrow> True
       | Some (RuleSetItem tags sets src emp domainOnly) \<Rightarrow> \<not> src \<and> \<not> domainOnly \<and> list_all (list_all set_rule) sets))"
| "query_rule (LogicalRule mode rules invert) = list_all query_rule rules"

lemma set_rule_free:
  "set_rule r \<Longrightarrow> \<not> headless_has_cidr r \<Longrightarrow> cidr_free r \<and> filterable src r"
proof (induction r arbitrary: src rule: set_rule.induct)
  case (1 c rs invert response)
  then show ?case using offline_weaken [of c src] by simp
next
  case (2 mode rules invert)
  then show ?case by (simp add: list_all_iff list_ex_iff)
qed

lemma unlimited_set:
  assumes "list_all set_rule rules" "\<not> list_ex headless_has_cidr rules"
  shows "list_all cidr_free rules" "list_all (filterable src) rules" "list_all plain rules"
    "mergeableRuleIn rules = Some b \<Longrightarrow> offline src b \<and> r_destinationIPCIDRItems b = []"
proof -
  show "list_all cidr_free rules" "list_all (filterable src) rules" "list_all plain rules"
    using assms set_rule_free set_rule_plain by (auto simp: list_all_iff list_ex_iff)
  show "offline src b \<and> r_destinationIPCIDRItems b = []" if "mergeableRuleIn rules = Some b"
    using assms that offline_weaken by (cases rules rule: mergeableRuleIn.cases) (auto split: if_splits)
qed

lemma unlimited:
  "query_rule r \<Longrightarrow> \<not> WithAddressLimit r \<Longrightarrow> plain r \<and> filterable False r \<and> cidr_free r"
proof (induction r rule: query_rule.induct)
  case (1 c rs invert response)
  show ?case
  proof (cases rs)
    case None
    then show ?thesis using 1 by (simp split: if_splits)
  next
    case (Some i)
    obtain tags sets src emp dom where i: "i = RuleSetItem tags sets src emp dom" by (cases i)
    have s: "\<not> src" "\<not> dom" "list_all (list_all set_rule) sets" "\<not> list_ex (list_ex headless_has_cidr) sets"
      "r_destinationIPCIDRItems c = []" "offline False c" "response = None"
      using 1 Some i by (auto split: if_splits)
    have u: "list_all cidr_free rules" "list_all (filterable src) rules" "list_all plain rules"
        "\<And>b. mergeableRuleIn rules = Some b \<Longrightarrow> offline src b \<and> r_destinationIPCIDRItems b = []"
      if "rules \<in> set sets" for rules
      using that s(3,4) unlimited_set [of rules] by (auto simp: list_all_iff list_ex_iff)
    show ?thesis using s u by (auto simp: Some i list_all_iff split: option.splits)
  qed
next
  case (2 mode rules invert)
  then show ?case by (simp add: list_all_iff list_ex_iff)
qed

end
