(* ===== verification/Rule_Export_Sound.thy ===== *)
theory Rule_Export_Sound
  imports Rule_Export Rule_Text Rule_Verdict
begin

text \<open>
  The export against the rules: what a clause lets through is matched by the rule it comes from, the
  combination of clauses is their conjunction, and the collected addresses are those of the clauses.
  The names of the scopes tell them apart.
\<close>

section \<open>What a clause grants\<close>

definition in_set :: "(addr \<Rightarrow> bool) option \<Rightarrow> addr \<Rightarrow> bool" where
  "in_set ipSet a = (case ipSet of None \<Rightarrow> True | Some s \<Rightarrow> s a)"

definition grants :: "clause \<Rightarrow> addr \<Rightarrow> string \<Rightarrow> u16 \<Rightarrow> bool" where
  "grants c a n p = (cl_nonIPPath c = [] \<and> in_set (cl_ipSet c) a \<and> networks_allow (cl_networks c) n \<and> ports_allow (cl_ports c) p)"

lemma combine_grants:
  "combineRuleSetExportClauses none l r = Some c \<Longrightarrow> grants c a n p = (grants l a n p \<and> grants r a n p)"
  by (auto simp: combineRuleSetExportClauses_def grants_def in_set_def Let_def intersect_networks_allow intersect_ports_allow
      split: option.splits if_splits)

lemma combinations_grants:
  assumes "c \<in> set (combinations none cs ds)"
  obtains l r where "l \<in> set cs" "r \<in> set ds" "\<And>a n p. grants c a n p = (grants l a n p \<and> grants r a n p)"
proof -
  obtain l r where "l \<in> set cs" "r \<in> set ds" "combineRuleSetExportClauses none l r = Some c"
    using assms by (force simp: combinations_def map_filter_def)
  then show thesis by (rule that [OF _ _ combine_grants])
qed

text \<open>The clauses of an \<open>and\<close> grant what every rule grants.\<close>

definition granted :: "(string \<Rightarrow> clause list \<times> skipped list) \<Rightarrow> addr \<Rightarrow> string \<Rightarrow> u16 \<Rightarrow> bool" where
  "granted f a n p = (\<exists>path c. path \<noteq> [] \<and> c \<in> set (fst (f path)) \<and> grants c a n p)"

lemma childRuleSetPath_not_empty: "childRuleSetPath path i \<noteq> []"
  by (simp add: childRuleSetPath_def)

lemma child_granted:
  "f (childRuleSetPath path i) = (cs, ss) \<Longrightarrow> c \<in> set cs \<Longrightarrow> grants c a n p \<Longrightarrow> granted f a n p"
  unfolding granted_def using childRuleSetPath_not_empty [of path i] by force

lemma or_granted:
  "c \<in> set (fst (or_clauses path i fs)) \<Longrightarrow> grants c a n p \<Longrightarrow> \<exists>f\<in>set fs. granted f a n p"
  by (induction path i fs rule: or_clauses.induct) (auto dest: child_granted split: prod.splits)

lemma and_granted:
  assumes "c \<in> set (fst (and_clauses none path i fs cs ss))" "grants c a n p"
  shows "(\<exists>d\<in>set cs. grants d a n p) \<and> (\<forall>f\<in>set fs. granted f a n p)"
  using assms
proof (induction fs arbitrary: i cs ss)
  case (Cons f fs)
  obtain ds ts where f: "f (childRuleSetPath path i) = (ds, ts)" by fastforce
  have "c \<in> set (fst (and_clauses none path (Suc i) fs (combinations none cs ds) (ss @ ts)))"
    using Cons.prems(1) by (auto simp: f Let_def split: if_splits)
  from Cons.IH [OF this Cons.prems(2)] obtain d where d: "d \<in> set (combinations none cs ds)" "grants d a n p"
    and rest: "\<forall>f\<in>set fs. granted f a n p" by blast
  from d(1) obtain l r where "l \<in> set cs" "r \<in> set ds" "grants d a n p = (grants l a n p \<and> grants r a n p)"
    by (rule combinations_grants) blast
  moreover from this have "granted f a n p"
    using d(2) child_granted [of f path i, OF f] by blast
  ultimately show ?case using d(2) rest by auto
qed auto

section \<open>A default rule grants what it matches\<close>

text \<open>
  What the export relies on of \<open>netipx.IPSetBuilder\<close>: nothing added gives the empty set, and the bits of a
  prefix behind its length do not count.
\<close>

definition builds_sets :: "libraries \<Rightarrow> bool" where
  "builds_sets l = (l_ipSet l [] = Some (\<lambda>_. False) \<and> (\<forall>es. l_ipSet l (map (map_sum masked id) es) = l_ipSet l es))"

text \<open>The address condition is given once, and its set has an address.\<close>

definition exportable :: "libraries \<Rightarrow> ((addr \<Rightarrow> bool) \<Rightarrow> bool) \<Rightarrow> headless_options \<Rightarrow> bool" where
  "exportable l none o' =
     (isIPCIDRHeadlessRule o' \<longrightarrow>
        (case ruleSetIPSet l none o' of Some None \<Rightarrow> False | _ \<Rightarrow> True) \<and> (q_IPCIDR o' = [] \<or> Option.is_none (q_IPSet o')))"

fun exportable_rule :: "libraries \<Rightarrow> ((addr \<Rightarrow> bool) \<Rightarrow> bool) \<Rightarrow> headless_rule \<Rightarrow> bool" where
  "exportable_rule l none (HDefault o') = exportable l none o'"
| "exportable_rule l none (HLogical mode rules invert) = list_all (exportable_rule l none) rules"
| "exportable_rule l none (HUnknown type) = True"

text \<open>A connection to an address.\<close>

definition connects :: "world \<Rightarrow> addr \<Rightarrow> string \<Rightarrow> u16 \<Rightarrow> ctx \<Rightarrow> bool" where
  "connects w a n p m = (w_IsIP w (m_Destination m) \<and> sa_Addr (m_Destination m) = a \<and> sa_Port (m_Destination m) = p \<and>
     m_Network m = n \<and> \<not> m_MatchFromResponse m \<and> \<not> m_IPCIDRMatchSource m \<and> \<not> m_IgnoreDestinationIPCIDR m)"

lemma connects_nested: "connects w a n p m \<Longrightarrow> connects w a n p (nested False False m)"
  by (simp add: connects_def nested_def)

lemma raw_ranges_in:
  "raw_ranges ss = Some rs \<Longrightarrow> parse_port_ranges ss = Inr qs \<Longrightarrow> in_ranges p rs = in_ranges p qs"
proof (induction ss arbitrary: rs qs)
  case (Cons s ss)
  obtain b e xs ys where s: "parse_port_range s = Inr (b, e)" "raw_ranges ss = Some xs" "parse_port_ranges ss = Inr ys"
    using Cons.prems by (auto split: sum.splits option.splits)
  have "rs = (if e < b then xs else (b, e) # xs)" "qs = (b, e) # ys" using Cons.prems s by simp_all
  moreover have "e < b \<Longrightarrow> \<not> (b \<le> p \<and> p \<le> e)" by (meson leD order_trans)
  ultimately show ?case using Cons.IH [OF s(2,3)] by auto
qed simp

lemma ruleSetPortRanges_allow:
  assumes "ruleSetPortRanges ports raw = Some rs" "ports_allow rs p" "parse_port_ranges raw = Inr qs" "ports \<noteq> [] \<or> raw \<noteq> []"
  shows "p \<in> set ports \<or> in_ranges p qs"
proof -
  obtain xs where x: "raw_ranges raw = Some xs" "rs = Some (normalizeRuleSetPortRanges (map (\<lambda>p. (p, p)) ports @ xs))"
    using assms(1,4) by (auto simp: ruleSetPortRanges_def Let_def split: if_splits option.splits)
  have v: "list_all valid_range (map (\<lambda>p. (p, p)) ports @ xs)"
    using raw_ranges_valid [OF x(1)] by (auto simp: list_all_iff valid_range_def)
  have "in_ranges p (map (\<lambda>p. (p, p)) ports) = (p \<in> set ports)" by (induction ports) auto
  then show ?thesis
    using assms(2) raw_ranges_in [OF x(1) assms(3)] by (simp add: x(2) ports_allow_def normalize_in [OF v])
qed

lemma parse_prefixes_entries:
  "ip_entries l ss = Some es \<Longrightarrow> parse_prefixes (l_parsePrefix l) (l_parseAddr l) i ss = Inr fs \<Longrightarrow>
   es = map (map_sum masked id) fs"
proof (induction ss arbitrary: i es fs)
  case (Cons s ss)
  note ih = Cons.IH [of _ "Suc i", unfolded id_def]
  show ?case
    using Cons.prems by (auto simp: Let_def id_def dest!: ih split: option.splits sum.splits if_splits)
qed simp

lemma cidr_item_set:
  assumes "cidr_item l False ss = Inr i" "ip_entries l ss = Some es" "l_ipSet l es = Some s" "builds_sets l"
  shows "\<exists>d. i = IPCIDRItem s False d"
proof -
  obtain fs s' d where "parse_prefixes (l_parsePrefix l) (l_parseAddr l) 0 ss = Inr fs" "l_ipSet l fs = Some s'" "i = IPCIDRItem s' False d"
    using assms(1) by (auto simp: item_makers map_sum_Inr NewIPCIDRItem_def split: sum.splits option.splits)
  moreover from this have "l_ipSet l es = l_ipSet l fs"
    using parse_prefixes_entries [OF assms(2)] assms(4) by (simp add: builds_sets_def)
  ultimately show ?thesis using assms(3) by simp
qed

text \<open>The address item of a rule that has an exported set.\<close>

lemma address_item:
  assumes "ruleSetIPSet l none o' = Some (Some s)" "exportable l none o'" "builds_sets l"
    and "failed (headless_steps l networkManager o') = None" "s a"
  shows "\<exists>d. added DestinationIPCIDR (headless_steps l networkManager o') = [IPCIDRItem s False d]"
proof -
  obtain es t where e: "ip_entries l (q_IPCIDR o') = Some es" "l_ipSet l es = Some t"
    "s = (case q_IPSet o' of None \<Rightarrow> t | Some raw \<Rightarrow> (\<lambda>a. raw a \<or> t a))"
    using assms(1) by (auto simp: ruleSetIPSet_def Let_def split: option.splits if_splits)
  show ?thesis
  proof (cases "q_IPCIDR o' = []")
    case True
    then have t: "t = (\<lambda>_. False)" using e(1,2) assms(3) by (simp add: builds_sets_def)
    then obtain raw where "q_IPSet o' = Some raw" using e(3) assms(5) by (cases "q_IPSet o'") auto
    then show ?thesis using True e(3) t unfolding added_cidr by (simp add: raw_cidr_item_def NewRawIPCIDRItem_def)
  next
    case False
    then have "q_IPSet o' = None" using assms(2) by (auto simp: exportable_def isIPCIDRHeadlessRule_def Option.is_none_def)
    then have "s = t" using e(3) by simp
    have "\<exists>i. cidr_item l False (q_IPCIDR o') = Inr i"
      using assms(4) False unfolding failed_None headless_steps_def
      by (cases "cidr_item l False (q_IPCIDR o')") (simp_all add: causing_def)
    then obtain i where i: "cidr_item l False (q_IPCIDR o') = Inr i" by blast
    from cidr_item_set [OF i e(1,2) assms(3)] show ?thesis
      using False i \<open>s = t\<close> unfolding added_cidr by (auto simp: causing_def)
  qed
qed

text \<open>The lists of a rule without conditions that a clause cannot express.\<close>

lemma simple_lists:
  assumes "\<not> has_other_conditions o'"
  shows "added Items (headless_steps l networkManager o') = (if q_Network o' = [] then [] else [NetworkItem (q_Network o')])"
    "added SourceAddress (headless_steps l networkManager o') = []" "added SourcePort (headless_steps l networkManager o') = []"
  using assms
  unfolding has_other_conditions_def default_headless_IsValid_def common_zero_def headless_steps_def step_defs
  by (simp_all add: Option.is_none_def)

lemma port_list:
  "added DestinationPort (headless_steps l networkManager o') =
     (if q_Port o' = [] then [] else [PortItem (q_Port o') False]) @
     (if q_PortRange o' = [] then [] else
       case causing ''port_range'' (port_range_item False (q_PortRange o')) of Inl e \<Rightarrow> [] | Inr i \<Rightarrow> [i])"
  unfolding headless_steps_def step_defs by simp

lemma no_domain_list:
  "\<not> hasRuleSetDomainConstraint o' \<Longrightarrow> added DestinationAddress (headless_steps l networkManager o') = []"
  unfolding hasRuleSetDomainConstraint_def headless_steps_def step_defs by (simp add: Option.is_none_def)

lemma network_granted:
  assumes "ruleSetNetworks (q_Network o') = Some ns" "networks_allow ns n" "n = ''tcp'' \<or> n = ''udp''"
    and "\<not> has_other_conditions o'" "m_Network m = n"
  shows "list_all (item_Match w m) (added Items (headless_steps l networkManager o'))"
  using ruleSetNetworks_allow [OF assms(1,3)] assms(2,5)
  by (auto simp: simple_lists [OF assms(4)] NetworkItem_Match_def)

lemma parsed_ranges:
  assumes "failed (headless_steps l networkManager o') = None"
  shows "\<exists>qs. parse_port_ranges (q_PortRange o') = Inr qs"
proof -
  have "\<exists>i. port_range_item False (q_PortRange o') = Inr i" if "q_PortRange o' \<noteq> []"
    using assms that unfolding failed_None headless_steps_def step_defs
    by (cases "port_range_item False (q_PortRange o')") (simp_all add: causing_def)
  then show ?thesis
    by (cases "q_PortRange o' = []") (auto simp: port_range_item_def map_sum_Inr NewPortRangeItem_def split: sum.splits)
qed

lemma ports_granted:
  assumes "ruleSetPortRanges (q_Port o') (q_PortRange o') = Some rs" "ports_allow rs p" "sa_Port (m_Destination m) = p"
    and "failed (headless_steps l networkManager o') = None"
  shows "ok (map (item_Match w m) (added DestinationPort (headless_steps l networkManager o')))"
proof (cases "q_Port o' = [] \<and> q_PortRange o' = []")
  case True
  then show ?thesis by (simp add: port_list ok_def)
next
  case False
  obtain qs where qs: "parse_port_ranges (q_PortRange o') = Inr qs" using parsed_ranges [OF assms(4)] by blast
  have "p \<in> set (q_Port o') \<or> in_ranges p qs"
    using ruleSetPortRanges_allow [OF assms(1,2) qs] False by blast
  moreover have "port_range_item False (q_PortRange o') = Inr (PortRangeItem False (q_PortRange o') qs)"
    by (simp add: port_range_item_def NewPortRangeItem_def qs)
  moreover have "in_ranges p qs \<Longrightarrow> q_PortRange o' \<noteq> []" using qs by auto
  ultimately show ?thesis
    using assms(3)
    by (auto simp: port_list causing_def ok_def PortItem_Match_def PortRangeItem_Match_def port_of_def in_ranges_def)
qed

lemma address_granted:
  assumes "ruleSetIPSet l none o' = Some ipSet" "in_set ipSet a" "exportable l none o'" "builds_sets l"
    and "failed (headless_steps l networkManager o') = None" "ipSet = None \<longrightarrow> \<not> hasRuleSetDomainConstraint o'"
    and "connects w a n p m"
  shows "ok (map (item_Match w m) (added DestinationAddress (headless_steps l networkManager o') @
    added DestinationIPCIDR (headless_steps l networkManager o')))"
proof (cases ipSet)
  case None
  then have "\<not> isIPCIDRHeadlessRule o'" using assms(1,3) by (auto simp: exportable_def)
  then have "added DestinationIPCIDR (headless_steps l networkManager o') = []"
    unfolding added_cidr by (simp add: isIPCIDRHeadlessRule_def Option.is_none_def split: option.splits)
  then show ?thesis using None assms(6) no_domain_list by (simp add: ok_def)
next
  case (Some s)
  then have "s a" using assms(2) by (simp add: in_set_def)
  with address_item [OF _ assms(3-5)] Some assms(1) obtain d where
    "added DestinationIPCIDR (headless_steps l networkManager o') = [IPCIDRItem s False d]" by blast
  then show ?thesis using \<open>s a\<close> assms(7) by (simp add: ok_def IPCIDRItem_Match_def connects_def)
qed

lemma default_granted:
  assumes made: "NewDefaultHeadlessRule l networkManager o' = Inr r" and l: "exportable l none o'" "builds_sets l"
    and c: "c \<in> set (fst (exportDefaultRuleSetClause l none o' path))" "path \<noteq> []" "grants c a n p"
    and m: "n = ''tcp'' \<or> n = ''udp''" "connects w a n p m"
  shows "holds w r m"
proof -
  obtain ipSet networks ports where e: "\<not> q_Invert o'" "\<not> has_other_conditions o'" "ruleSetIPSet l none o' = Some ipSet"
    "ruleSetNetworks (q_Network o') = Some networks" "ruleSetPortRanges (q_Port o') (q_PortRange o') = Some ports"
    "c = \<lparr>cl_ipSet = ipSet, cl_networks = networks, cl_ports = ports,
       cl_nonIPPath = (if Option.is_none ipSet \<and> hasRuleSetDomainConstraint o' then path else [])\<rparr>"
    using c(1) by (auto simp: exportDefaultRuleSetClause_def split: if_splits option.splits)
  have g: "in_set ipSet a" "networks_allow networks n" "ports_allow ports p" "ipSet = None \<longrightarrow> \<not> hasRuleSetDomainConstraint o'"
    using c(2,3) by (auto simp: grants_def e(6) Option.is_none_def split: if_splits)
  obtain k where k: "r = DefaultRule k None (q_Invert o') None" "failed (headless_steps l networkManager o') = None"
    "\<And>q. listed_at q k = added q (headless_steps l networkManager o')"
    using made by (rule headless_default_made) blast
  have d: "m_Network m = n" "sa_Port (m_Destination m) = p" "\<not> m_IPCIDRMatchSource m" "\<not> m_IgnoreDestinationIPCIDR m"
    using m(2) by (simp_all add: connects_def)
  have "list_all (item_Match w m) (r_items k)"
    using network_granted [OF e(4) g(2) m(1) e(2) d(1)] k(3) [of Items] by simp
  moreover have "satisfied (alts w k m)"
    using simple_lists(2,3) [OF e(2)] ports_granted [OF e(5) g(3) d(2) k(2), of w]
      address_granted [OF e(3) g(1) l k(2) g(4) m(2)] d(3,4)
      k(3) [of SourceAddress] k(3) [of SourcePort] k(3) [of DestinationAddress] k(3) [of DestinationIPCIDR] k(3) [of DestinationPort]
    by (simp add: satisfied_def all_group alts_def ok_def [of "[]"])
  ultimately show ?thesis by (simp add: k(1) e(1) on_response_def)
qed

text \<open>Rules of any kind.\<close>

lemma rule_granted:
  assumes "builds_sets l" "n = ''tcp'' \<or> n = ''udp''"
  shows "NewHeadlessRule l networkManager h = Inr r \<Longrightarrow> exportable_rule l none h \<Longrightarrow>
    granted (exportRuleSetClauses l none h) a n p \<Longrightarrow> connects w a n p m \<Longrightarrow> holds w r m"
proof (induction h arbitrary: r m)
  case (HDefault o')
  then show ?case using default_granted [OF _ _ assms(1) _ _ _ assms(2)]
    by (auto simp: granted_def split: if_splits)
next
  case (HLogical mode rules invert)
  obtain md rs where r: "r = LogicalRule md rs invert" "mode_of mode = Some md"
    and rs: "list_all2 (\<lambda>h x. NewHeadlessRule l networkManager h = Inr x) rules rs"
    using HLogical.prems(1) by (rule NewHeadlessRule_logical) blast
  obtain path c where c: "path \<noteq> []" "c \<in> set (fst (exportRuleSetClauses l none (HLogical mode rules invert) path))" "grants c a n p"
    using HLogical.prems(3) by (auto simp: granted_def)
  have sub: "holds w (rs ! i) (nested False False m)"
    if "i < length rules" "granted (exportRuleSetClauses l none (rules ! i)) a n p" for i
  proof (rule HLogical.IH)
    show "NewHeadlessRule l networkManager (rules ! i) = Inr (rs ! i)" using rs that(1) by (simp add: list_all2_conv_all_nth)
    show "exportable_rule l none (rules ! i)" using HLogical.prems(2) that(1) by (simp add: list_all_length)
  qed (use that HLogical.prems(4) connects_nested in auto)
  have len: "length rs = length rules" using rs by (simp add: list_all2_lengthD)
  have inv: "\<not> invert" using c(2) by (auto split: if_splits)
  show ?case
  proof (cases md)
    case ModeAnd
    then have "mode = ''and''" using r(2) by (simp split: if_splits)
    then have "c \<in> set (fst (and_clauses none path 0 (map (exportRuleSetClauses l none) rules) [no_clause] []))"
      using c(2) inv by simp
    from and_granted [OF this c(3)] sub len show ?thesis
      by (simp add: r(1) ModeAnd inv list_all_length)
  next
    case ModeOr
    then have "mode = ''or''" using r(2) by (simp split: if_splits)
    then have "c \<in> set (fst (or_clauses path 0 (map (exportRuleSetClauses l none) rules)))"
      using c(2) inv by simp
    from or_granted [OF this c(3)] obtain i where "i < length rules" "granted (exportRuleSetClauses l none (rules ! i)) a n p"
      by (auto simp: in_set_conv_nth)
    with sub len show ?thesis by (auto simp: r(1) ModeOr inv list_ex_length)
  qed
qed simp

section \<open>Scopes\<close>

definition transports :: "string list \<Rightarrow> bool" where
  "transports ns = list_all (\<lambda>n. n = ''tcp'' \<or> n = ''udp'') ns"

lemma transports_plain: "transports ns \<Longrightarrow> x \<in> set ns \<Longrightarrow> CHR '','' \<notin> set x \<and> CHR ''/'' \<notin> set x"
proof -
  assume "transports ns" "x \<in> set ns"
  then have "x = ''tcp'' \<or> x = ''udp''" unfolding transports_def list_all_iff by blast
  then show ?thesis by (elim disjE) simp_all
qed

lemma scope_key_text:
  "ruleSetScopeKey ns rs = concat (map (\<lambda>n. n @ [CHR '','']) ns) @ CHR ''/'' # concat (map (\<lambda>x. x @ [CHR '','']) (map range_text rs))"
proof -
  have "map (\<lambda>(s, e). dec (unat s) @ '':'' @ dec (unat e) @ '','') rs = map (\<lambda>x. x @ [CHR '','']) (map range_text rs)"
    by (simp add: range_text_def case_prod_beta)
  then show ?thesis unfolding ruleSetScopeKey_def by (simp only: append.simps append_Nil)
qed

lemma range_text_plain: "CHR '','' \<notin> set (range_text r)"
  using dec_no_separator(2) by (simp add: range_text_def)

lemma range_texts_inj: "map range_text rs = map range_text rs' \<Longrightarrow> rs = rs'"
  by (metis parse_range_texts sum.inject(2))

lemma scope_key_inj:
  assumes "transports ns" "transports ns'" "ruleSetScopeKey ns rs = ruleSetScopeKey ns' rs'"
  shows "ns = ns' \<and> rs = rs'"
proof -
  have no: "CHR ''/'' \<notin> set (concat (map (\<lambda>n. n @ [CHR '','']) xs))" if "transports xs" for xs
    using transports_plain [OF that] by auto
  from first_part_unique [OF no [OF assms(1)] no [OF assms(2)] assms(3) [unfolded scope_key_text]]
  have e: "concat (map (\<lambda>n. n @ [CHR '','']) ns) = concat (map (\<lambda>n. n @ [CHR '','']) ns')"
    "concat (map (\<lambda>x. x @ [CHR '','']) (map range_text rs)) = concat (map (\<lambda>x. x @ [CHR '','']) (map range_text rs'))"
    by blast+
  have "ns = ns'"
    by (rule marked_inj [OF _ e(1)]) (use transports_plain [OF assms(1)] transports_plain [OF assms(2)] in blast)
  moreover have "map range_text rs = map range_text rs'"
    by (rule marked_inj [OF _ e(2)]) (use range_text_plain in auto)
  ultimately show ?thesis using range_texts_inj by blast
qed

text \<open>A clause names its transports and ports, if it has any.\<close>

definition clause_ok :: "clause \<Rightarrow> bool" where
  "clause_ok c = ((case cl_networks c of None \<Rightarrow> True | Some ns \<Rightarrow> ns \<noteq> [] \<and> transports ns) \<and> cl_ports c \<noteq> Some [])"

lemma default_clause_ok: "c \<in> set (fst (exportDefaultRuleSetClause l none o' path)) \<Longrightarrow> clause_ok c"
  by (auto simp: exportDefaultRuleSetClause_def clause_ok_def ruleSetNetworks_def ruleSetPortRanges_def transports_def Let_def
      split: if_splits option.splits)

lemma networks_ok:
  assumes "intersectRuleSetNetworks l r = Some (Some ns)" "\<And>xs. l = Some xs \<or> r = Some xs \<Longrightarrow> xs \<noteq> [] \<and> transports xs"
  shows "ns \<noteq> [] \<and> transports ns"
proof (cases "l = None \<or> r = None")
  case True
  then have "l = Some ns \<or> r = Some ns" using assms(1) by (cases l; cases r) (simp_all add: intersectRuleSetNetworks_def)
  then show ?thesis by (rule assms(2))
next
  case False
  then obtain xs ys where e: "l = Some xs" "r = Some ys" by auto
  then have "transports xs" using assms(2) by blast
  moreover have "ns = filter (\<lambda>n. n \<in> set ys) xs" "ns \<noteq> []"
    using assms(1) by (auto simp: e intersectRuleSetNetworks_def Let_def split: if_splits)
  ultimately show ?thesis unfolding transports_def list_all_iff by simp
qed

lemma combine_ok: "combineRuleSetExportClauses none l r = Some c \<Longrightarrow> clause_ok l \<Longrightarrow> clause_ok r \<Longrightarrow> clause_ok c"
proof -
  assume c: "combineRuleSetExportClauses none l r = Some c" and ok: "clause_ok l" "clause_ok r"
  obtain ns where ns: "intersectRuleSetNetworks (cl_networks l) (cl_networks r) = Some ns" "cl_networks c = ns"
    "cl_ports c = intersectRuleSetPortRanges (cl_ports l) (cl_ports r)"
    "cl_ports l \<noteq> None \<and> cl_ports r \<noteq> None \<longrightarrow> cl_ports c \<noteq> Some []"
    using c by (auto simp: combineRuleSetExportClauses_def Let_def Option.is_none_def split: option.splits if_splits)
  have "cl_ports c \<noteq> Some []"
    using ns(3,4) ok by (auto simp: clause_ok_def intersectRuleSetPortRanges_def split: option.splits)
  moreover have "case cl_networks c of None \<Rightarrow> True | Some ns \<Rightarrow> ns \<noteq> [] \<and> transports ns"
    using ns(1,2) ok networks_ok [of "cl_networks l" "cl_networks r"]
    by (auto simp: clause_ok_def split: option.splits)
  ultimately show ?thesis by (simp add: clause_ok_def)
qed

lemma combinations_ok:
  "list_all clause_ok cs \<Longrightarrow> list_all clause_ok ds \<Longrightarrow> list_all clause_ok (combinations none cs ds)"
  by (fastforce simp: combinations_def map_filter_def list_all_iff dest: combine_ok)

lemma and_ok:
  "(\<forall>f\<in>set fs. \<forall>path. list_all clause_ok (fst (f path))) \<Longrightarrow> list_all clause_ok cs \<Longrightarrow>
   list_all clause_ok (fst (and_clauses none path i fs cs ss))"
proof (induction fs arbitrary: i cs ss)
  case (Cons f fs)
  obtain ds ts where f: "f (childRuleSetPath path i) = (ds, ts)" by fastforce
  then have "list_all clause_ok ds" using Cons.prems(1) by (metis fst_conv list.set_intros(1))
  then have "list_all clause_ok (combinations none cs ds)" using Cons.prems(2) by (rule combinations_ok [rotated])
  with Cons.IH Cons.prems(1) show ?case by (simp add: f Let_def)
qed simp

lemma or_ok:
  "(\<forall>f\<in>set fs. \<forall>path. list_all clause_ok (fst (f path))) \<Longrightarrow> list_all clause_ok (fst (or_clauses path i fs))"
  by (induction path i fs rule: or_clauses.induct) (auto split: prod.splits, metis fst_conv)

lemma clauses_ok: "list_all clause_ok (fst (exportRuleSetClauses l none h path))"
proof (induction h arbitrary: path)
  case (HDefault o')
  then show ?case using default_clause_ok by (auto simp: list_all_iff)
next
  case (HLogical mode rules invert)
  let ?fs = "map (exportRuleSetClauses l none) rules"
  have "\<forall>f\<in>set ?fs. \<forall>path. list_all clause_ok (fst (f path))" using HLogical by simp
  moreover have "list_all clause_ok [no_clause]" by (simp add: clause_ok_def no_clause_def)
  ultimately show ?case using or_ok [of ?fs] and_ok [of ?fs "[no_clause]"] by simp
qed simp

section \<open>What is collected\<close>

text \<open>An empty list of transports or ports is no condition.\<close>

definition scope_allows :: "scoped \<Rightarrow> string \<Rightarrow> u16 \<Rightarrow> bool" where
  "scope_allows s n p = ((sc_networks s = [] \<or> n \<in> set (sc_networks s)) \<and> (sc_ports s = [] \<or> in_ranges p (sc_ports s)))"

definition covered :: "collector \<Rightarrow> addr \<Rightarrow> string \<Rightarrow> u16 \<Rightarrow> bool" where
  "covered co a n p = (co_unscoped co a \<or> (\<exists>s\<in>snd ` set (co_scoped co). sc_set s a \<and> scope_allows s n p))"

definition collector_ok :: "collector \<Rightarrow> bool" where
  "collector_ok co = (distinct (map fst (co_scoped co)) \<and>
     (\<forall>(k, s)\<in>set (co_scoped co). k = ruleSetScopeKey (sc_networks s) (sc_ports s) \<and> transports (sc_networks s)))"

lemma update_snd:
  "distinct (map fst al) \<Longrightarrow>
   (\<exists>s\<in>snd ` set (AList.update k v al). P s) = (P v \<or> (\<exists>(k', s)\<in>set al. k' \<noteq> k \<and> P s))"
  by (induction al) (auto simp: image_iff split: if_splits, force+)

lemma clause_scope:
  "clause_ok c \<Longrightarrow> networks_allow (cl_networks c) n = (from_nil (cl_networks c) = [] \<or> n \<in> set (from_nil (cl_networks c)))"
  "clause_ok c \<Longrightarrow> ports_allow (cl_ports c) p = (from_nil (cl_ports c) = [] \<or> in_ranges p (from_nil (cl_ports c)))"
  "clause_ok c \<Longrightarrow> transports (from_nil (cl_networks c))"
  by (auto simp: clause_ok_def networks_allow_def ports_allow_def from_nil_def transports_def split: option.splits)

text \<open>The clauses that are exported.\<close>

definition address_clause :: "clause \<Rightarrow> addr \<Rightarrow> string \<Rightarrow> u16 \<Rightarrow> bool" where
  "address_clause c a n p = (\<not> Option.is_none (cl_ipSet c) \<and> grants c a n p)"

lemma collect_scoped:
  fixes c :: clause and co :: collector
  defines "key \<equiv> ruleSetScopeKey (from_nil (cl_networks c)) (from_nil (cl_ports c))"
  defines "accumulator \<equiv> (case map_of (co_scoped co) key of
      None \<Rightarrow> \<lparr>sc_networks = from_nil (cl_networks c), sc_ports = from_nil (cl_ports c), sc_set = (\<lambda>_. False)\<rparr> | Some x \<Rightarrow> x)"
  assumes ok: "collector_ok co" "clause_ok c"
  shows "sc_networks accumulator = from_nil (cl_networks c)" "sc_ports accumulator = from_nil (cl_ports c)"
    "map_of (co_scoped co) key = None \<Longrightarrow> sc_set accumulator = (\<lambda>_. False)"
proof -
  show "map_of (co_scoped co) key = None \<Longrightarrow> sc_set accumulator = (\<lambda>_. False)" by (simp add: accumulator_def)
  have "sc_networks accumulator = from_nil (cl_networks c) \<and> sc_ports accumulator = from_nil (cl_ports c)"
  proof (cases "map_of (co_scoped co) key")
    case (Some s)
    then have k: "key = ruleSetScopeKey (sc_networks s) (sc_ports s)" "transports (sc_networks s)"
      using ok(1) map_of_SomeD [OF Some] by (auto simp: collector_ok_def)
    have "sc_networks s = from_nil (cl_networks c) \<and> sc_ports s = from_nil (cl_ports c)"
      by (rule scope_key_inj [OF k(2) clause_scope(3) [OF ok(2)]]) (use k(1) in \<open>simp add: key_def\<close>)
    then show ?thesis by (simp add: accumulator_def Some)
  qed (simp add: accumulator_def)
  then show "sc_networks accumulator = from_nil (cl_networks c)" "sc_ports accumulator = from_nil (cl_ports c)" by simp_all
qed

lemma split_key:
  "distinct (map fst al) \<Longrightarrow>
   (\<exists>s\<in>snd ` set al. P s) = ((\<exists>(k', s)\<in>set al. k' \<noteq> k \<and> P s) \<or> (case map_of al k of None \<Rightarrow> False | Some s \<Rightarrow> P s))"
proof -
  assume d: "distinct (map fst al)"
  have "(case map_of al k of None \<Rightarrow> False | Some s \<Rightarrow> P s) = (\<exists>s. (k, s) \<in> set al \<and> P s)"
  proof (cases "map_of al k")
    case None
    then have "\<nexists>s. (k, s) \<in> set al" by (force simp: map_of_eq_None_iff)
    then show ?thesis using None by simp
  next
    case (Some v)
    then have "(k, s) \<in> set al \<longleftrightarrow> s = v" for s using d map_of_eq_Some_iff [OF d, of k s] by auto
    then show ?thesis using Some by simp
  qed
  then show ?thesis by force
qed

lemma update_ok:
  assumes "collector_ok co" "k = ruleSetScopeKey (sc_networks v) (sc_ports v)" "transports (sc_networks v)"
  shows "collector_ok (co\<lparr>co_scoped := AList.update k v (co_scoped co)\<rparr>)"
proof -
  have "x = (k, v) \<or> x \<in> set al" if "x \<in> set (AList.update k v al)" for x and al :: "(string \<times> scoped) list"
    using that by (induction al) (auto split: if_splits)
  then have "set (AList.update k v (co_scoped co)) \<subseteq> insert (k, v) (set (co_scoped co))" by blast
  moreover have "\<forall>(k, s)\<in>insert (k, v) (set (co_scoped co)). k = ruleSetScopeKey (sc_networks s) (sc_ports s) \<and> transports (sc_networks s)"
    using assms unfolding collector_ok_def by auto
  ultimately have "\<forall>(k, s)\<in>set (AList.update k v (co_scoped co)).
      k = ruleSetScopeKey (sc_networks s) (sc_ports s) \<and> transports (sc_networks s)" by blast
  with assms(1) show ?thesis by (simp add: collector_ok_def distinct_update)
qed

lemma scoped_covered:
  assumes "collector_ok co" "clause_ok c" "cl_ipSet c = Some s" "cl_nonIPPath c = []"
    and some: "\<not> (Option.is_none (cl_ports c) \<and> Option.is_none (cl_networks c))"
  shows "collector_ok (collect_clause c co) \<and>
    covered (collect_clause c co) a n p = (covered co a n p \<or> s a \<and> networks_allow (cl_networks c) n \<and> ports_allow (cl_ports c) p)"
proof -
  define key where "key = ruleSetScopeKey (from_nil (cl_networks c)) (from_nil (cl_ports c))"
  define acc where "acc = (case map_of (co_scoped co) key of
    None \<Rightarrow> \<lparr>sc_networks = from_nil (cl_networks c), sc_ports = from_nil (cl_ports c), sc_set = (\<lambda>_. False)\<rparr> | Some x \<Rightarrow> x)"
  define new where "new = acc\<lparr>sc_set := (\<lambda>a. sc_set acc a \<or> s a)\<rparr>"
  define others where "others = (\<exists>(k', s)\<in>set (co_scoped co). k' \<noteq> key \<and> sc_set s a \<and> scope_allows s n p)"
  have names: "sc_networks acc = from_nil (cl_networks c)" "sc_ports acc = from_nil (cl_ports c)"
    using collect_scoped(1,2) [OF assms(1,2)] by (simp_all add: acc_def key_def)
  have step: "collect_clause c co = co\<lparr>co_scoped := AList.update key new (co_scoped co)\<rparr>"
    unfolding collect_clause_def assms(3) Let_def new_def acc_def key_def using assms(4) by (simp only: option.case some if_False) simp
  have d: "distinct (map fst (co_scoped co))" using assms(1) by (simp add: collector_ok_def)
  have "covered co a n p = (co_unscoped co a \<or> others \<or> sc_set acc a \<and> scope_allows acc n p)"
    unfolding covered_def split_key [OF d, of _ key] others_def acc_def by (auto split: option.splits)
  moreover have "covered (collect_clause c co) a n p = (co_unscoped co a \<or> others \<or> sc_set new a \<and> scope_allows new n p)"
    unfolding step covered_def others_def
    using update_snd [OF d, of key new "\<lambda>s. sc_set s a \<and> scope_allows s n p"] by (simp del: bex_simps image_iff) blast
  moreover have "scope_allows acc n p = (networks_allow (cl_networks c) n \<and> ports_allow (cl_ports c) p)"
    "scope_allows new n p = (networks_allow (cl_networks c) n \<and> ports_allow (cl_ports c) p)"
    using names clause_scope(1,2) [OF assms(2)] by (simp_all add: scope_allows_def new_def)
  moreover have "collector_ok (collect_clause c co)"
    unfolding step by (rule update_ok [OF assms(1)]) (use names clause_scope(3) [OF assms(2)] in \<open>simp_all add: new_def key_def\<close>)
  ultimately show ?thesis by (auto simp: new_def)
qed

lemma collect_clause_covered:
  assumes "collector_ok co" "clause_ok c"
  shows "collector_ok (collect_clause c co) \<and>
    covered (collect_clause c co) a n p = (covered co a n p \<or> address_clause c a n p)"
proof (cases "cl_ipSet c")
  case None
  then show ?thesis using assms by (simp add: collect_clause_def address_clause_def)
next
  case (Some s)
  have ac: "address_clause c a n p = (cl_nonIPPath c = [] \<and> s a \<and> networks_allow (cl_networks c) n \<and> ports_allow (cl_ports c) p)"
    by (simp add: address_clause_def grants_def in_set_def Some)
  consider (path) "cl_nonIPPath c \<noteq> []" | (free) "cl_nonIPPath c = []" "Option.is_none (cl_ports c) \<and> Option.is_none (cl_networks c)"
    | (scope) "cl_nonIPPath c = []" "\<not> (Option.is_none (cl_ports c) \<and> Option.is_none (cl_networks c))" by blast
  then show ?thesis
  proof cases
    case path
    then show ?thesis using assms(1) ac Some by (simp add: collect_clause_def collector_ok_def covered_def)
  next
    case free
    then show ?thesis using assms(1) ac Some
      by (auto simp: collect_clause_def collector_ok_def covered_def Option.is_none_def networks_allow_def ports_allow_def)
  next
    case scope
    from scoped_covered [OF assms Some scope] ac scope(1) show ?thesis by simp
  qed
qed

lemma collect_clauses_covered:
  "collector_ok co \<Longrightarrow> list_all clause_ok cs \<Longrightarrow>
   collector_ok (fold collect_clause cs co) \<and>
   covered (fold collect_clause cs co) a n p = (covered co a n p \<or> list_ex (\<lambda>c. address_clause c a n p) cs)"
  using collect_clause_covered by (induction cs arbitrary: co) auto

text \<open>A rule of the rule set with an address condition has such a clause.\<close>

definition exported_by :: "libraries \<Rightarrow> ((addr \<Rightarrow> bool) \<Rightarrow> bool) \<Rightarrow> nat \<Rightarrow> headless_rule \<Rightarrow> addr \<Rightarrow> string \<Rightarrow> u16 \<Rightarrow> bool" where
  "exported_by l none i h a n p = (HasHeadlessRule_in isIPCIDRHeadlessRule h \<and>
     list_ex (\<lambda>c. address_clause c a n p) (fst (exportRuleSetClauses l none h (''rules['' @ dec i @ '']''))))"

lemma collect_rules_covered:
  "collector_ok co \<Longrightarrow> collector_ok (collect_rules l none i hs co) \<and>
   covered (collect_rules l none i hs co) a n p =
     (covered co a n p \<or> list_ex (\<lambda>(j, h). exported_by l none j h a n p) (List.enumerate i hs))"
proof (induction hs arbitrary: i co)
  case (Cons h hs)
  obtain cs ss where c: "exportRuleSetClauses l none h (''rules['' @ dec i @ '']'') = (cs, ss)" by fastforce
  let ?co = "co\<lparr>co_skipped := co_skipped co @ ss\<rparr>"
  have "list_all clause_ok cs" using clauses_ok [of l none h "''rules['' @ dec i @ '']''"] by (simp only: c fst_conv)
  moreover have "collector_ok ?co" "covered ?co a n p = covered co a n p"
    using Cons.prems by (simp_all add: collector_ok_def covered_def)
  ultimately have f: "collector_ok (fold collect_clause cs ?co)"
    "covered (fold collect_clause cs ?co) a n p = (covered co a n p \<or> list_ex (\<lambda>c. address_clause c a n p) cs)"
    using collect_clauses_covered by blast+
  have e: "exported_by l none i h a n p =
      (HasHeadlessRule_in isIPCIDRHeadlessRule h \<and> list_ex (\<lambda>c. address_clause c a n p) cs)"
    by (simp only: exported_by_def c fst_conv)
  show ?case
  proof (cases "HasHeadlessRule_in isIPCIDRHeadlessRule h")
    case True
    then have "collect_rules l none i (h # hs) co = collect_rules l none (Suc i) hs (fold collect_clause cs ?co)"
      by (simp only: collect_rules.simps c prod.case if_False not_True_eq_False)
    with Cons.IH [OF f(1), of "Suc i"] True show ?thesis by (simp only: f(2) e enumerate_simps list_ex_Cons_iff prod.case disj_assoc simp_thms)
  next
    case False
    with Cons.IH [OF Cons.prems, of "Suc i"] e show ?thesis by simp
  qed
qed simp

section \<open>The export\<close>

text \<open>What a packet filter takes from the export: addresses on their own, and addresses with their scope.\<close>

definition exports :: "export \<Rightarrow> addr \<Rightarrow> string \<Rightarrow> u16 \<Rightarrow> bool" where
  "exports e a n p = (ex_IPv4 e a \<or> ex_IPv6 e a \<or>
     list_ex (\<lambda>s. sc_set s a \<and> scope_allows s n p) (ex_ScopedIPv4 e @ ex_ScopedIPv6 e))"

text \<open>\<open>none\<close> says of no set with addresses that it has none.\<close>

definition tells_empty :: "((addr \<Rightarrow> bool) \<Rightarrow> bool) \<Rightarrow> bool" where
  "tells_empty none = (\<forall>s. none s = (\<forall>a. \<not> s a))"

lemma scoped_part_ex:
  assumes "tells_empty none"
  shows "list_ex (\<lambda>s. sc_set s a \<and> scope_allows s n p) (scoped_part none part ss) =
    (part a \<and> list_ex (\<lambda>s. sc_set s a \<and> scope_allows s n p) ss)"
  using assms by (induction ss) (auto simp: scoped_part_def tells_empty_def scope_allows_def)

lemma exports_covered:
  assumes "tells_empty none"
  shows "exports (buildRuleSetIPCIDRExport l none hs) a n p = covered (collect_rules l none 0 hs no_collector) a n p"
proof -
  let ?co = "collect_rules l none 0 hs no_collector"
  have "list_ex (\<lambda>s. sc_set s a \<and> scope_allows s n p)
      (map (\<lambda>s. s\<lparr>sc_set := (\<lambda>a. sc_set s a \<and> \<not> co_unscoped ?co a)\<rparr>) (map snd (sort_key fst (co_scoped ?co)))) =
      (\<not> co_unscoped ?co a \<and> (\<exists>s\<in>snd ` set (co_scoped ?co). sc_set s a \<and> scope_allows s n p))"
    by (auto simp: list_ex_iff scope_allows_def)
  then show ?thesis
    by (auto simp: exports_def buildRuleSetIPCIDRExport_def Let_def covered_def scoped_part_ex [OF assms])
qed

lemma exports_clauses:
  assumes "tells_empty none"
  shows "exports (buildRuleSetIPCIDRExport l none hs) a n p =
    list_ex (\<lambda>(j, h). exported_by l none j h a n p) (List.enumerate 0 hs)"
proof -
  have "collector_ok no_collector" "\<not> covered no_collector a n p"
    by (simp_all add: collector_ok_def covered_def no_collector_def)
  then show ?thesis using collect_rules_covered [of no_collector l none 0 hs a n p] by (simp add: exports_covered [OF assms])
qed

lemma exports_matched:
  assumes rules: "list_all2 (\<lambda>h r. NewHeadlessRule l networkManager h = Inr r) hs rs"
    and l: "builds_sets l" "tells_empty none" "list_all (exportable_rule l none) hs"
    and m: "n = ''tcp'' \<or> n = ''udp''" "connects w a n p m"
    and e: "exports (buildRuleSetIPCIDRExport l none hs) a n p"
  shows "list_ex (\<lambda>r. holds w r m) rs"
proof -
  obtain j where j: "j < length hs" "exported_by l none j (hs ! j) a n p"
    using e unfolding exports_clauses [OF l(2)] by (auto simp: list_ex_iff in_set_enumerate_eq)
  then have "granted (exportRuleSetClauses l none (hs ! j)) a n p"
    unfolding exported_by_def granted_def address_clause_def list_ex_iff by (metis append_is_Nil_conv list.distinct(1))
  moreover have "NewHeadlessRule l networkManager (hs ! j) = Inr (rs ! j)" "j < length rs"
    using rules j(1) by (auto simp: list_all2_conv_all_nth)
  moreover have "exportable_rule l none (hs ! j)" using l(3) j(1) by (simp add: list_all_length)
  ultimately have "holds w (rs ! j) m" using rule_granted [OF l(1) m(1)] m(2) by blast
  with \<open>j < length rs\<close> show ?thesis by (auto simp: list_ex_length)
qed

text \<open>No list of clauses of an \<open>and\<close> grows past the limit.\<close>

lemma combinations_length: "length (combinations none cs ds) \<le> length cs * length ds"
proof (induction cs)
  case (Cons c cs)
  have "length (List.map_filter f xs) \<le> length xs" for f and xs :: "clause list" by (simp add: map_filter_def)
  from this [of "combineRuleSetExportClauses none c" ds] Cons show ?case by (simp add: combinations_def)
qed (simp add: combinations_def)

lemma and_length: "length cs \<le> maxRuleSetExportClauses \<Longrightarrow> length (fst (and_clauses none path i fs cs ss)) \<le> maxRuleSetExportClauses"
proof (induction fs arbitrary: i cs ss)
  case (Cons f fs)
  obtain ds ts where f: "f (childRuleSetPath path i) = (ds, ts)" by fastforce
  have "length (combinations none cs ds) \<le> maxRuleSetExportClauses" if "length cs \<le> maxRuleSetExportClauses div length ds"
  proof -
    have "length cs * length ds \<le> maxRuleSetExportClauses"
      by (rule order_trans [OF mult_le_mono1 [OF that]]) simp
    with combinations_length [of none cs ds] show ?thesis by linarith
  qed
  with Cons.IH show ?case by (simp add: f Let_def not_less)
qed simp

end
