(* ===== verification/Rule_Export_Complete.thy ===== *)
theory Rule_Export_Complete
  imports Rule_Export_Sound
begin

text \<open>
  The other direction: what a rule set matches is exported, unless the export says that it skipped
  something. It holds for connections without a name and for rules that limit the addresses.
\<close>

section \<open>Clauses\<close>

definition yields :: "clause list \<times> skipped list \<Rightarrow> addr \<Rightarrow> string \<Rightarrow> u16 \<Rightarrow> bool" where
  "yields r a n p = (snd r \<noteq> [] \<or> list_ex (\<lambda>c. grants c a n p) (fst r))"

lemma combine_some:
  assumes "tells_empty none" "grants l a n p" "grants r a n p"
  obtains c where "combineRuleSetExportClauses none l r = Some c" "grants c a n p"
proof -
  have n: "networks_allow (cl_networks l) n" "networks_allow (cl_networks r) n"
    and p: "ports_allow (cl_ports l) p" "ports_allow (cl_ports r) p"
    and s: "in_set (cl_ipSet l) a" "in_set (cl_ipSet r) a"
    using assms(2,3) by (simp_all add: grants_def)
  have "intersectRuleSetNetworks (cl_networks l) (cl_networks r) \<noteq> None"
    using n by (auto simp: intersectRuleSetNetworks_def networks_allow_def Let_def filter_empty_conv split: option.splits)
  moreover have "intersectRuleSetPortRanges (cl_ports l) (cl_ports r) \<noteq> Some []"
    using intersect_ports_allow [of "cl_ports l" "cl_ports r" p] p by (auto simp: ports_allow_def)
  moreover have "\<not> none (\<lambda>a. s a \<and> t a)" if "cl_ipSet l = Some s" "cl_ipSet r = Some t" for s t
    using assms(1) s that by (auto simp: tells_empty_def in_set_def)
  ultimately have "\<exists>c. combineRuleSetExportClauses none l r = Some c"
    by (auto simp: combineRuleSetExportClauses_def Let_def split: option.splits)
  then show thesis using that combine_grants assms(2,3) by blast
qed

lemma combinations_some:
  assumes "tells_empty none" "list_ex (\<lambda>c. grants c a n p) cs" "list_ex (\<lambda>c. grants c a n p) ds"
  shows "list_ex (\<lambda>c. grants c a n p) (combinations none cs ds)"
proof -
  obtain l r where lr: "l \<in> set cs" "r \<in> set ds" "grants l a n p" "grants r a n p"
    using assms(2,3) by (auto simp: list_ex_iff)
  obtain c where "combineRuleSetExportClauses none l r = Some c" "grants c a n p"
    using assms(1) lr(3,4) by (rule combine_some)
  then show ?thesis using lr(1,2) by (force simp: list_ex_iff combinations_def map_filter_def)
qed

lemma and_skips: "ss \<noteq> [] \<Longrightarrow> snd (and_clauses none path i fs cs ss) \<noteq> []"
  by (induction fs arbitrary: i cs ss) (auto simp: Let_def split: prod.splits)

lemma and_yields:
  assumes "tells_empty none"
  shows "list_all (\<lambda>f. \<forall>path. path \<noteq> [] \<longrightarrow> yields (f path) a n p) fs \<Longrightarrow> yields (cs, ss) a n p \<Longrightarrow>
    yields (and_clauses none path i fs cs ss) a n p"
proof (induction fs arbitrary: i cs ss)
  case (Cons f fs)
  obtain ds ts where f: "f (childRuleSetPath path i) = (ds, ts)" by fastforce
  have fs: "\<forall>path. path \<noteq> [] \<longrightarrow> yields (f path) a n p" "list_all (\<lambda>f. \<forall>path. path \<noteq> [] \<longrightarrow> yields (f path) a n p) fs"
    using Cons.prems(1) by simp_all
  have y: "yields (ds, ts) a n p" using fs(1) [rule_format, OF childRuleSetPath_not_empty [of path i]] by (simp only: f)
  show ?case
  proof (cases "ss @ ts = []")
    case False
    then show ?thesis using and_skips [of "ss @ ts"] by (auto simp: yields_def f Let_def)
  next
    case True
    then have g: "list_ex (\<lambda>c. grants c a n p) cs" "list_ex (\<lambda>c. grants c a n p) ds"
      using Cons.prems(2) y by (auto simp: yields_def)
    have c: "list_ex (\<lambda>c. grants c a n p) (combinations none cs ds)" using combinations_some [OF assms g] .
    then have "yields (combinations none cs ds, []) a n p" by (simp add: yields_def)
    from Cons.IH [OF fs(2) this] have "yields (and_clauses none path (Suc i) fs (combinations none cs ds) []) a n p" .
    moreover have "ds \<noteq> []" "combinations none cs ds \<noteq> []" using g c by auto
    moreover have "yields ([], [(path, ''too_many_logical_combinations'')]) a n p" by (simp add: yields_def)
    ultimately show ?thesis using True by (simp add: f Let_def)
  qed
qed simp

lemma or_yields:
  assumes "list_ex (\<lambda>f. \<forall>path. path \<noteq> [] \<longrightarrow> yields (f path) a n p) fs"
  shows "yields (or_clauses path i fs) a n p"
  using assms
proof (induction path i fs rule: or_clauses.induct)
  case (2 path index f fs)
  then show ?case
    using childRuleSetPath_not_empty [of path index] by (auto simp: yields_def split: prod.splits)
qed simp

section \<open>Rules\<close>

text \<open>The items that look at the name of the destination.\<close>

fun by_name :: "item \<Rightarrow> bool" where
  "by_name (DomainItem f d) = True"
| "by_name (DomainKeywordItem ks) = True"
| "by_name (DomainRegexItem fs d) = True"
| "by_name (AdGuardDomainItem f) = True"
| "by_name _ = False"

fun domain_item_step :: "build_step \<Rightarrow> bool" where
  "domain_item_step (Add q i) = (q = DestinationAddress \<longrightarrow> by_name i)"
| "domain_item_step _ = True"

lemma domain_step_simps:
  "domain_item_step (only b s) = (b \<longrightarrow> domain_item_step s)"
  "domain_item_step (adding q r) = (\<forall>i. r = Inr i \<longrightarrow> domain_item_step (Add q i))"
  "domain_item_step (either_step b s raw f) = (if b then domain_item_step s else \<forall>x. raw = Some x \<longrightarrow> domain_item_step (f x))"
  by (simp_all add: only_def adding_def either_step_def split: sum.splits option.splits)

lemma domain_made:
  "domain_item l ds ss = Inr i \<Longrightarrow> by_name i"
  "domain_regex_item l es = Inr i \<Longrightarrow> by_name i"
  by (auto dest!: made_items)

lemma domain_steps: "list_all domain_item_step (headless_steps l networkManager o')"
  unfolding headless_steps_def step_defs
  by (simp add: domain_step_simps causing_Inr domain_made split: option.splits)

lemma no_name_no_match:
  assumes "list_all domain_item_step steps" "domain_host m = []" "i \<in> set (added DestinationAddress steps)"
  shows "\<not> item_Match w m i"
  using assms
proof (induction DestinationAddress steps rule: added.induct)
  case (2 q j steps)
  then show ?case
    by (cases "q = DestinationAddress"; cases j rule: by_name.cases)
      (auto simp: DomainItem_Match_def DomainKeywordItem_Match_def DomainRegexItem_Match_def AdGuardDomainItem_Match_def)
qed auto

lemma domain_list:
  assumes "failed (headless_steps l networkManager o') = None" "hasRuleSetDomainConstraint o'"
  shows "added DestinationAddress (headless_steps l networkManager o') \<noteq> []"
proof -
  have "\<exists>i. domain_item l (q_Domain o') (q_DomainSuffix o') = Inr i" if "q_Domain o' \<noteq> [] \<or> q_DomainSuffix o' \<noteq> []"
    using assms(1) that unfolding failed_None headless_steps_def step_defs
    by (cases "domain_item l (q_Domain o') (q_DomainSuffix o')") simp_all
  moreover have "\<exists>i. domain_regex_item l (q_DomainRegex o') = Inr i" if "q_DomainRegex o' \<noteq> []"
    using assms(1) that unfolding failed_None headless_steps_def step_defs
    by (cases "domain_regex_item l (q_DomainRegex o')") (simp_all add: causing_def)
  ultimately show ?thesis
    using assms(2) unfolding hasRuleSetDomainConstraint_def headless_steps_def step_defs
    by (auto simp: causing_def Option.is_none_def)
qed

lemma ports_needed:
  assumes "ruleSetPortRanges (q_Port o') (q_PortRange o') = Some rs" "sa_Port (m_Destination m) = p"
    and "failed (headless_steps l networkManager o') = None"
    and "ok (map (item_Match w m) (added DestinationPort (headless_steps l networkManager o')))"
  shows "ports_allow rs p"
proof (cases "q_Port o' = [] \<and> q_PortRange o' = []")
  case True
  then show ?thesis using assms(1) by (simp add: ruleSetPortRanges_def ports_allow_def)
next
  case False
  then obtain xs where x: "raw_ranges (q_PortRange o') = Some xs"
    "rs = Some (normalizeRuleSetPortRanges (map (\<lambda>p. (p, p)) (q_Port o') @ xs))"
    using assms(1) by (auto simp: ruleSetPortRanges_def Let_def split: if_splits option.splits)
  obtain qs where qs: "parse_port_ranges (q_PortRange o') = Inr qs" using parsed_ranges [OF assms(3)] by blast
  have item: "port_range_item False (q_PortRange o') = Inr (PortRangeItem False (q_PortRange o') qs)"
    by (simp add: port_range_item_def NewPortRangeItem_def qs)
  have "p \<in> set (q_Port o') \<or> in_ranges p qs"
    using assms(2,4) False item
    by (auto simp: port_list causing_def ok_def PortItem_Match_def PortRangeItem_Match_def port_of_def in_ranges_def split: if_splits)
  moreover have "list_all valid_range (map (\<lambda>p. (p, p)) (q_Port o') @ xs)"
    using raw_ranges_valid [OF x(1)] by (auto simp: list_all_iff valid_range_def)
  moreover have "in_ranges p (map (\<lambda>p. (p, p)) ports) = (p \<in> set ports)" for ports by (induction ports) auto
  ultimately show ?thesis
    using raw_ranges_in [OF x(1) qs] by (simp add: x(2) ports_allow_def normalize_in)
qed

lemma none_added: "all_added steps = [] \<Longrightarrow> added q steps = []"
  by (induction steps rule: all_added.induct) auto

lemma address_needed:
  assumes "ruleSetIPSet l none o' = Some ipSet" "exportable l none o'" "builds_sets l" "tells_empty none"
    and "failed (headless_steps l networkManager o') = None" "connects w a n p m" "domain_host m = []"
    and "ok (map (item_Match w m) (added DestinationAddress (headless_steps l networkManager o') @
      added DestinationIPCIDR (headless_steps l networkManager o')))"
  shows "in_set ipSet a" "ipSet = None \<Longrightarrow> \<not> hasRuleSetDomainConstraint o'"
proof -
  let ?names = "added DestinationAddress (headless_steps l networkManager o')"
  have no: "True \<notin> set (map (item_Match w m) ?names)"
    using no_name_no_match [OF domain_steps assms(7)] by force
  show "in_set ipSet a"
  proof (cases ipSet)
    case (Some s)
    then have "\<not> none s" using assms(1) by (auto simp: ruleSetIPSet_def Let_def split: option.splits if_splits)
    then obtain b where "s b" using assms(4) by (auto simp: tells_empty_def)
    with address_item [OF _ assms(2,3,5)] Some assms(1) obtain d where
      "added DestinationIPCIDR (headless_steps l networkManager o') = [IPCIDRItem s False d]" by blast
    then have "item_Match w m (IPCIDRItem s False d)" using assms(8) no by (auto simp: ok_def)
    then show ?thesis using assms(6) Some by (simp add: IPCIDRItem_Match_def connects_def in_set_def)
  qed (simp add: in_set_def)
  show "\<not> hasRuleSetDomainConstraint o'" if "ipSet = None"
  proof
    assume "hasRuleSetDomainConstraint o'"
    then have "?names \<noteq> []" using domain_list [OF assms(5)] by blast
    moreover have "\<not> isIPCIDRHeadlessRule o'" using that assms(1,2) by (auto simp: exportable_def)
    then have "added DestinationIPCIDR (headless_steps l networkManager o') = []"
      unfolding added_cidr by (simp add: isIPCIDRHeadlessRule_def Option.is_none_def split: option.splits)
    ultimately show False using assms(8) no by (auto simp: ok_def)
  qed
qed

lemma default_yields:
  assumes made: "NewDefaultHeadlessRule l networkManager o' = Inr r" and l: "exportable l none o'" "builds_sets l" "tells_empty none"
    and m: "n = ''tcp'' \<or> n = ''udp''" "connects w a n p m" "domain_host m = []" "holds w r m"
  shows "yields (exportDefaultRuleSetClause l none o' path) a n p"
proof (cases "snd (exportDefaultRuleSetClause l none o' path) = []")
  case True
  then obtain ipSet networks ports where e: "\<not> q_Invert o'" "\<not> has_other_conditions o'" "ruleSetIPSet l none o' = Some ipSet"
    "ruleSetNetworks (q_Network o') = Some networks" "ruleSetPortRanges (q_Port o') (q_PortRange o') = Some ports"
    "fst (exportDefaultRuleSetClause l none o' path) = [\<lparr>cl_ipSet = ipSet, cl_networks = networks, cl_ports = ports,
       cl_nonIPPath = (if Option.is_none ipSet \<and> hasRuleSetDomainConstraint o' then path else [])\<rparr>]"
    by (auto simp: exportDefaultRuleSetClause_def split: if_splits option.splits)
  obtain k where k: "r = DefaultRule k None (q_Invert o') None" "failed (headless_steps l networkManager o') = None"
    "\<And>q. listed_at q k = added q (headless_steps l networkManager o')" "r_allItems k = all_added (headless_steps l networkManager o')"
    using made by (rule headless_default_made) blast
  have d: "m_Network m = n" "sa_Port (m_Destination m) = p" "\<not> m_IPCIDRMatchSource m" "\<not> m_IgnoreDestinationIPCIDR m"
    using m(2) by (simp_all add: connects_def)
  have h: "list_all (item_Match w m) (added Items (headless_steps l networkManager o'))"
    "ok (map (item_Match w m) (added DestinationAddress (headless_steps l networkManager o') @ added DestinationIPCIDR (headless_steps l networkManager o')))"
    "ok (map (item_Match w m) (added DestinationPort (headless_steps l networkManager o')))"
    using m(4) none_added [of "headless_steps l networkManager o'"] d(3,4) e(1)
      k(3) [of Items] k(3) [of DestinationAddress] k(3) [of DestinationIPCIDR] k(3) [of DestinationPort]
    by (auto simp: k(1,4) on_response_def satisfied_def all_group alts_def ok_def split: if_splits)
  have "q_Network o' = [] \<or> n \<in> set (q_Network o')" using h(1) d(1) by (simp add: simple_lists(1) [OF e(2)] NetworkItem_Match_def split: if_splits)
  then have "networks_allow networks n" using ruleSetNetworks_allow [OF e(4) m(1)] by simp
  moreover note ports_needed [OF e(5) d(2) k(2) h(3)]
  moreover note address_needed [OF e(3) l k(2) m(2,3) h(2)]
  ultimately show ?thesis by (auto simp: yields_def e(6) grants_def Option.is_none_def)
qed (simp add: yields_def)

lemma rule_yields:
  assumes "builds_sets l" "tells_empty none" "n = ''tcp'' \<or> n = ''udp''"
  shows "NewHeadlessRule l networkManager h = Inr r \<Longrightarrow> exportable_rule l none h \<Longrightarrow> connects w a n p m \<Longrightarrow> domain_host m = [] \<Longrightarrow>
    holds w r m \<Longrightarrow> path \<noteq> [] \<Longrightarrow> yields (exportRuleSetClauses l none h path) a n p"
proof (induction h arbitrary: r m path)
  case (HDefault o')
  then show ?case using default_yields [OF _ _ assms(1,2,3)] by (auto split: if_splits)
next
  case (HLogical mode rules invert)
  obtain md rs where r: "r = LogicalRule md rs invert" "mode_of mode = Some md"
    and rs: "list_all2 (\<lambda>h x. NewHeadlessRule l networkManager h = Inr x) rules rs"
    using HLogical.prems(1) by (rule NewHeadlessRule_logical) blast
  have len: "length rs = length rules" using rs by (simp add: list_all2_lengthD)
  have name: "domain_host (nested False False m) = []" using HLogical.prems(4) by (auto simp: domain_host_def nested_def split: if_splits)
  have sub: "yields (exportRuleSetClauses l none (rules ! i) q) a n p"
    if "i < length rules" "holds w (rs ! i) (nested False False m)" "q \<noteq> []" for i q
  proof (rule HLogical.IH [OF _ _ _ connects_nested [OF HLogical.prems(3)] name that(2,3)])
    show "rules ! i \<in> set rules" using that(1) by simp
    show "NewHeadlessRule l networkManager (rules ! i) = Inr (rs ! i)" using rs that(1) by (simp add: list_all2_conv_all_nth)
    show "exportable_rule l none (rules ! i)" using HLogical.prems(2) that(1) by (simp add: list_all_length)
  qed
  show ?case
  proof (cases invert)
    case True
    then show ?thesis by (simp add: yields_def)
  next
    case inv: False
    show ?thesis
    proof (cases md)
      case ModeAnd
      then have mode: "mode = ''and''" using r(2) by (simp split: if_splits)
      have "list_all (\<lambda>f. \<forall>path. path \<noteq> [] \<longrightarrow> yields (f path) a n p) (map (exportRuleSetClauses l none) rules)"
        using HLogical.prems(5) sub len by (simp add: r(1) ModeAnd inv list_all_length)
      moreover have "yields ([no_clause], []) a n p"
        by (simp add: yields_def grants_def no_clause_def in_set_def networks_allow_def ports_allow_def)
      ultimately show ?thesis using and_yields [OF assms(2)] by (simp add: mode inv)
    next
      case ModeOr
      then have mode: "mode = ''or''" using r(2) by (simp split: if_splits)
      have "list_ex (\<lambda>f. \<forall>path. path \<noteq> [] \<longrightarrow> yields (f path) a n p) (map (exportRuleSetClauses l none) rules)"
        using HLogical.prems(5) sub len by (auto simp: r(1) ModeOr inv list_ex_length)
      then show ?thesis using or_yields by (simp add: mode inv)
    qed
  qed
qed simp

section \<open>Rules that limit the addresses\<close>

fun bound :: "headless_rule \<Rightarrow> bool" where
  "bound (HDefault o') = isIPCIDRHeadlessRule o'"
| "bound (HLogical mode rules invert) =
     (if mode = ''or'' then rules \<noteq> [] \<and> list_all bound rules else list_ex bound rules)"
| "bound (HUnknown type) = False"

definition with_set :: "clause \<Rightarrow> bool" where
  "with_set c = (\<not> Option.is_none (cl_ipSet c))"

lemma bound_has: "bound h \<Longrightarrow> HasHeadlessRule_in isIPCIDRHeadlessRule h"
proof (induction h)
  case (HLogical mode rules invert)
  then show ?case by (cases rules) (auto simp: list_ex_iff list_all_iff split: if_splits)
qed simp_all

lemma combine_with_set:
  "combineRuleSetExportClauses none l r = Some c \<Longrightarrow> with_set l \<or> with_set r \<Longrightarrow> with_set c"
  by (auto simp: combineRuleSetExportClauses_def with_set_def Let_def split: option.splits if_splits)

lemma combinations_with_set:
  "list_all with_set cs \<or> list_all with_set ds \<Longrightarrow> list_all with_set (combinations none cs ds)"
  by (fastforce simp: combinations_def map_filter_def list_all_iff dest: combine_with_set)

lemma and_with_set:
  "list_all with_set cs \<or> list_ex (\<lambda>f. \<forall>path. list_all with_set (fst (f path))) fs \<Longrightarrow>
   list_all with_set (fst (and_clauses none path i fs cs ss))"
proof (induction fs arbitrary: i cs ss)
  case (Cons f fs)
  obtain ds ts where f: "f (childRuleSetPath path i) = (ds, ts)" by fastforce
  have "list_all with_set cs \<or> list_all with_set ds \<or> list_ex (\<lambda>f. \<forall>path. list_all with_set (fst (f path))) fs"
    using Cons.prems f by auto (metis fst_conv)
  then have *: "list_all with_set (combinations none cs ds) \<or> list_ex (\<lambda>f. \<forall>path. list_all with_set (fst (f path))) fs"
    using combinations_with_set by blast
  show ?case using Cons.IH [OF *] by (simp add: f Let_def)
qed simp

lemma or_with_set:
  "list_all (\<lambda>f. \<forall>path. list_all with_set (fst (f path))) fs \<Longrightarrow> list_all with_set (fst (or_clauses path i fs))"
proof (induction path i fs rule: or_clauses.induct)
  case (2 path index f fs)
  then show ?case by (auto split: prod.splits) (metis fst_conv)
qed simp

lemma bound_with_set:
  "bound h \<Longrightarrow> exportable_rule l none h \<Longrightarrow> list_all with_set (fst (exportRuleSetClauses l none h path))"
proof (induction h arbitrary: path)
  case (HDefault o')
  then show ?case
    by (auto simp: exportDefaultRuleSetClause_def exportable_def with_set_def Option.is_none_def split: option.splits if_splits)
next
  case (HLogical mode rules invert)
  let ?fs = "map (exportRuleSetClauses l none) rules"
  have all: "bound h \<Longrightarrow> \<forall>path. list_all with_set (fst (exportRuleSetClauses l none h path))" if "h \<in> set rules" for h
    using HLogical that by (simp add: list_all_iff)
  show ?case
  proof (cases "mode = ''or''")
    case True
    then have "list_all (\<lambda>f. \<forall>path. list_all with_set (fst (f path))) ?fs" using HLogical.prems(1) all by (simp add: list_all_iff)
    then show ?thesis using True or_with_set by simp
  next
    case False
    then have "list_ex (\<lambda>f. \<forall>path. list_all with_set (fst (f path))) ?fs" using HLogical.prems(1) all by (auto simp: list_ex_iff)
    then have "list_all with_set (fst (and_clauses none path 0 ?fs [no_clause] []))"
      using and_with_set [of "[no_clause]" ?fs none path 0 "[]"] by auto
    then show ?thesis using False by simp
  qed
qed simp

section \<open>Nothing is lost\<close>

lemma skipped_nothing: "normalizeRuleSetSkipped xs = [] \<Longrightarrow> xs = []"
  by (cases xs) (auto simp: normalizeRuleSetSkipped_def Let_def simp flip: length_0_conv)

lemma fold_skips: "co_skipped (fold collect_clause cs co) = [] \<Longrightarrow> co_skipped co = []"
proof (induction cs arbitrary: co)
  case (Cons c cs)
  have "co_skipped (collect_clause c co) = []" using Cons.IH [of "collect_clause c co"] Cons.prems by simp
  then show ?case by (auto simp: collect_clause_def Let_def split: option.splits if_splits)
qed simp

lemma collect_skips:
  "co_skipped (collect_rules l none i hs co) = [] \<Longrightarrow> co_skipped co = [] \<and>
   (\<forall>(j, h)\<in>set (List.enumerate i hs). HasHeadlessRule_in isIPCIDRHeadlessRule h \<longrightarrow>
      snd (exportRuleSetClauses l none h (''rules['' @ dec j @ '']'')) = [])"
proof (induction hs arbitrary: i co)
  case (Cons h hs)
  obtain cs ss where c: "exportRuleSetClauses l none h (''rules['' @ dec i @ '']'') = (cs, ss)" by fastforce
  show ?case
  proof (cases "HasHeadlessRule_in isIPCIDRHeadlessRule h")
    case True
    then have "collect_rules l none i (h # hs) co =
        collect_rules l none (Suc i) hs (fold collect_clause cs (co\<lparr>co_skipped := co_skipped co @ ss\<rparr>))"
      by (simp only: collect_rules.simps c prod.case if_False not_True_eq_False)
    from Cons.IH [OF Cons.prems [unfolded this]]
    have *: "co_skipped (fold collect_clause cs (co\<lparr>co_skipped := co_skipped co @ ss\<rparr>)) = []"
      and rest: "\<forall>(j, h)\<in>set (List.enumerate (Suc i) hs). HasHeadlessRule_in isIPCIDRHeadlessRule h \<longrightarrow>
        snd (exportRuleSetClauses l none h (''rules['' @ dec j @ '']'')) = []" by blast+
    from fold_skips [OF *] have "co_skipped co = []" "ss = []" by simp_all
    then show ?thesis using rest by (simp only: enumerate_simps list.set ball_simps c prod.case snd_conv simp_thms)
  next
    case False
    then show ?thesis using Cons.IH [of "Suc i" co] Cons.prems by simp
  qed
qed simp

lemma matched_exports:
  assumes rules: "list_all2 (\<lambda>h r. NewHeadlessRule l networkManager h = Inr r) hs rs"
    and l: "builds_sets l" "tells_empty none" "list_all (exportable_rule l none) hs" "list_all bound hs"
    and m: "n = ''tcp'' \<or> n = ''udp''" "connects w a n p m" "domain_host m = []"
    and e: "ex_Skipped (buildRuleSetIPCIDRExport l none hs) = []" "list_ex (\<lambda>r. holds w r m) rs"
  shows "exports (buildRuleSetIPCIDRExport l none hs) a n p"
proof -
  obtain j where j: "j < length hs" "holds w (rs ! j) m" using e(2) rules by (auto simp: list_ex_length list_all2_lengthD)
  let ?h = "hs ! j" and ?path = "''rules['' @ dec j @ '']''"
  have made: "NewHeadlessRule l networkManager ?h = Inr (rs ! j)" using rules j(1) by (simp add: list_all2_conv_all_nth)
  have ok: "exportable_rule l none ?h" "bound ?h" using l(3,4) j(1) by (simp_all add: list_all_length)
  have "co_skipped (collect_rules l none 0 hs no_collector) = []"
    using e(1) skipped_nothing by (simp add: buildRuleSetIPCIDRExport_def Let_def)
  moreover have "(j, ?h) \<in> set (List.enumerate 0 hs)" using j(1) by (simp add: in_set_enumerate_eq)
  ultimately have "snd (exportRuleSetClauses l none ?h ?path) = []" using collect_skips bound_has [OF ok(2)] by fast
  moreover have "yields (exportRuleSetClauses l none ?h ?path) a n p"
    by (rule rule_yields [OF l(1,2) m(1) made ok(1) m(2,3) j(2)]) simp
  ultimately have "list_ex (\<lambda>c. grants c a n p) (fst (exportRuleSetClauses l none ?h ?path))" by (simp add: yields_def)
  then have "exported_by l none j ?h a n p"
    using bound_has [OF ok(2)] bound_with_set [OF ok(2,1), of ?path]
    unfolding exported_by_def address_clause_def with_set_def list_ex_iff list_all_iff by blast
  then show ?thesis
    unfolding exports_clauses [OF l(2)] using \<open>(j, ?h) \<in> set (List.enumerate 0 hs)\<close> by (force simp: list_ex_iff)
qed

end
