(* ===== verification/Rule_Actions.thy ===== *)
theory Rule_Actions
  imports Rule_Made
begin

text \<open>
  The actions of DNS rules: what \<open>validateNoNestedDNSRuleActions\<close> (\<open>rule_nested_action.go\<close>) accepts and what is
  known of a rule that \<open>NewDNSRule\<close> (\<open>rule_dns.go\<close>) made.
\<close>

text \<open>All rules inside a rule, at any depth.\<close>

fun below :: "dns_rule \<Rightarrow> dns_rule list" where
  "below (DDefault o' a) = []"
| "below (DLogical mode rules invert a) = concat (map (\<lambda>r. r # below r) rules)"
| "below (DUnknown type) = []"

abbreviation bare :: "dns_rule \<Rightarrow> bool" where
  "bare r \<equiv> dns_action_of r = no_action"

lemma first_error_None: "first_error i es = None \<longleftrightarrow> list_all (\<lambda>e. e = None) es"
  by (induction es arbitrary: i) (auto split: option.splits)

lemma nested_checked: "validateNoNestedDNSRuleActions True r = None \<longleftrightarrow> bare r \<and> list_all bare (below r)"
proof (induction r)
  case (DLogical mode rules invert a)
  have "list_all (\<lambda>r. validateNoNestedDNSRuleActions True r = None) rules \<longleftrightarrow>
      list_all bare (below (DLogical mode rules invert a))"
    using DLogical.IH by (auto simp: list_all_iff)
  then show ?case by (auto simp: dnsRuleHasConfiguredAction_def first_error_None list.pred_map comp_def)
qed (simp_all add: dnsRuleHasConfiguredAction_def)

lemma actions_checked: "validateNoNestedDNSRuleActions False r = None \<longleftrightarrow> list_all bare (below r)"
proof (cases r)
  case (DLogical mode rules invert a)
  then show ?thesis by (auto simp: first_error_None nested_checked list_all_iff)
qed simp_all

text \<open>What is left of a call of \<open>NewDNSRule\<close> that returned a rule.\<close>

lemma made_default:
  assumes "NewDNSRule l checkServer legacyDNSMode (DDefault o' a) = Inr x"
  shows "check_server checkServer a = None" "a_Race a \<longrightarrow> IsEnabled (q_MatchResponse o')"
    "NewDefaultDNSRule l o' legacyDNSMode = Inr x"
  using assms by (simp_all split: if_splits option.splits)

lemma made_logical:
  assumes "NewDNSRule l checkServer legacyDNSMode (DLogical mode rules invert a) = Inr x"
  obtains md rs where "x = LogicalRule md rs invert" "check_server checkServer a = None"
    "a_Race a \<longrightarrow> MatchResponseTags x \<noteq> [] \<or> MatchResponseAnonymous x"
    "list_all2 (\<lambda>r y. validateNoNestedDNSRuleActions True r = None \<and> NewDNSRule l False legacyDNSMode r = Inr y) rules rs"
proof -
  let ?make = "\<lambda>r. case validateNoNestedDNSRuleActions True r of
      Some e \<Rightarrow> Inl e | None \<Rightarrow> NewDNSRule l False legacyDNSMode r"
  have "?make r = Inr y \<longleftrightarrow> validateNoNestedDNSRuleActions True r = None \<and> NewDNSRule l False legacyDNSMode r = Inr y" for r y
    by (simp split: option.splits)
  then have sub: "sub_rules 0 (map ?make rules) = Inr rs \<longleftrightarrow>
      list_all2 (\<lambda>r y. validateNoNestedDNSRuleActions True r = None \<and> NewDNSRule l False legacyDNSMode r = Inr y) rules rs" for rs
    by (simp only: sub_rules_map)
  from assms obtain md rs where "sub_rules 0 (map ?make rules) = Inr rs" "x = LogicalRule md rs invert"
    "check_server checkServer a = None" "\<not> (a_Race a \<and> MatchResponseTags x = [] \<and> \<not> MatchResponseAnonymous x)"
    by (auto simp: Let_def simp del: dns_IsValid.simps MatchResponseTags.simps MatchResponseAnonymous.simps
        split: option.splits if_splits sum.splits)
  then show ?thesis using that sub by blast
qed

lemma made_nested:
  assumes "NewDNSRule l checkServer legacyDNSMode r = Inr x"
  shows "list_all bare (below r)"
proof (cases r)
  case (DLogical mode rules invert a)
  from assms [unfolded DLogical] show ?thesis
  proof (rule made_logical)
    fix rs
    assume "list_all2 (\<lambda>r y. validateNoNestedDNSRuleActions True r = None \<and> NewDNSRule l False legacyDNSMode r = Inr y) rules rs"
    then have "\<forall>r\<in>set rules. validateNoNestedDNSRuleActions True r = None"
      by (auto simp: list_all2_conv_all_nth in_set_conv_nth)
    then show ?thesis by (auto simp: DLogical nested_checked list_all_iff)
  qed
qed simp_all

lemma made_race:
  assumes "NewDNSRule l checkServer legacyDNSMode r = Inr x" "a_Race (dns_action_of r)"
  shows "MatchResponseTags x \<noteq> [] \<or> MatchResponseAnonymous x"
proof (cases r)
  case (DDefault o' a)
  note made = made_default [OF assms(1) [unfolded DDefault]]
  have "IsEnabled (q_MatchResponse o')" using made(2) assms(2) DDefault by simp
  with made(3) show ?thesis by (auto simp: NewDefaultDNSRule_def split: sum.splits if_splits)
next
  case (DLogical mode rules invert a)
  from assms(1) [unfolded DLogical] show ?thesis by (rule made_logical) (use assms(2) DLogical in auto)
qed (use assms in simp)

lemma made_server:
  assumes "NewDNSRule l checkServer legacyDNSMode r = Inr x"
  shows "check_server checkServer (dns_action_of r) = None"
proof (cases r)
  case (DDefault o' a)
  with assms show ?thesis using made_default(1) by auto
next
  case (DLogical mode rules invert a)
  from assms [unfolded DLogical] show ?thesis by (rule made_logical) (simp add: DLogical)
qed (use assms in simp)

end
