(* ===== verification/Rule_Properties.thy ===== *)
theory Rule_Properties
  imports Rule_Sets Rule_Export_Complete Rule_Actions
begin

text \<open>
  The properties of routing rules, over the definitions of \<open>Rule_Match\<close>, \<open>Rule_Build\<close>, \<open>Rule_Options\<close>,
  \<open>Rule_Sets\<close>, \<open>Rule_Ranges\<close> and \<open>Rule_Export\<close>. Each one with a hypothesis is applied to a small configuration: a
  connection to 192.0.2.1, port 443, with the name \<open>example.org\<close>.
\<close>

section \<open>A small configuration\<close>

definition test_world :: world where
  "test_world = \<lparr>w_addrFromIP = (\<lambda>_. Addr4 0xC0000201), w_IsPublicAddr = (\<lambda>_. True), w_IsIP = (\<lambda>s. addr_valid (sa_Addr s)),
     w_IsIPv6 = (\<lambda>_. False), w_canonicalName = (\<lambda>s. s), w_typeString = (\<lambda>_. []), w_rcodeString = (\<lambda>_. []),
     w_filepathBase = (\<lambda>s. s), w_prefixString = (\<lambda>_. []), w_isAndroid = False, w_clashMode = None,
     w_defaultNetworkInterface = None, w_networkInterfaces = [], w_SSID = [], w_BSSID = [], w_interfaces = [],
     w_monitor = None\<rparr>"

definition test_address :: addr where
  "test_address = Addr4 0xC0000201"

definition test_socksaddr :: socksaddr where
  "test_socksaddr = \<lparr>sa_Addr = test_address, sa_Port = 443, sa_Fqdn = []\<rparr>"

definition test_ctx :: ctx where
  "test_ctx = \<lparr>m_Inbound = [], m_IPVersion = 4, m_Network = ''tcp'', m_Source = test_socksaddr,
     m_Destination = test_socksaddr, m_User = [], m_Outbound = [], m_Protocol = [], m_Domain = ''example.org'',
     m_Client = [], m_DestinationAddresses = [], m_DNSResponse = None, m_NamedDNSResponses = (\<lambda>_. None),
     m_MatchFromResponse = False, m_ProcessInfo = None, m_SourceMACAddress = None, m_SourceHostname = [],
     m_QueryType = 1, m_QueryClientSubnet = None, m_QueryDNSSEC = False, m_PreMatch = False,
     m_IPCIDRMatchSource = False, m_IPCIDRAcceptEmpty = False, m_SourceAddressMatch = False,
     m_SourcePortMatch = False, m_DestinationAddressMatch = False, m_DestinationPortMatch = False,
     m_DeferredGroups = 0, m_IgnoreDestinationIPCIDR = False, m_RuleSetDomainOnly = False,
     m_RuleSetDomainMatched = False\<rparr>"









lemma test_fresh: "fresh test_ctx" "\<not> m_IPCIDRMatchSource test_ctx" "\<not> m_IPCIDRAcceptEmpty test_ctx"
  by (simp_all add: fresh_def test_ctx_def)

definition test_libraries :: libraries where
  "test_libraries = \<lparr>l_newMatcher = (\<lambda>ds ss. Some (\<lambda>d. d \<in> set ds)), l_compile = (\<lambda>s. None), l_adGuard = (\<lambda>_ _. False),
     l_parsePrefix = (\<lambda>_. None), l_parseAddr = (\<lambda>s. if s = ''192.0.2.1'' then Some test_address else None),
     l_ipSet = (\<lambda>es. Some (\<lambda>a. Inr a \<in> set es)), l_parseMAC = (\<lambda>_. None), l_prefixString = (\<lambda>_. [])\<rparr>"

definition no_options :: headless_options where
  "no_options = \<lparr>q_Network = [], q_Domain = [], q_DomainSuffix = [], q_DomainKeyword = [], q_DomainRegex = [],
     q_SourceIPCIDR = [], q_IPCIDR = [], q_SourcePort = [], q_SourcePortRange = [], q_Port = [], q_PortRange = [],
     q_ProcessName = [], q_ProcessPath = [], q_ProcessPathRegex = [], q_PackageName = [], q_PackageNameRegex = [],
     q_NetworkType = [], q_NetworkIsExpensive = False, q_NetworkIsConstrained = False, q_WIFISSID = [],
     q_WIFIBSSID = [], q_NetworkInterfaceAddress = None, q_DefaultInterfaceAddress = [], q_Invert = False,
     q_HeadlessQueryType = [], q_DomainMatcher = None, q_SourceIPSet = None, q_IPSet = None, q_AdGuardDomain = [],
     q_AdGuardDomainMatcher = None\<rparr>"

definition test_options :: headless_options where
  "test_options = no_options\<lparr>q_IPCIDR := [''192.0.2.1''], q_Port := [443]\<rparr>"

definition test_conditions :: conditions where
  "test_conditions = add_item DestinationPort (PortItem [443] False)
     (add_item DestinationIPCIDR (IPCIDRItem (\<lambda>a. Inr a \<in> set [Inr test_address :: prefix + addr]) False ''ip_cidr=192.0.2.1'') no_conditions)"

lemma test_steps:
  "headless_steps test_libraries True test_options =
     replicate 6 Skip @ [Add DestinationIPCIDR (IPCIDRItem (\<lambda>a. Inr a \<in> set [Inr test_address :: prefix + addr]) False ''ip_cidr=192.0.2.1''),
       Skip, Skip, Add DestinationPort (PortItem [443] False)] @ replicate 14 Skip"
  by (simp add: headless_steps_def step_defs test_options_def no_options_def only_def either_step_def adding_def causing_def
      cidr_item_def NewIPCIDRItem_def test_libraries_def listed3_def cidr_name_def numeral_eq_Suc)

lemma test_made: "NewDefaultHeadlessRule test_libraries True test_options = Inr (DefaultRule test_conditions None False None)"
  unfolding NewDefaultHeadlessRule_def test_steps
  by (simp add: numeral_eq_Suc test_conditions_def test_options_def no_options_def)

lemma test_valid: "default_headless_IsValid test_options"
  by (simp add: default_headless_IsValid_def common_zero_def test_options_def)

lemma test_rule_set:
  "list_all2 (\<lambda>h x. NewHeadlessRule test_libraries True h = Inr x) [HDefault test_options]
     [DefaultRule test_conditions None False None]"
  using test_made test_valid by simp

section \<open>Matching\<close>



text \<open>C21: A match gives the context back as it was, up to the rule cache: no mode that a rule set or a logical
  rule sets for its own rules reaches the rules behind it.\<close>

theorem match_frame: "cor (snd (rule_Match w r m)) = cor m"
  using rule_frames [of w r] by (simp add: frames_def)

text \<open>C22: A rule set made from its options matches exactly when one of its rules is true.\<close>

theorem rule_set_match:
  assumes "list_all2 (\<lambda>h r. NewHeadlessRule l networkManager h = Inr r) hs rs" "fresh m"
  shows "fst (matchAnyHeadlessRule (map (rule_Match w) rs) m) = list_ex (\<lambda>r. holds w r m) rs"
  by (rule rules.matchAny_true [OF made_plain [OF assms(1)] assms(2)])

theorem rule_set_match_witness:
  "fst (matchAnyHeadlessRule [rule_Match test_world (DefaultRule test_conditions None False None)] test_ctx) =
     holds test_world (DefaultRule test_conditions None False None) test_ctx \<and>
   holds test_world (DefaultRule test_conditions None False None) test_ctx"
proof -
  have "holds test_world (DefaultRule test_conditions None False None) test_ctx" by code_simp
  with rule_set_match [OF test_rule_set test_fresh(1), of test_world] show ?thesis by simp
qed

section \<open>The early match of DNS rules\<close>






section \<open>Construction\<close>



text \<open>C33: The metadata of a rule set, computed from its options, tells truly whether one of the rules made from
  them has a condition on the address of the destination; \<open>WithAddressLimit\<close> relies on it.\<close>

theorem metadata_true:
  assumes "list_all2 (\<lambda>h r. NewHeadlessRule l networkManager h = Inr r) hs rs"
  shows "md_ContainsIPCIDRRule (buildRuleSetMetadata hs) = list_ex headless_has_cidr rs"
  using rule_set_made(2) [OF assms] by (simp add: buildRuleSetMetadata_def)

theorem metadata_true_witness:
  "md_ContainsIPCIDRRule (buildRuleSetMetadata [HDefault test_options]) \<and> headless_has_cidr (DefaultRule test_conditions None False None)"
  using metadata_true [OF test_rule_set] by (simp add: test_conditions_def)

text \<open>A rule of a rule set that passes the validity check asks for something: it is not one of the rules
  without items, which match every connection. The network manager must be there.\<close>

theorem valid_rule_asks:
  assumes "NewDefaultHeadlessRule l True o' = Inr (DefaultRule c rs invert response)" "default_headless_IsValid o'"
    and "q_NetworkInterfaceAddress o' \<noteq> Some []"
  shows "r_allItems c \<noteq> []"
  using assms by (rule headless_asks)

theorem valid_rule_asks_witness: "r_allItems test_conditions \<noteq> []"
  by (rule valid_rule_asks [OF test_made test_valid]) (simp add: test_options_def no_options_def)

section \<open>Texts\<close>

text \<open>C38: Port ranges written out as texts are read back as they were, at their full width.\<close>

theorem port_ranges_roundtrip:
  "NewPortRangeItem src (map range_text rs) = Inr (src, map range_text rs, rs)"
  by (simp add: NewPortRangeItem_def parse_range_texts)

text \<open>\<open>NormalizeWIFIBSSID\<close> is a normal form: to normalize once more changes nothing, so the BSSID of a rule
  and the one the platform reports are compared in the same form.\<close>

theorem bssid_normal_form: "NormalizeWIFIBSSID (NormalizeWIFIBSSID s) = NormalizeWIFIBSSID s"
  by (rule normalize_again)

section \<open>Rule sets a rule holds\<close>



section \<open>Port ranges of the export\<close>

text \<open>C36: \<open>normalizeRuleSetPortRanges\<close> gives a canonical form: two lists of ranges have the same one exactly when
  they cover the same ports, also at the ends of the range of ports.\<close>

theorem port_ranges_canonical:
  assumes "list_all valid_range xs" "list_all valid_range ys"
  shows "normalizeRuleSetPortRanges xs = normalizeRuleSetPortRanges ys \<longleftrightarrow> (\<forall>p. in_ranges p xs = in_ranges p ys)"
  using assms by (rule normalize_eq)

theorem port_ranges_canonical_witness:
  "normalizeRuleSetPortRanges [(1, 9), (10, 0xFFFF)] = [(1, 0xFFFF)] \<and>
   (\<forall>p. in_ranges p [(1, 9), (10, 0xFFFF)] = in_ranges p [(1, 0xFFFF)])"
proof -
  have n: "normalizeRuleSetPortRanges [(1, 9), (10, 0xFFFF)] = [(1, 0xFFFF)]" "normalizeRuleSetPortRanges [(1, 0xFFFF)] = [(1, 0xFFFF)]"
    by code_simp+
  have "list_all valid_range [(1, 9), (10, 0xFFFF)]" "list_all valid_range [(1, 0xFFFF)]" by (simp_all add: valid_range_def)
  from port_ranges_canonical [OF this] n show ?thesis by simp
qed

text \<open>C37: The intersection of two port conditions lets exactly the ports through that both let through, whether
  they are given or not.\<close>

theorem port_intersection_exact:
  "ports_allow (intersectRuleSetPortRanges l r) p = (ports_allow l p \<and> ports_allow r p)"
  by (rule intersect_ports_allow)

section \<open>The export of a rule set\<close>













text \<open>C35: The names of scopes tell scopes apart: two with the same name have the same transports and port ranges, so
  the addresses of different scopes are never put together.\<close>

theorem scope_key_injective:
  assumes "transports ns" "transports ns'" "ruleSetScopeKey ns rs = ruleSetScopeKey ns' rs'"
  shows "ns = ns' \<and> rs = rs'"
  using assms by (rule scope_key_inj)

theorem scope_key_injective_witness:
  "ruleSetScopeKey [''tcp''] (normalizeRuleSetPortRanges [(1, 10), (5, 20)]) = ruleSetScopeKey [''tcp''] [(1, 20)] \<and>
   normalizeRuleSetPortRanges [(1, 10), (5, 20)] = [(1, 20)]"
proof -
  have "transports [''tcp'']" by (simp add: transports_def)
  moreover have "ruleSetScopeKey [''tcp''] (normalizeRuleSetPortRanges [(1, 10), (5, 20)]) = ruleSetScopeKey [''tcp''] [(1, 20)]"
    by code_simp
  ultimately show ?thesis using scope_key_injective by blast
qed

text \<open>The clauses of an \<open>and\<close> never exceed the limit, however many alternatives its rules have.\<close>

theorem clauses_bounded:
  "length (fst (exportRuleSetClauses l none (HLogical ''and'' rules invert) path)) \<le> maxRuleSetExportClauses"
  using and_length [of "[no_clause]" none path 0 "map (exportRuleSetClauses l none) rules" "[]"]
  by (simp add: maxRuleSetExportClauses_def)

section \<open>Actions of DNS rules\<close>

text \<open>C32: The check of nested actions passes exactly when no rule inside the rule, at any depth, has an action.\<close>

theorem nested_actions_exact:
  "(validateNoNestedDNSRuleActions False r = None) = list_all (\<lambda>s. \<not> dnsRuleHasConfiguredAction s) (below r)"
  by (simp add: actions_checked dnsRuleHasConfiguredAction_def)

definition test_dns_options :: dns_options where
  "test_dns_options = \<lparr>q_Network = [], q_Domain = [], q_DomainSuffix = [], q_DomainKeyword = [], q_DomainRegex = [],
     q_SourceIPCIDR = [], q_IPCIDR = [], q_SourcePort = [], q_SourcePortRange = [], q_Port = [], q_PortRange = [],
     q_ProcessName = [], q_ProcessPath = [], q_ProcessPathRegex = [], q_PackageName = [], q_PackageNameRegex = [],
     q_NetworkType = [], q_NetworkIsExpensive = False, q_NetworkIsConstrained = False, q_WIFISSID = [],
     q_WIFIBSSID = [], q_NetworkInterfaceAddress = None, q_DefaultInterfaceAddress = [], q_Invert = False,
     q_Inbound = [''tun''], q_IPVersion = 0, q_AuthUser = [], q_Protocol = [], q_Geosite = [], q_SourceGeoIP = [],
     q_GeoIP = [], q_SourceIPIsPrivate = False, q_IPIsPrivate = False, q_User = [], q_UserID = [], q_ClashMode = [],
     q_InterfaceAddress = None, q_SourceMACAddress = [], q_SourceHostname = [], q_PreferredBy = [], q_RuleSet = [],
     q_RuleSetIPCIDRMatchSource = False, q_RulesetIPCIDRMatchSource = False, q_QueryType = [],
     q_QueryClientSubnet = [], q_QueryDNSSEC = False, q_IPAcceptAny = False, q_ResponseRcode = None,
     q_ResponseAnswer = [], q_ResponseNs = [], q_ResponseExtra = [], q_Outbound = [],
     q_RuleSetIPCIDRAcceptEmpty = False, q_RuleSetDomainOnly = False, q_MatchResponse = Some (True, ''first'')\<rparr>"

definition test_action :: dns_action where
  "test_action = no_action\<lparr>a_Race := True, a_RouteOptions := no_route_action\<lparr>ra_Server := ''dns''\<rparr>\<rparr>"

definition test_dns_rule :: dns_rule where
  "test_dns_rule = DLogical ''and'' [DDefault test_dns_options no_action] False test_action"

definition test_dns_made :: rule where
  "test_dns_made = LogicalRule ModeAnd
     [DefaultRule (add_item Items (InboundItem [''tun'']) no_conditions) None False (Some ''first'')] False"

lemma test_default_dns:
  "NewDefaultDNSRule test_libraries test_dns_options False =
     Inr (DefaultRule (add_item Items (InboundItem [''tun'']) no_conditions) None False (Some ''first''))"
  by (simp add: NewDefaultDNSRule_def dns_steps_def step_defs only_def ip_version_step_def geo_steps_def
      user_steps_def clash_step_def source_steps_def named_interface_step_def rule_set_step_def test_dns_options_def
      IsEnabled_def ResponseTag_def rule_set_item_def)

lemma test_dns: "NewDNSRule test_libraries True False test_dns_rule = Inr test_dns_made"
proof -
  have "default_dns_IsValid test_dns_options no_action" by (simp add: default_dns_IsValid_def test_dns_options_def)
  then show ?thesis
    by (simp add: test_dns_rule_def test_dns_made_def test_default_dns check_action_def check_server_def
        validateDNSRuleAction_def is_route_def client_subnet_clash_def test_action_def no_action_def no_route_action_def
        known_dns_action_def dnsRuleHasConfiguredAction_def Let_def)
qed

text \<open>C31: A DNS rule that was made at the top level has no action inside, names its server when its action needs one,
  and waits for a response when it is to race.\<close>

theorem dns_rule_checked:
  assumes "NewDNSRule l True legacyDNSMode r = Inr x"
  shows "list_all (\<lambda>s. \<not> dnsRuleHasConfiguredAction s) (below r) \<and>
    (is_route (dns_action_of r) \<longrightarrow> ra_Server (a_RouteOptions (dns_action_of r)) \<noteq> []) \<and>
    (a_Action (dns_action_of r) = ''evaluate'' \<longrightarrow> ra_Server (a_EvaluateOptions (dns_action_of r)) \<noteq> []) \<and>
    (a_Race (dns_action_of r) \<longrightarrow> MatchResponseTags x \<noteq> [] \<or> MatchResponseAnonymous x)"
  using made_nested [OF assms] made_server [OF assms] made_race [OF assms]
  by (simp add: dnsRuleHasConfiguredAction_def check_server_def split: if_splits)

theorem dns_rule_checked_witness:
  "list_all (\<lambda>s. \<not> dnsRuleHasConfiguredAction s) (below test_dns_rule) \<and> a_Race (dns_action_of test_dns_rule) \<and>
   MatchResponseTags test_dns_made \<noteq> []"
proof -
  have "a_Race (dns_action_of test_dns_rule)" by (simp add: test_dns_rule_def test_action_def)
  moreover have "\<not> MatchResponseAnonymous test_dns_made" by (simp add: test_dns_made_def)
  ultimately show ?thesis using dns_rule_checked [OF test_dns] by blast
qed

end
