(* ===== verification/Provider_Graph.thy ===== *)
theory Provider_Graph
  imports Rule_Text
begin

text \<open>
  The outbounds of a provider (\<open>adapter/provider/graph.go\<close>, \<open>adapter.go\<close>, \<open>override.go\<close>): which of them dial
  through which others, the removal of broken chains, the order in which they are created, the ones that an
  update has to replace, and the tags they are given. Options are values, so the copies that \<open>cloneOptions\<close>
  makes for rewriting are the values themselves. A recursion that Go leaves to its stack has a number of steps
  as its first argument; \<open>Provider_Sound\<close> shows that the number is never used up.
\<close>

section \<open>Outbounds and the tags they refer to\<close>

text \<open>
  Of a transport the type and the detour of the download; of options the dialer, if they have one
  (\<open>DialerOptionsWrapper\<close>), and for VLESS, VMess and Trojan the transport, which may be nil. \<open>t_Rest\<close>, \<open>d_Rest\<close>,
  \<open>o_Rest\<close> and the text beside the detour of a download are all other fields.
\<close>

record transport =
  t_Type :: string
  t_Download :: "(string \<times> string) option"
  t_Rest :: string

record dialer =
  d_Detour :: string
  d_Rest :: string

record dial_options =
  o_Dialer :: "dialer option"
  o_Transport :: "transport option option"
  o_Rest :: string

record outbound =
  ob_Type :: string
  ob_Tag :: string
  ob_Options :: dial_options

definition addDependency :: "(string \<rightharpoonup> string) \<Rightarrow> string list \<Rightarrow> string \<Rightarrow> string \<times> string list" where
  "addDependency tags dependencies tag =
     (case tags tag of
        None \<Rightarrow> (tag, dependencies)
      | Some qualified \<Rightarrow>
          if tag = [] then (tag, dependencies)
          else if qualified \<in> set dependencies then (qualified, dependencies)
          else (qualified, dependencies @ [qualified]))"

definition rewriteXHTTPDownloadDetour :: "(string \<rightharpoonup> string) \<Rightarrow> string list \<Rightarrow> transport option \<Rightarrow>
    transport option \<times> string list" where
  "rewriteXHTTPDownloadDetour tags dependencies transport =
     (case transport of
        None \<Rightarrow> (None, dependencies)
      | Some t \<Rightarrow>
          if t_Type t \<noteq> ''xhttp'' then (Some t, dependencies)
          else case t_Download t of
            None \<Rightarrow> (Some t, dependencies)
          | Some (detour, rest) \<Rightarrow>
              (case addDependency tags dependencies detour of (detour', dependencies') \<Rightarrow>
                 (Some (t\<lparr>t_Download := Some (detour', rest)\<rparr>), dependencies')))"

definition rewriteOutboundReferences :: "(string \<rightharpoonup> string) \<Rightarrow> dial_options \<Rightarrow> dial_options \<times> string list" where
  "rewriteOutboundReferences tags o' =
     (let (o1, dependencies) =
        (case o_Dialer o' of
           None \<Rightarrow> (o', [])
         | Some d \<Rightarrow>
             (case addDependency tags [] (d_Detour d) of (detour', ds) \<Rightarrow>
                (o'\<lparr>o_Dialer := Some (d\<lparr>d_Detour := detour'\<rparr>)\<rparr>, ds))) in
      case o_Transport o1 of
        None \<Rightarrow> (o1, dependencies)
      | Some transport \<Rightarrow>
          (case rewriteXHTTPDownloadDetour tags dependencies transport of (transport', ds) \<Rightarrow>
             (o1\<lparr>o_Transport := Some transport'\<rparr>, ds)))"

definition applyDefaultDetour :: "dial_options \<Rightarrow> string \<Rightarrow> dial_options" where
  "applyDefaultDetour o' detour =
     (if detour = [] then o'
      else case o_Dialer o' of
        None \<Rightarrow> o'
      | Some d \<Rightarrow> if d_Detour d \<noteq> [] then o' else o'\<lparr>o_Dialer := Some (d\<lparr>d_Detour := detour\<rparr>)\<rparr>)"

section \<open>Removing broken chains\<close>

fun by_tag :: "nat \<Rightarrow> outbound list \<Rightarrow> (string \<rightharpoonup> nat) \<Rightarrow> string \<rightharpoonup> nat" where
  "by_tag index [] m = m"
| "by_tag index (o' # os) m =
     by_tag (Suc index) os
       (if ob_Tag o' = [] \<or> m (ob_Tag o') \<noteq> None then m else m(ob_Tag o' \<mapsto> index))"

definition known_tags :: "outbound list \<Rightarrow> (string \<rightharpoonup> bool) \<Rightarrow> string \<rightharpoonup> string" where
  "known_tags outbounds invalidTags =
     fold (\<lambda>o' m. if ob_Tag o' = [] then m else m(ob_Tag o' \<mapsto> ob_Tag o')) outbounds
       (\<lambda>tag. if invalidTags tag = None then None else Some tag)"

datatype mark = Unvisited | Visiting | Valid | InvalidState

type_synonym marks = "mark list"

text \<open>The loop over the dependencies of the outbound \<open>index\<close>; \<open>visit\<close> is \<open>isValid\<close>.\<close>

fun valid_loop :: "(nat \<Rightarrow> marks \<Rightarrow> (bool \<times> marks) option) \<Rightarrow> (string \<rightharpoonup> bool) \<Rightarrow> (string \<rightharpoonup> nat) \<Rightarrow> nat \<Rightarrow>
    string list \<Rightarrow> marks \<Rightarrow> (bool \<times> marks) option" where
  "valid_loop visit invalidTags byTag index [] states = Some (True, states[index := Valid])"
| "valid_loop visit invalidTags byTag index (dependency # ds) states =
     (if invalidTags dependency = Some True then Some (False, states[index := InvalidState])
      else case byTag dependency of
        None \<Rightarrow> valid_loop visit invalidTags byTag index ds states
      | Some dependencyIndex \<Rightarrow>
          (case visit dependencyIndex states of
             None \<Rightarrow> None
           | Some (valid, states') \<Rightarrow>
               if valid then valid_loop visit invalidTags byTag index ds states'
               else Some (False, states'[index := InvalidState])))"

fun isValid :: "nat \<Rightarrow> (string \<rightharpoonup> bool) \<Rightarrow> (string \<rightharpoonup> nat) \<Rightarrow> string list list \<Rightarrow> nat \<Rightarrow> marks \<Rightarrow>
    (bool \<times> marks) option" where
  "isValid 0 invalidTags byTag dependencies index states = None"
| "isValid (Suc n) invalidTags byTag dependencies index states =
     (case states ! index of
        Visiting \<Rightarrow> Some (False, states)
      | InvalidState \<Rightarrow> Some (False, states)
      | Valid \<Rightarrow> Some (True, states)
      | Unvisited \<Rightarrow>
          valid_loop (isValid n invalidTags byTag dependencies) invalidTags byTag index (dependencies ! index)
            (states[index := Visiting]))"

fun filter_loop :: "(nat \<Rightarrow> marks \<Rightarrow> (bool \<times> marks) option) \<Rightarrow> nat \<Rightarrow> outbound list \<Rightarrow> marks \<Rightarrow>
    (outbound list \<times> outbound list) option" where
  "filter_loop visit index [] states = Some ([], [])"
| "filter_loop visit index (o' # os) states =
     (case visit index states of
        None \<Rightarrow> None
      | Some (valid, states') \<Rightarrow>
          (case filter_loop visit (Suc index) os states' of
             None \<Rightarrow> None
           | Some (result, skipped) \<Rightarrow> Some (if valid then (o' # result, skipped) else (result, o' # skipped))))"

definition FilterInvalidOutboundsWithSkipped :: "outbound list \<Rightarrow> (string \<rightharpoonup> bool) \<Rightarrow>
    (outbound list \<times> outbound list) option" where
  "FilterInvalidOutboundsWithSkipped outbounds invalidTags =
     (let knownTags = known_tags outbounds invalidTags;
          byTag = by_tag 0 outbounds Map.empty;
          dependencies = map (\<lambda>o'. snd (rewriteOutboundReferences knownTags (ob_Options o'))) outbounds in
      filter_loop (isValid (Suc (length outbounds)) invalidTags byTag dependencies) 0 outbounds
        (replicate (length outbounds) Unvisited))"

definition FilterInvalidOutbounds :: "outbound list \<Rightarrow> (string \<rightharpoonup> bool) \<Rightarrow> outbound list option" where
  "FilterInvalidOutbounds outbounds invalidTags =
     map_option fst (FilterInvalidOutboundsWithSkipped outbounds invalidTags)"

section \<open>The order of creation\<close>

record preparedOutbound =
  pr_source :: outbound
  pr_runtime :: outbound
  pr_tag :: string
  pr_dependencies :: "string list"
  pr_position :: nat

definition no_outbound :: outbound where
  "no_outbound = \<lparr>ob_Type = [], ob_Tag = [], ob_Options = \<lparr>o_Dialer = None, o_Transport = None, o_Rest = []\<rparr>\<rparr>"

definition no_prepared :: preparedOutbound where
  "no_prepared = \<lparr>pr_source = no_outbound, pr_runtime = no_outbound, pr_tag = [], pr_dependencies = [], pr_position = 0\<rparr>"

datatype provider_error = Circular string | MissingPattern nat | EmptyPattern nat | PatchFailed string

type_synonym sorting = "(string \<Rightarrow> nat) \<times> preparedOutbound list"

definition prepared_by_tag :: "preparedOutbound list \<Rightarrow> string \<rightharpoonup> preparedOutbound" where
  "prepared_by_tag outbounds = fold (\<lambda>x m. m(pr_tag x \<mapsto> x)) outbounds Map.empty"

fun visit_loop :: "(string \<Rightarrow> sorting \<Rightarrow> (provider_error + sorting) option) \<Rightarrow> (string \<rightharpoonup> preparedOutbound) \<Rightarrow>
    string list \<Rightarrow> sorting \<Rightarrow> (provider_error + sorting) option" where
  "visit_loop visit byTag [] s = Some (Inr s)"
| "visit_loop visit byTag (dependency # ds) s =
     (if byTag dependency = None then visit_loop visit byTag ds s
      else case visit dependency s of
        None \<Rightarrow> None
      | Some (Inl e) \<Rightarrow> Some (Inl e)
      | Some (Inr s') \<Rightarrow> visit_loop visit byTag ds s')"

fun visit_outbound :: "nat \<Rightarrow> (string \<rightharpoonup> preparedOutbound) \<Rightarrow> string \<Rightarrow> sorting \<Rightarrow> (provider_error + sorting) option" where
  "visit_outbound 0 byTag tag s = None"
| "visit_outbound (Suc n) byTag tag (state, result) =
     (if state tag = 1 then Some (Inl (Circular tag))
      else if state tag = 2 then Some (Inr (state, result))
      else
        let outbound = (case byTag tag of None \<Rightarrow> no_prepared | Some x \<Rightarrow> x) in
        case visit_loop (visit_outbound n byTag) byTag (pr_dependencies outbound) (state(tag := 1), result) of
          None \<Rightarrow> None
        | Some (Inl e) \<Rightarrow> Some (Inl e)
        | Some (Inr (state', result')) \<Rightarrow> Some (Inr (state'(tag := 2), result' @ [outbound])))"

fun sort_loop :: "(string \<Rightarrow> sorting \<Rightarrow> (provider_error + sorting) option) \<Rightarrow> preparedOutbound list \<Rightarrow> sorting \<Rightarrow>
    (provider_error + preparedOutbound list) option" where
  "sort_loop visit [] s = Some (Inr (snd s))"
| "sort_loop visit (outbound # outbounds) s =
     (case visit (pr_tag outbound) s of
        None \<Rightarrow> None
      | Some (Inl e) \<Rightarrow> Some (Inl e)
      | Some (Inr s') \<Rightarrow> sort_loop visit outbounds s')"

definition sortOutbounds :: "preparedOutbound list \<Rightarrow> (provider_error + preparedOutbound list) option" where
  "sortOutbounds outbounds =
     sort_loop (visit_outbound (Suc (length outbounds)) (prepared_by_tag outbounds)) outbounds (\<lambda>_. 0, [])"

definition qualify :: "string \<Rightarrow> outbound list \<Rightarrow> string \<rightharpoonup> string" where
  "qualify providerTag outbounds =
     fold (\<lambda>o' m. if ob_Tag o' = [] then m else m(ob_Tag o' \<mapsto> providerTag @ ''/'' @ ob_Tag o')) outbounds Map.empty"

definition prepare_one :: "string \<Rightarrow> (string \<rightharpoonup> string) \<Rightarrow> string \<Rightarrow> nat \<Rightarrow> outbound \<Rightarrow> preparedOutbound" where
  "prepare_one providerTag tags outboundDetour index source =
     (let tag = (case tags (ob_Tag source) of None \<Rightarrow> [] | Some qualified \<Rightarrow> qualified);
          tag' = (if tag = [] then providerTag @ ''/Node #'' @ dec (index + 1) else tag);
          (options, dependencies) = rewriteOutboundReferences tags (applyDefaultDetour (ob_Options source) outboundDetour) in
      \<lparr>pr_source = source, pr_runtime = source\<lparr>ob_Tag := tag', ob_Options := options\<rparr>, pr_tag = tag',
       pr_dependencies = dependencies, pr_position = index\<rparr>)"

definition prepared_all :: "string \<Rightarrow> outbound list \<Rightarrow> string \<Rightarrow> preparedOutbound list" where
  "prepared_all providerTag outbounds outboundDetour =
     map (\<lambda>(index, source). prepare_one providerTag (qualify providerTag outbounds) outboundDetour index source)
       (enumerate 0 outbounds)"

definition prepareOutbounds :: "string \<Rightarrow> outbound list \<Rightarrow> string \<Rightarrow> (provider_error + preparedOutbound list) option" where
  "prepareOutbounds providerTag outbounds outboundDetour = sortOutbounds (prepared_all providerTag outbounds outboundDetour)"

definition sourceOrder :: "preparedOutbound list \<Rightarrow> preparedOutbound list" where
  "sourceOrder outbounds = sort_key pr_position outbounds"

section \<open>What an update replaces\<close>

definition affected_first :: "preparedOutbound list \<Rightarrow> preparedOutbound list \<Rightarrow> string \<Rightarrow> bool" where
  "affected_first oldOutbounds newOutbounds tag =
     (case prepared_by_tag oldOutbounds tag of
        None \<Rightarrow> prepared_by_tag newOutbounds tag \<noteq> None
      | Some oldOutbound \<Rightarrow>
          (case prepared_by_tag newOutbounds tag of
             None \<Rightarrow> True
           | Some newOutbound \<Rightarrow> pr_source oldOutbound \<noteq> pr_source newOutbound))"

fun affected_pass :: "preparedOutbound list \<Rightarrow> (string \<Rightarrow> bool) \<Rightarrow> bool \<Rightarrow> (string \<Rightarrow> bool) \<times> bool" where
  "affected_pass [] affected changed = (affected, changed)"
| "affected_pass (outbound # graph) affected changed =
     (if \<not> affected (pr_tag outbound) \<and> list_ex affected (pr_dependencies outbound)
      then affected_pass graph (affected(pr_tag outbound := True)) True
      else affected_pass graph affected changed)"

definition missingDependency :: "preparedOutbound \<Rightarrow> (string \<Rightarrow> bool) \<Rightarrow> (string \<Rightarrow> bool) \<Rightarrow> string" where
  "missingDependency outbound invalid loaded =
     (case find (\<lambda>dependency. invalid dependency \<or> \<not> loaded dependency) (pr_dependencies outbound) of
        None \<Rightarrow> []
      | Some dependency \<Rightarrow> dependency)"

lemma pass_grows: "affected t \<Longrightarrow> fst (affected_pass graph affected changed) t"
  by (induction graph affected changed rule: affected_pass.induct) auto

lemma pass_changes:
  "snd (affected_pass graph affected changed) \<Longrightarrow> \<not> changed \<Longrightarrow>
   \<exists>x\<in>set graph. \<not> affected (pr_tag x) \<and> fst (affected_pass graph affected changed) (pr_tag x)"
proof (induction graph affected changed rule: affected_pass.induct)
  case (2 outbound graph affected changed)
  show ?case
  proof (cases "\<not> affected (pr_tag outbound) \<and> list_ex affected (pr_dependencies outbound)")
    case True
    then show ?thesis by (auto intro: pass_grows)
  next
    case False
    then show ?thesis using 2 by auto
  qed
qed simp

lemma filter_shrinks:
  assumes "\<And>x. x \<in> set xs \<Longrightarrow> Q x \<Longrightarrow> P x" "x \<in> set xs" "P x" "\<not> Q x"
  shows "length (filter Q xs) < length (filter P xs)"
proof -
  have "filter Q xs = filter Q (filter P xs)" using assms(1) by (auto intro!: filter_cong simp: filter_filter)
  moreover have "length (filter Q (filter P xs)) < length (filter P xs)"
    using assms(2-4) by (intro length_filter_less [of x]) auto
  ultimately show ?thesis by simp
qed

function affected_loop :: "preparedOutbound list \<Rightarrow> (string \<Rightarrow> bool) \<Rightarrow> string \<Rightarrow> bool" where
  "affected_loop graph affected =
     (case affected_pass graph affected False of (affected', changed) \<Rightarrow>
        if changed then affected_loop graph affected' else affected')"
  by pat_completeness auto
termination
proof (relation "measure (\<lambda>(graph, affected). length (filter (\<lambda>x. \<not> affected (pr_tag x)) graph))", goal_cases)
  case (2 graph affected affected' changed)
  then have c: "affected' = fst (affected_pass graph affected False)" "snd (affected_pass graph affected False)"
    by (simp_all add: 2(1) [symmetric])
  from pass_changes [OF c(2)] obtain y where "y \<in> set graph" "\<not> affected (pr_tag y)" "affected' (pr_tag y)"
    using c(1) by blast
  moreover have "affected (pr_tag z) \<Longrightarrow> affected' (pr_tag z)" for z using c(1) pass_grows by simp
  ultimately have "length (filter (\<lambda>x. \<not> affected' (pr_tag x)) graph) < length (filter (\<lambda>x. \<not> affected (pr_tag x)) graph)"
    by (intro filter_shrinks [of _ _ _ y]) blast+
  then show ?case by simp
qed simp

declare affected_loop.simps [simp del]

definition affectedOutbounds :: "preparedOutbound list \<Rightarrow> preparedOutbound list \<Rightarrow> string \<Rightarrow> bool" where
  "affectedOutbounds oldOutbounds newOutbounds =
     affected_loop (oldOutbounds @ newOutbounds) (affected_first oldOutbounds newOutbounds)"

end
