(* ===== verification/Provider_Sound.thy ===== *)
theory Provider_Sound
  imports Provider_Graph
begin

text \<open>
  What the functions of \<open>Provider_Graph\<close> compute: the references of an outbound, the outbounds whose chains end
  (\<open>grounded\<close>), the order in which the ones that others dial through come first, and the outbounds an update
  reaches. Both searches return within the steps they are given.
\<close>

section \<open>References\<close>

definition download_refs :: "transport option \<Rightarrow> string list" where
  "download_refs t =
     (case t of
        None \<Rightarrow> []
      | Some x \<Rightarrow> if t_Type x = ''xhttp'' then (case t_Download x of None \<Rightarrow> [] | Some (detour, rest) \<Rightarrow> [detour]) else [])"

definition refs :: "dial_options \<Rightarrow> string list" where
  "refs o' =
     (case o_Dialer o' of None \<Rightarrow> [] | Some d \<Rightarrow> [d_Detour d]) @
     (case o_Transport o' of None \<Rightarrow> [] | Some t \<Rightarrow> download_refs t)"

definition renamed :: "(string \<rightharpoonup> string) \<Rightarrow> string \<Rightarrow> string" where
  "renamed tags r = (if r = [] then r else case tags r of None \<Rightarrow> r | Some q \<Rightarrow> q)"

lemma addDependency_eq:
  "addDependency tags ds r = (renamed tags r, if r \<noteq> [] \<and> tags r \<noteq> None \<and> renamed tags r \<notin> set ds then ds @ [renamed tags r] else ds)"
  by (auto simp: addDependency_def renamed_def split: option.splits)

lemmas rewrite_defs = rewriteOutboundReferences_def rewriteXHTTPDownloadDetour_def addDependency_eq refs_def download_refs_def

lemma addDependency_deps:
  "q \<in> set (snd (addDependency tags ds r)) \<longleftrightarrow> q \<in> set ds \<or> r \<noteq> [] \<and> tags r = Some q"
  by (auto simp: addDependency_eq renamed_def split: option.splits)

lemma download_deps:
  "q \<in> set (snd (rewriteXHTTPDownloadDetour tags ds t)) \<longleftrightarrow>
   q \<in> set ds \<or> (\<exists>r\<in>set (download_refs t). r \<noteq> [] \<and> tags r = Some q)"
proof (cases t)
  case (Some x)
  consider "t_Type x \<noteq> ''xhttp''" | "t_Type x = ''xhttp''" "t_Download x = None"
    | d r where "t_Type x = ''xhttp''" "t_Download x = Some (d, r)" by (metis option.exhaust surj_pair)
  then show ?thesis
    by cases (simp_all add: Some rewriteXHTTPDownloadDetour_def download_refs_def addDependency_deps case_prod_beta)
qed (simp add: rewriteXHTTPDownloadDetour_def download_refs_def)

lemma rewrite_deps:
  "q \<in> set (snd (rewriteOutboundReferences tags o')) \<longleftrightarrow> (\<exists>r\<in>set (refs o'). r \<noteq> [] \<and> tags r = Some q)"
  by (cases "o_Dialer o'"; cases "o_Transport o'")
    (auto simp: rewriteOutboundReferences_def refs_def case_prod_beta Let_def addDependency_deps download_deps)

lemma rewrite_refs: "refs (fst (rewriteOutboundReferences tags o')) = map (renamed tags) (refs o')"
  by (auto simp: rewrite_defs Let_def split: option.splits if_splits prod.splits)

lemma rewrite_identity:
  assumes "\<And>t q. tags t = Some q \<Longrightarrow> q = t"
  shows "fst (rewriteOutboundReferences tags o') = o'"
proof -
  have "renamed tags r = r" for r using assms by (auto simp: renamed_def split: option.splits)
  then show ?thesis by (auto simp: rewrite_defs Let_def split: option.splits if_splits prod.splits)
qed

lemma known_tags_eq:
  "known_tags os invalid t = (if (t \<noteq> [] \<and> t \<in> ob_Tag ` set os) \<or> invalid t \<noteq> None then Some t else None)"
proof -
  have "fold (\<lambda>o' m. if ob_Tag o' = [] then m else m(ob_Tag o' \<mapsto> ob_Tag o')) os m t =
      (if t \<noteq> [] \<and> t \<in> ob_Tag ` set os then Some t else m t)" for m
    by (induction os arbitrary: m) auto
  then show ?thesis by (simp add: known_tags_def)
qed

lemma qualify_eq: "qualify p os t = (if t \<noteq> [] \<and> t \<in> ob_Tag ` set os then Some (p @ ''/'' @ t) else None)"
proof -
  have "fold (\<lambda>o' m. if ob_Tag o' = [] then m else m(ob_Tag o' \<mapsto> p @ ''/'' @ ob_Tag o')) os m t =
      (if t \<noteq> [] \<and> t \<in> ob_Tag ` set os then Some (p @ ''/'' @ t) else m t)" for m
    by (induction os arbitrary: m) auto
  then show ?thesis by (simp add: qualify_def)
qed

lemma by_tag_keeps: "m t = Some i \<Longrightarrow> by_tag n os m t = Some i"
proof (induction n os m rule: by_tag.induct)
  case (2 n o' os m)
  then show ?case by (cases "t = ob_Tag o'") simp_all
qed simp

lemma by_tag_Some:
  "by_tag n os m t = Some i \<Longrightarrow> m t = None \<Longrightarrow> n \<le> i \<and> i < n + length os \<and> ob_Tag (os ! (i - n)) = t \<and> t \<noteq> []"
proof (induction n os m rule: by_tag.induct)
  case (2 n o' os m)
  let ?m = "if ob_Tag o' = [] \<or> m (ob_Tag o') \<noteq> None then m else m(ob_Tag o' \<mapsto> n)"
  show ?case
  proof (cases "?m t")
    case None
    with 2 have "Suc n \<le> i" "i < Suc n + length os" "ob_Tag (os ! (i - Suc n)) = t" "t \<noteq> []" by auto
    then show ?thesis by (auto simp: nth_Cons')
  next
    case (Some j)
    then have "j = i" "j = n" "ob_Tag o' = t" "t \<noteq> []"
      using by_tag_keeps [of ?m t j "Suc n" os] 2(2,3) by (auto split: if_splits)
    then show ?thesis by simp
  qed
qed simp

lemma by_tag_None: "by_tag n os m t = None \<longleftrightarrow> m t = None \<and> (t = [] \<or> t \<notin> ob_Tag ` set os)"
  by (induction n os m rule: by_tag.induct) auto

section \<open>Chains that end\<close>

inductive grounded :: "('a \<Rightarrow> bool) \<Rightarrow> ('a \<times> 'a) set \<Rightarrow> 'a \<Rightarrow> bool" for ok edges where
  "ok x \<Longrightarrow> (\<And>y. (x, y) \<in> edges \<Longrightarrow> grounded ok edges y) \<Longrightarrow> grounded ok edges x"

lemma grounded_iff: "grounded ok edges x \<longleftrightarrow> ok x \<and> (\<forall>y. (x, y) \<in> edges \<longrightarrow> grounded ok edges y)"
  by (subst grounded.simps) auto

lemma grounded_acyclic: "grounded ok edges x \<Longrightarrow> (x, x) \<notin> edges\<^sup>+"
proof (induction rule: grounded.induct)
  case (1 x)
  show ?case
  proof
    assume "(x, x) \<in> edges\<^sup>+"
    then obtain y where "(x, y) \<in> edges" "(y, x) \<in> edges\<^sup>*" by (meson tranclD)
    then have "(y, y) \<in> edges\<^sup>+" by (meson rtrancl_into_trancl1)
    with 1 \<open>(x, y) \<in> edges\<close> show False by blast
  qed
qed

lemma grounded_reaches: "(x, y) \<in> edges\<^sup>* \<Longrightarrow> grounded ok edges x \<Longrightarrow> grounded ok edges y"
proof (induction rule: rtrancl_induct)
  case (step y z)
  then show ?case using grounded_iff [of ok edges y] by blast
qed

section \<open>The search for broken chains\<close>

definition unvisited :: "marks \<Rightarrow> nat" where
  "unvisited st = card {i. i < length st \<and> st ! i = Unvisited}"

text \<open>The marks are right, and the outbounds in \<open>S\<close> are the ones being visited.\<close>

definition marks_ok :: "(nat \<Rightarrow> bool) \<Rightarrow> nat \<Rightarrow> nat set \<Rightarrow> marks \<Rightarrow> bool" where
  "marks_ok good n S st \<longleftrightarrow> length st = n \<and>
     (\<forall>i<n. (st ! i = Visiting \<longleftrightarrow> i \<in> S) \<and> (st ! i = Valid \<longrightarrow> good i) \<and> (st ! i = InvalidState \<longrightarrow> \<not> good i))"

lemma unvisited_update: "m \<noteq> Unvisited \<Longrightarrow> unvisited (st[i := m]) \<le> unvisited st"
  unfolding unvisited_def
proof (rule card_mono)
  assume "m \<noteq> Unvisited"
  then show "{j. j < length (st[i := m]) \<and> st[i := m] ! j = Unvisited} \<subseteq> {j. j < length st \<and> st ! j = Unvisited}"
    by (cases "i < length st") (auto simp: nth_list_update split: if_splits)
qed simp

lemma unvisited_visit:
  assumes "i < length st" "st ! i = Unvisited"
  shows "unvisited (st[i := Visiting]) < unvisited st"
  unfolding unvisited_def
proof (rule psubset_card_mono)
  show "{j. j < length (st[i := Visiting]) \<and> st[i := Visiting] ! j = Unvisited} \<subset> {j. j < length st \<and> st ! j = Unvisited}"
    using assms by (auto simp: nth_list_update split: if_splits)
qed simp

lemma marks_enter: "marks_ok good n S st \<Longrightarrow> i < n \<Longrightarrow> marks_ok good n (insert i S) (st[i := Visiting])"
  by (auto simp: marks_ok_def nth_list_update)

lemma marks_leave:
  "marks_ok good n S st \<Longrightarrow> i < n \<Longrightarrow> marks_ok good n (S - {i}) (st[i := (if good i then Valid else InvalidState)])"
  by (auto simp: marks_ok_def nth_list_update)

text \<open>A function that decides, for an outbound that all visited ones lead to, whether its chains end.\<close>

definition decides :: "(nat \<Rightarrow> marks \<Rightarrow> (bool \<times> marks) option) \<Rightarrow> (nat \<Rightarrow> bool) \<Rightarrow> (nat \<times> nat) set \<Rightarrow> nat \<Rightarrow> nat \<Rightarrow> bool" where
  "decides visit good edges n k \<longleftrightarrow>
     (\<forall>j st S. j < n \<longrightarrow> marks_ok good n S st \<longrightarrow> (\<forall>v\<in>S. (v, j) \<in> edges\<^sup>+) \<longrightarrow> unvisited st < k \<longrightarrow>
        (\<exists>st'. visit j st = Some (good j, st') \<and> marks_ok good n S st' \<and> unvisited st' \<le> unvisited st))"

lemma decidesD:
  assumes "decides visit good edges n k" "j < n" "marks_ok good n S st" "\<And>v. v \<in> S \<Longrightarrow> (v, j) \<in> edges\<^sup>+" "unvisited st < k"
  obtains st' where "visit j st = Some (good j, st')" "marks_ok good n S st'" "unvisited st' \<le> unvisited st"
  using assms unfolding decides_def by blast

definition leads :: "(string \<rightharpoonup> bool) \<Rightarrow> (string \<rightharpoonup> nat) \<Rightarrow> (nat \<Rightarrow> bool) \<Rightarrow> string \<Rightarrow> bool" where
  "leads invalid byTag good d \<longleftrightarrow> invalid d \<noteq> Some True \<and> (\<forall>j. byTag d = Some j \<longrightarrow> good j)"

lemma marks_fail:
  assumes "\<not> good i" "i < n" "marks_ok good n S st'" "unvisited st' \<le> u"
  shows "\<exists>st''. Some (False, st'[i := InvalidState]) = Some (good i, st'') \<and> marks_ok good n (S - {i}) st'' \<and> unvisited st'' \<le> u"
  using marks_leave [OF assms(3,2)] assms(1,4) unvisited_update [of InvalidState st' i] by auto

lemma valid_loop_decides:
  assumes "decides visit good edges n k" "i < n"
  shows "marks_ok good n S st \<Longrightarrow> unvisited st < k \<Longrightarrow>
    (\<forall>v\<in>S. \<forall>d\<in>set ds. \<forall>j. byTag d = Some j \<longrightarrow> j < n \<and> (v, j) \<in> edges\<^sup>+) \<Longrightarrow>
    i \<in> S \<Longrightarrow> good i = list_all (leads invalid byTag good) ds \<Longrightarrow>
    \<exists>st'. valid_loop visit invalid byTag i ds st = Some (good i, st') \<and> marks_ok good n (S - {i}) st' \<and> unvisited st' \<le> unvisited st"
proof (induction ds arbitrary: st)
  case Nil
  then show ?case using marks_leave [OF Nil.prems(1) assms(2)] by (simp add: unvisited_update)
next
  case (Cons d ds)
  note fails = marks_fail [OF _ assms(2)]
  have reach: "\<forall>v\<in>S. \<forall>d\<in>set ds. \<forall>j. byTag d = Some j \<longrightarrow> j < n \<and> (v, j) \<in> edges\<^sup>+" using Cons.prems(3) by simp
  have rest: "good i = list_all (leads invalid byTag good) ds" if "leads invalid byTag good d" using that Cons.prems(5) by simp
  show ?case
  proof (cases "invalid d = Some True")
    case True
    then have "\<not> good i" using Cons.prems(5) by (simp add: leads_def)
    with fails [OF this Cons.prems(1) le_refl] True show ?thesis by simp
  next
    case False
    show ?thesis
    proof (cases "byTag d")
      case None
      with False have "leads invalid byTag good d" by (simp add: leads_def)
      from Cons.IH [OF Cons.prems(1,2) reach Cons.prems(4) rest [OF this]] None False show ?thesis by simp
    next
      case (Some j)
      have j: "j < n" "\<And>v. v \<in> S \<Longrightarrow> (v, j) \<in> edges\<^sup>+" using Cons.prems(3,4) Some by auto
      obtain st' where st': "visit j st = Some (good j, st')" "marks_ok good n S st'" "unvisited st' \<le> unvisited st"
        using decidesD [OF assms(1) j(1) Cons.prems(1) j(2) Cons.prems(2)] by blast
      show ?thesis
      proof (cases "good j")
        case True
        with False Some have "leads invalid byTag good d" by (simp add: leads_def)
        from Cons.IH [OF st'(2) le_less_trans [OF st'(3) Cons.prems(2)] reach Cons.prems(4) rest [OF this]]
        show ?thesis using st'(1,3) Some False True by auto
      next
        case g: False
        then have "\<not> good i" using Some Cons.prems(5) by (simp add: leads_def)
        from fails [OF this st'(2,3)] st'(1) g Some False show ?thesis by simp
      qed
    qed
  qed
qed

lemma isValid_decides:
  assumes good: "\<And>i. i < n \<Longrightarrow> good i = list_all (leads invalid byTag good) (dependencies ! i)"
    and acyclic: "\<And>i. good i \<Longrightarrow> (i, i) \<notin> edges\<^sup>+"
    and edges: "\<And>i d j. i < n \<Longrightarrow> d \<in> set (dependencies ! i) \<Longrightarrow> byTag d = Some j \<Longrightarrow> j < n \<and> (i, j) \<in> edges"
  shows "decides (isValid k invalid byTag dependencies) good edges n k"
proof (induction k)
  case 0
  then show ?case by (simp add: decides_def)
next
  case (Suc k)
  show ?case unfolding decides_def
  proof (intro allI impI)
    fix j st S
    assume a: "j < n" "marks_ok good n S st" "\<forall>v\<in>S. (v, j) \<in> edges\<^sup>+" "unvisited st < Suc k"
    show "\<exists>st'. isValid (Suc k) invalid byTag dependencies j st = Some (good j, st') \<and> marks_ok good n S st' \<and> unvisited st' \<le> unvisited st"
    proof (cases "st ! j = Unvisited")
      case True
      have len: "j < length st" using a(1,2) by (simp add: marks_ok_def)
      have "j \<notin> S" using a(1,2) True by (auto simp: marks_ok_def)
      have less: "unvisited (st[j := Visiting]) < unvisited st" by (rule unvisited_visit [OF len True])
      have reach: "\<forall>v\<in>insert j S. \<forall>d\<in>set (dependencies ! j). \<forall>j'. byTag d = Some j' \<longrightarrow> j' < n \<and> (v, j') \<in> edges\<^sup>+"
        using edges [OF a(1)] a(3) by (auto intro: trancl_into_trancl)
      have "unvisited (st[j := Visiting]) < k" using less a(4) by simp
      from valid_loop_decides [OF Suc a(1) marks_enter [OF a(2,1)] this reach insertI1 good [OF a(1)]]
      show ?thesis using True less \<open>j \<notin> S\<close> by (auto intro: less_imp_le le_less_trans)
    next
      case False
      have "(j, j) \<in> edges\<^sup>+" if "st ! j = Visiting" using a that by (auto simp: marks_ok_def)
      then have "st ! j = Visiting \<Longrightarrow> \<not> good j" using acyclic by blast
      moreover have "st ! j = Valid \<Longrightarrow> good j" "st ! j = InvalidState \<Longrightarrow> \<not> good j"
        using a(1,2) by (auto simp: marks_ok_def)
      ultimately show ?thesis using a(2) False by (cases "st ! j") simp_all
    qed
  qed
qed

lemma filter_loop_decides:
  assumes "decides visit good edges n k"
  shows "marks_ok good n {} st \<Longrightarrow> unvisited st < k \<Longrightarrow> m + length os \<le> n \<Longrightarrow>
    filter_loop visit m os st = Some (nths os {i. good (m + i)}, nths os {i. \<not> good (m + i)})"
proof (induction os arbitrary: m st)
  case (Cons o' os)
  then have "m < n" by simp
  from decidesD [OF assms this Cons.prems(1) _ Cons.prems(2)] obtain st' where
    "visit m st = Some (good m, st')" "marks_ok good n {} st'" "unvisited st' \<le> unvisited st" by blast
  with Cons.IH [of st' "Suc m"] Cons.prems show ?case by (simp add: nths_Cons)
qed simp

text \<open>The outbounds an outbound dials through, by position, and those that dial through no invalid one.\<close>

definition dial_edges :: "outbound list \<Rightarrow> (nat \<times> nat) set" where
  "dial_edges os = {(i, j). i < length os \<and> (\<exists>r\<in>set (refs (ob_Options (os ! i))). by_tag 0 os Map.empty r = Some j)}"

definition dials_valid :: "outbound list \<Rightarrow> (string \<rightharpoonup> bool) \<Rightarrow> nat \<Rightarrow> bool" where
  "dials_valid os invalid i = (\<forall>r\<in>set (refs (ob_Options (os ! i))). r \<noteq> [] \<longrightarrow> invalid r \<noteq> Some True)"

definition usable :: "outbound list \<Rightarrow> (string \<rightharpoonup> bool) \<Rightarrow> nat \<Rightarrow> bool" where
  "usable os invalid = grounded (dials_valid os invalid) (dial_edges os)"

lemma usable_iff:
  assumes "i < length os"
  shows "usable os invalid i \<longleftrightarrow>
    (\<forall>r\<in>set (refs (ob_Options (os ! i))). r \<noteq> [] \<longrightarrow> leads invalid (by_tag 0 os Map.empty) (usable os invalid) r)"
proof -
  have "by_tag 0 os Map.empty [] = None" by (simp add: by_tag_None)
  then show ?thesis unfolding usable_def
    by (subst grounded_iff) (auto simp: dials_valid_def dial_edges_def leads_def assms)
qed

lemma filter_decided:
  "FilterInvalidOutboundsWithSkipped os invalid =
     Some (nths os {i. usable os invalid i}, nths os {i. \<not> usable os invalid i})"
proof -
  let ?n = "length os" and ?byTag = "by_tag 0 os Map.empty" and ?good = "usable os invalid"
  let ?deps = "map (\<lambda>o'. snd (rewriteOutboundReferences (known_tags os invalid) (ob_Options o'))) os"
  have known: "leads invalid ?byTag ?good r" if "known_tags os invalid r = None" "r \<noteq> []" for r
    using that by (auto simp: leads_def known_tags_eq by_tag_None [THEN iffD2] split: if_splits)
  have deps: "d \<in> set (?deps ! i) \<longleftrightarrow> d \<in> set (refs (ob_Options (os ! i))) \<and> d \<noteq> [] \<and> known_tags os invalid d \<noteq> None" if "i < ?n" for i d
    using that by (auto simp: rewrite_deps known_tags_eq split: if_splits)
  have "decides (isValid (Suc ?n) invalid ?byTag ?deps) ?good (dial_edges os) ?n (Suc ?n)"
  proof (rule isValid_decides)
    fix i assume i: "i < ?n"
    show "?good i = list_all (leads invalid ?byTag ?good) (?deps ! i)"
      unfolding usable_iff [OF i] list_all_iff Ball_def deps [OF i] using known by blast
    show "j < ?n \<and> (i, j) \<in> dial_edges os" if "d \<in> set (?deps ! i)" "?byTag d = Some j" for d j
      using that deps [OF i] by_tag_Some [OF that(2)] i by (auto simp: dial_edges_def)
  next
    show "?good i \<Longrightarrow> (i, i) \<notin> (dial_edges os)\<^sup>+" for i unfolding usable_def by (rule grounded_acyclic)
  qed
  moreover have "marks_ok ?good ?n {} (replicate ?n Unvisited)" by (simp add: marks_ok_def)
  moreover have "unvisited (replicate ?n Unvisited) \<le> ?n"
    unfolding unvisited_def by (rule order_trans [OF card_mono [of "{..<?n}"]]) auto
  ultimately show ?thesis
    unfolding FilterInvalidOutboundsWithSkipped_def Let_def
    using filter_loop_decides [of "isValid (Suc ?n) invalid ?byTag ?deps" ?good "dial_edges os" ?n "Suc ?n" _ 0 os] by simp
qed

end
