(* ===== verification/Provider_Order.thy ===== *)
theory Provider_Order
  imports Provider_Sound
begin

text \<open>
  The order of creation: \<open>sortOutbounds\<close> returns, with a circle of dependencies or with every outbound behind the
  ones it dials through. Then the outbounds an update replaces, and that the chains \<open>FilterInvalidOutbounds\<close>
  leaves can be put in order.
\<close>

section \<open>Sorting\<close>

definition sort_edges :: "(string \<rightharpoonup> preparedOutbound) \<Rightarrow> (string \<times> string) set" where
  "sort_edges byTag = {(t, d). \<exists>x. byTag t = Some x \<and> d \<in> set (pr_dependencies x) \<and> byTag d \<noteq> None}"

definition tags_of :: "preparedOutbound list \<Rightarrow> string set" where
  "tags_of xs = pr_tag ` set xs"

text \<open>Every outbound stands behind the ones it depends on.\<close>

definition in_order :: "(string \<rightharpoonup> preparedOutbound) \<Rightarrow> preparedOutbound list \<Rightarrow> bool" where
  "in_order byTag xs \<longleftrightarrow>
     (\<forall>i<length xs. \<forall>d\<in>set (pr_dependencies (xs ! i)). byTag d \<noteq> None \<longrightarrow> d \<in> tags_of (take i xs))"

lemma in_order_Nil: "in_order byTag []"
  by (simp add: in_order_def)

lemma in_order_snoc:
  "in_order byTag (xs @ [x]) \<longleftrightarrow>
   in_order byTag xs \<and> (\<forall>d\<in>set (pr_dependencies x). byTag d \<noteq> None \<longrightarrow> d \<in> tags_of xs)"
  by (auto simp: in_order_def nth_append less_Suc_eq)

definition sort_ok :: "(string \<rightharpoonup> preparedOutbound) \<Rightarrow> string set \<Rightarrow> sorting \<Rightarrow> bool" where
  "sort_ok byTag S s \<longleftrightarrow>
     (\<forall>t. (fst s t = 1 \<longleftrightarrow> t \<in> S) \<and> (fst s t = 2 \<longleftrightarrow> t \<in> tags_of (snd s))) \<and>
     distinct (map pr_tag (snd s)) \<and> (\<forall>x\<in>set (snd s). byTag (pr_tag x) = Some x) \<and> in_order byTag (snd s)"

definition remaining :: "(string \<rightharpoonup> preparedOutbound) \<Rightarrow> sorting \<Rightarrow> nat" where
  "remaining byTag s = card {t \<in> dom byTag. fst s t \<noteq> 1 \<and> fst s t \<noteq> 2}"

text \<open>What a visit gives: a circle, or the outbound and all sorted before in order.\<close>

definition sorted_to :: "(string \<rightharpoonup> preparedOutbound) \<Rightarrow> string set \<Rightarrow> sorting \<Rightarrow> string set \<Rightarrow> (provider_error + sorting) option \<Rightarrow> bool" where
  "sorted_to byTag S s T r \<longleftrightarrow>
     (\<exists>u. r = Some (Inl (Circular u)) \<and> (u, u) \<in> (sort_edges byTag)\<^sup>+) \<or>
     (\<exists>s'. r = Some (Inr s') \<and> sort_ok byTag S s' \<and> T \<union> tags_of (snd s) \<subseteq> tags_of (snd s'))"

definition sorts :: "(string \<Rightarrow> sorting \<Rightarrow> (provider_error + sorting) option) \<Rightarrow> (string \<rightharpoonup> preparedOutbound) \<Rightarrow> nat \<Rightarrow> bool" where
  "sorts visit byTag k \<longleftrightarrow>
     (\<forall>t s S. byTag t \<noteq> None \<longrightarrow> sort_ok byTag S s \<longrightarrow> (\<forall>v\<in>S. (v, t) \<in> (sort_edges byTag)\<^sup>+) \<longrightarrow> remaining byTag s < k \<longrightarrow>
        sorted_to byTag S s {t} (visit t s))"

lemma sortsD:
  assumes "sorts visit byTag k" "byTag t \<noteq> None" "sort_ok byTag S s" "\<forall>v\<in>S. (v, t) \<in> (sort_edges byTag)\<^sup>+" "remaining byTag s < k"
  shows "sorted_to byTag S s {t} (visit t s)"
  using assms unfolding sorts_def by blast

lemma remaining_mono:
  assumes "finite (dom byTag)" "sort_ok byTag S s" "sort_ok byTag S s'" "tags_of (snd s) \<subseteq> tags_of (snd s')"
  shows "remaining byTag s' \<le> remaining byTag s"
  unfolding remaining_def using assms by (intro card_mono) (auto simp: sort_ok_def)

lemma remaining_visit:
  assumes "finite (dom byTag)" "byTag t \<noteq> None" "st t \<noteq> 1" "st t \<noteq> 2"
  shows "remaining byTag (st(t := 1), xs) < remaining byTag (st, xs)"
  unfolding remaining_def using assms by (intro psubset_card_mono) auto

lemma sorted_to_cases:
  assumes "sorted_to byTag S s T r"
  obtains (circle) u where "r = Some (Inl (Circular u))" "(u, u) \<in> (sort_edges byTag)\<^sup>+"
  | (sorted) st xs where "r = Some (Inr (st, xs))" "sort_ok byTag S (st, xs)" "T \<subseteq> tags_of xs" "tags_of (snd s) \<subseteq> tags_of xs"
  using assms unfolding sorted_to_def by fastforce

lemma sorted_to_further:
  assumes "sorted_to byTag S s' T r" "U \<subseteq> tags_of (snd s')" "tags_of (snd s) \<subseteq> tags_of (snd s')"
  shows "sorted_to byTag S s (U \<union> T) r"
  using assms unfolding sorted_to_def by blast

lemma visit_loop_sorts:
  assumes "finite (dom byTag)" "sorts visit byTag k"
  shows "sort_ok byTag S s \<Longrightarrow> remaining byTag s < k \<Longrightarrow>
    (\<forall>v\<in>S. \<forall>d\<in>set ds. byTag d \<noteq> None \<longrightarrow> (v, d) \<in> (sort_edges byTag)\<^sup>+) \<Longrightarrow>
    sorted_to byTag S s {d \<in> set ds. byTag d \<noteq> None} (visit_loop visit byTag ds s)"
proof (induction ds arbitrary: s)
  case Nil
  then show ?case by (simp add: sorted_to_def)
next
  case (Cons d ds)
  let ?T = "\<lambda>ds. {e \<in> set ds. byTag e \<noteq> None}"
  show ?case
  proof (cases "byTag d")
    case None
    then have "?T (d # ds) = ?T ds" by auto
    with Cons None show ?thesis by simp
  next
    case (Some x)
    then have T: "?T (d # ds) = {d} \<union> ?T ds" by auto
    have "sorted_to byTag S s {d} (visit d s)"
      using sortsD [OF assms(2) _ Cons.prems(1) _ Cons.prems(2)] Some Cons.prems(3) by simp
    then show ?thesis
    proof (cases rule: sorted_to_cases)
      case circle
      then show ?thesis using Some by (simp add: sorted_to_def)
    next
      case (sorted st xs)
      have "remaining byTag (st, xs) \<le> remaining byTag s" using remaining_mono [OF assms(1) Cons.prems(1) sorted(2)] sorted(4) by simp
      then have "sorted_to byTag S (st, xs) (?T ds) (visit_loop visit byTag ds (st, xs))"
        using Cons.IH [OF sorted(2)] Cons.prems(2,3) by simp
      then have "sorted_to byTag S s ({d} \<union> ?T ds) (visit_loop visit byTag ds (st, xs))"
        by (rule sorted_to_further [where s' = "(st, xs)"]) (use sorted(3,4) in simp_all)
      then show ?thesis unfolding T using Some sorted(1) by simp
    qed
  qed
qed

lemma visit_done:
  assumes "sort_ok byTag (insert t S) (st, xs)" "byTag t = Some x" "pr_tag x = t" "t \<notin> S"
    "{d \<in> set (pr_dependencies x). byTag d \<noteq> None} \<subseteq> tags_of xs"
  shows "sort_ok byTag S (st(t := 2), xs @ [x])"
proof -
  have "st t = 1" using assms(1) by (simp add: sort_ok_def)
  then have "t \<notin> tags_of xs" using assms(1) by (auto simp: sort_ok_def dest: spec [of _ t])
  moreover have "tags_of (xs @ [x]) = insert t (tags_of xs)" using assms(3) by (simp add: tags_of_def)
  moreover have "in_order byTag (xs @ [x])" using assms(1,5) by (auto simp: in_order_snoc sort_ok_def)
  ultimately show ?thesis using assms(1-4) by (auto simp: sort_ok_def tags_of_def)
qed

lemma visit_sorts:
  assumes fin: "finite (dom byTag)" and tags: "\<And>t x. byTag t = Some x \<Longrightarrow> pr_tag x = t"
  shows "sorts (visit_outbound k byTag) byTag k"
proof (induction k)
  case 0
  show ?case by (simp add: sorts_def)
next
  case (Suc k)
  show ?case unfolding sorts_def
  proof (intro allI impI)
    fix t S and s :: sorting
    assume a: "byTag t \<noteq> None" "sort_ok byTag S s" "\<forall>v\<in>S. (v, t) \<in> (sort_edges byTag)\<^sup>+" "remaining byTag s < Suc k"
    obtain st xs where s: "s = (st, xs)" by (cases s)
    obtain x where x: "byTag t = Some x" using a(1) by blast
    show "sorted_to byTag S s {t} (visit_outbound (Suc k) byTag t s)"
    proof (cases "st t = 1 \<or> st t = 2")
      case True
      then show ?thesis using a(2,3) s by (auto simp: sorted_to_def sort_ok_def)
    next
      case False
      have "remaining byTag (st(t := 1), xs) < remaining byTag s" using remaining_visit [OF fin a(1)] False s by blast
      then have less: "remaining byTag (st(t := 1), xs) < k" using a(4) by simp
      have ok: "sort_ok byTag (insert t S) (st(t := 1), xs)" using a(2) s False by (auto simp: sort_ok_def)
      have t: "t \<notin> S" using False a(2) s by (auto simp: sort_ok_def)
      have "(t, d) \<in> sort_edges byTag" if "d \<in> set (pr_dependencies x)" "byTag d \<noteq> None" for d
        using that x by (auto simp: sort_edges_def)
      then have "\<forall>v\<in>insert t S. \<forall>d\<in>set (pr_dependencies x). byTag d \<noteq> None \<longrightarrow> (v, d) \<in> (sort_edges byTag)\<^sup>+"
        using a(3) by (blast intro: trancl_into_trancl r_into_trancl)
      from visit_loop_sorts [OF fin Suc ok less this] show ?thesis
      proof (cases rule: sorted_to_cases)
        case circle
        then show ?thesis using False s x by (simp add: sorted_to_def)
      next
        case (sorted st' xs')
        from visit_done [OF sorted(2) x tags [OF x] t sorted(3)] show ?thesis
          using sorted(1,4) False s x tags [OF x] by (auto simp: sorted_to_def tags_of_def)
      qed
    qed
  qed
qed

lemma sort_loop_sorts:
  assumes "finite (dom byTag)" "sorts visit byTag k"
  shows "sort_ok byTag {} s \<Longrightarrow> remaining byTag s < k \<Longrightarrow> tags_of outbounds \<subseteq> dom byTag \<Longrightarrow>
    (\<exists>u. sort_loop visit outbounds s = Some (Inl (Circular u)) \<and> (u, u) \<in> (sort_edges byTag)\<^sup>+) \<or>
    (\<exists>st xs. sort_loop visit outbounds s = Some (Inr xs) \<and> sort_ok byTag {} (st, xs) \<and> tags_of outbounds \<union> tags_of (snd s) \<subseteq> tags_of xs)"
proof (induction outbounds arbitrary: s)
  case Nil
  then show ?case by (cases s) (auto simp: tags_of_def)
next
  case (Cons x outbounds)
  then have "sorted_to byTag {} s {pr_tag x} (visit (pr_tag x) s)"
    using sortsD [OF assms(2), of "pr_tag x" "{}" s] by (auto simp: tags_of_def)
  then show ?case
  proof (cases rule: sorted_to_cases)
    case (sorted st xs)
    have "remaining byTag (st, xs) \<le> remaining byTag s" using remaining_mono [OF assms(1) Cons.prems(1) sorted(2)] sorted(4) by simp
    then have less: "remaining byTag (st, xs) < k" using Cons.prems(2) by simp
    have all: "tags_of (x # outbounds) = insert (pr_tag x) (tags_of outbounds)" by (simp add: tags_of_def)
    with Cons.prems(3) have "tags_of outbounds \<subseteq> dom byTag" by blast
    from Cons.IH [OF sorted(2) less this] show ?thesis
    proof (elim disjE exE conjE)
      fix st' ys
      assume ys: "sort_loop visit outbounds (st, xs) = Some (Inr ys)" "sort_ok byTag {} (st', ys)"
        "tags_of outbounds \<union> tags_of (snd (st, xs)) \<subseteq> tags_of ys"
      have "tags_of (x # outbounds) \<union> tags_of (snd s) \<subseteq> tags_of ys" using ys(3) sorted(3,4) all by auto
      with ys(1,2) sorted(1) show ?thesis by auto
    qed (use sorted(1) in simp)
  qed simp
qed

lemma prepared_by_tag_snoc: "prepared_by_tag (xs @ [x]) = (prepared_by_tag xs)(pr_tag x \<mapsto> x)"
  by (simp add: prepared_by_tag_def)

lemma prepared_by_tag_Some: "prepared_by_tag xs t = Some x \<Longrightarrow> x \<in> set xs \<and> pr_tag x = t"
  by (induction xs rule: rev_induct) (auto simp: prepared_by_tag_snoc prepared_by_tag_def [of "[]"] split: if_splits)

lemma prepared_by_tag_dom: "dom (prepared_by_tag xs) = tags_of xs"
proof (induction xs rule: rev_induct)
  case (snoc x xs)
  have "dom (prepared_by_tag (xs @ [x])) = insert (pr_tag x) (dom (prepared_by_tag xs))"
    unfolding prepared_by_tag_snoc dom_fun_upd by simp
  with snoc show ?case by (simp add: tags_of_def)
qed (simp add: prepared_by_tag_def tags_of_def)

text \<open>What \<open>sortOutbounds\<close> gives for a list without a circle.\<close>

definition sorted_as :: "preparedOutbound list \<Rightarrow> preparedOutbound list \<Rightarrow> bool" where
  "sorted_as outbounds result \<longleftrightarrow>
     distinct (map pr_tag result) \<and> tags_of result = tags_of outbounds \<and>
     (\<forall>x\<in>set result. prepared_by_tag outbounds (pr_tag x) = Some x) \<and> in_order (prepared_by_tag outbounds) result"

lemma sort_sorted:
  "(\<exists>u. sortOutbounds xs = Some (Inl (Circular u)) \<and> (u, u) \<in> (sort_edges (prepared_by_tag xs))\<^sup>+) \<or>
   (\<exists>result. sortOutbounds xs = Some (Inr result) \<and> sorted_as xs result)"
proof -
  let ?byTag = "prepared_by_tag xs"
  have fin: "finite (dom ?byTag)" by (simp add: prepared_by_tag_dom tags_of_def)
  have "sorts (visit_outbound (Suc (length xs)) ?byTag) ?byTag (Suc (length xs))"
    by (rule visit_sorts [OF fin]) (use prepared_by_tag_Some in blast)
  note loop = sort_loop_sorts [OF fin this, of "(\<lambda>_. 0, [])" xs]
  have "remaining ?byTag (\<lambda>_. 0, []) \<le> card (tags_of xs)"
    unfolding remaining_def prepared_by_tag_dom by (rule card_mono) (simp_all add: tags_of_def)
  also have "\<dots> \<le> length xs" unfolding tags_of_def by (rule le_trans [OF card_image_le card_length]) simp
  finally have less: "remaining ?byTag (\<lambda>_. 0, []) < Suc (length xs)" by simp
  have "sort_ok ?byTag {} (\<lambda>_. 0, [])" by (simp add: sort_ok_def in_order_Nil tags_of_def)
  from loop [OF this less] consider
      u where "sortOutbounds xs = Some (Inl (Circular u))" "(u, u) \<in> (sort_edges ?byTag)\<^sup>+"
    | st result where "sortOutbounds xs = Some (Inr result)" "sort_ok ?byTag {} (st, result)" "tags_of xs \<subseteq> tags_of result"
    unfolding sortOutbounds_def prepared_by_tag_dom by auto
  then show ?thesis
  proof cases
    case 2
    have "tags_of result \<subseteq> dom ?byTag" using 2(2) by (auto simp: sort_ok_def tags_of_def)
    then have "tags_of result = tags_of xs" using 2(3) by (simp add: prepared_by_tag_dom)
    with 2(1,2) show ?thesis by (simp add: sorted_as_def sort_ok_def)
  qed blast
qed

lemma sorted_acyclic:
  assumes "sorted_as xs result"
  shows "acyclic (sort_edges (prepared_by_tag xs))"
proof -
  let ?edges = "sort_edges (prepared_by_tag xs)"
  have g: "grounded (\<lambda>_. True) ?edges (pr_tag (result ! i))" if "i < length result" for i
    using that
  proof (induction i rule: less_induct)
    case (less i)
    show ?case
    proof (rule grounded.intros)
      fix d assume d: "(pr_tag (result ! i), d) \<in> ?edges"
      have "prepared_by_tag xs (pr_tag (result ! i)) = Some (result ! i)" using assms less.prems by (simp add: sorted_as_def)
      with d have "d \<in> set (pr_dependencies (result ! i))" "prepared_by_tag xs d \<noteq> None" by (auto simp: sort_edges_def)
      then have "d \<in> tags_of (take i result)" using assms less.prems by (simp add: sorted_as_def in_order_def)
      then obtain j where "j < i" "d = pr_tag (result ! j)" using less.prems by (auto simp: tags_of_def in_set_conv_nth)
      then show "grounded (\<lambda>_. True) ?edges d" using less.IH less.prems by simp
    qed simp
  qed
  have "(t, t) \<notin> ?edges\<^sup>+" for t
  proof
    assume "(t, t) \<in> ?edges\<^sup>+"
    then obtain d where "(t, d) \<in> ?edges" by (meson tranclD)
    then have "t \<in> dom (prepared_by_tag xs)" by (auto simp: sort_edges_def)
    then have "t \<in> tags_of result" using assms by (simp add: prepared_by_tag_dom sorted_as_def)
    then obtain i where i: "i < length result" "t = pr_tag (result ! i)" by (auto simp: tags_of_def in_set_conv_nth)
    from grounded_acyclic [OF g [OF i(1)]] i(2) \<open>(t, t) \<in> ?edges\<^sup>+\<close> show False by simp
  qed
  then show ?thesis by (simp add: acyclic_def)
qed

section \<open>What an update reaches\<close>

definition dependency_edges :: "preparedOutbound list \<Rightarrow> (string \<times> string) set" where
  "dependency_edges graph = {(t, d). \<exists>x\<in>set graph. pr_tag x = t \<and> d \<in> set (pr_dependencies x)}"

lemma pass_sound:
  "fst (affected_pass graph affected changed) t \<Longrightarrow> set graph \<subseteq> set g \<Longrightarrow> \<exists>u. affected u \<and> (t, u) \<in> (dependency_edges g)\<^sup>*"
proof (induction graph affected changed arbitrary: t rule: affected_pass.induct)
  case (2 x graph affected changed)
  show ?case
  proof (cases "\<not> affected (pr_tag x) \<and> list_ex affected (pr_dependencies x)")
    case True
    then obtain d where d: "d \<in> set (pr_dependencies x)" "affected d" by (auto simp: list_ex_iff)
    then have "(pr_tag x, d) \<in> dependency_edges g" using 2(4) by (auto simp: dependency_edges_def)
    moreover have "fst (affected_pass graph (affected(pr_tag x := True)) True) t" using 2(3) True by simp
    from 2(1) [OF True this] 2(4) obtain u where "(affected(pr_tag x := True)) u" "(t, u) \<in> (dependency_edges g)\<^sup>*" by auto
    ultimately show ?thesis using d(2) by (cases "u = pr_tag x") (auto intro: rtrancl_into_rtrancl)
  next
    case False
    then show ?thesis using 2 by auto
  qed
qed auto

lemma pass_stable:
  "\<not> snd (affected_pass graph affected changed) \<Longrightarrow>
   \<not> changed \<and> fst (affected_pass graph affected changed) = affected \<and>
   (\<forall>x\<in>set graph. list_ex affected (pr_dependencies x) \<longrightarrow> affected (pr_tag x))"
proof (induction graph affected changed rule: affected_pass.induct)
  case (2 x graph affected changed)
  show ?case
  proof (cases "\<not> affected (pr_tag x) \<and> list_ex affected (pr_dependencies x)")
    case True
    then have "\<not> snd (affected_pass graph (affected(pr_tag x := True)) True)" using 2(3) by simp
    from 2(1) [OF True this] show ?thesis by simp
  next
    case False
    then show ?thesis using 2(2) [OF False] 2(3) by auto
  qed
qed simp

lemma closed_reaches:
  assumes "\<forall>x\<in>set g. list_ex affected (pr_dependencies x) \<longrightarrow> affected (pr_tag x)"
  shows "(t, u) \<in> (dependency_edges g)\<^sup>* \<Longrightarrow> affected u \<Longrightarrow> affected t"
  by (induction rule: converse_rtrancl_induct) (use assms in \<open>auto simp: dependency_edges_def list_ex_iff\<close>)

lemma affected_reaches:
  "affected_loop g affected t \<longleftrightarrow> (\<exists>u. affected u \<and> (t, u) \<in> (dependency_edges g)\<^sup>*)"
proof (induction g affected rule: affected_loop.induct)
  case (1 g affected)
  obtain affected' changed where p: "affected_pass g affected False = (affected', changed)" by fastforce
  have sound: "\<exists>u. affected u \<and> (t, u) \<in> (dependency_edges g)\<^sup>*" if "affected' t" for t
    using pass_sound [of g affected False t g] that p by simp
  have grows: "affected' t" if "affected t" for t using pass_grows [of affected t g False] that p by simp
  show ?case
  proof (cases changed)
    case True
    then have "affected_loop g affected t = (\<exists>u. affected' u \<and> (t, u) \<in> (dependency_edges g)\<^sup>*)"
      using 1 [OF p [symmetric] True] p by (subst affected_loop.simps) simp
    then show ?thesis using sound grows by (meson rtrancl_trans)
  next
    case False
    with pass_stable [of g affected False] p have s: "affected' = affected"
      "\<forall>x\<in>set g. list_ex affected (pr_dependencies x) \<longrightarrow> affected (pr_tag x)" by auto
    have "affected_loop g affected t = affected t" using p False s(1) by (subst affected_loop.simps) simp
    then show ?thesis using closed_reaches [OF s(2)] by blast
  qed
qed

end
