(* ===== verification/Provider_Tags.thy ===== *)
theory Provider_Tags
  imports Provider_Graph
begin

text \<open>
  The tags of the outbounds of a provider and the filters a user sets: \<open>override\<close> (\<open>override.go\<close>) with the JSON
  merge patch, \<open>normalizeOutboundTags\<close>, \<open>filterOutboundTypes\<close> and \<open>FilterOutbounds\<close> (\<open>adapter.go\<close>). Regular
  expressions are functions. The removal of emojis from a tag, regular expressions over Unicode, and the
  reading and writing of an outbound as JSON are parameters.
\<close>

section \<open>Overrides\<close>

text \<open>A pattern is its text and its \<open>ReplaceAllString\<close>.\<close>

type_synonym pattern = "string \<times> (string \<Rightarrow> string \<Rightarrow> string)"

record override =
  ov_prefix :: string
  ov_suffix :: string
  ov_renames :: "(pattern \<times> string) list"
  ov_detour :: string

fun new_renames :: "nat \<Rightarrow> (pattern option \<times> string) list \<Rightarrow> provider_error + (pattern \<times> string) list" where
  "new_renames index [] = Inr []"
| "new_renames index ((None, target) # rs) = Inl (MissingPattern (index + 1))"
| "new_renames index ((Some p, target) # rs) =
     (if fst p = [] then Inl (EmptyPattern (index + 1))
      else case new_renames (Suc index) rs of Inl e \<Rightarrow> Inl e | Inr xs \<Rightarrow> Inr ((p, target) # xs))"

definition newOverride :: "string \<Rightarrow> string \<Rightarrow> (pattern option \<times> string) list \<Rightarrow> string \<Rightarrow> provider_error + override" where
  "newOverride pre suf renames detour =
     (case new_renames 0 renames of
        Inl e \<Rightarrow> Inl e
      | Inr rs \<Rightarrow> Inr \<lparr>ov_prefix = pre, ov_suffix = suf, ov_renames = rs, ov_detour = detour\<rparr>)"

definition ApplyTag :: "override option \<Rightarrow> string \<Rightarrow> string" where
  "ApplyTag ov tag =
     (case ov of
        None \<Rightarrow> tag
      | Some v \<Rightarrow>
          let tag' = TrimSpace (fold (\<lambda>(p, target) t. snd p t target) (ov_renames v) tag) in
          if tag' = [] then tag' else ov_prefix v @ tag' @ ov_suffix v)"

definition defaultDetour :: "override option \<Rightarrow> string" where
  "defaultDetour ov = (case ov of None \<Rightarrow> [] | Some v \<Rightarrow> ov_detour v)"

text \<open>JSON documents as far as \<open>mergePatch\<close> tells them apart.\<close>

datatype json = JNull | JValue string | JObject "string \<Rightarrow> json option"

fun object_of :: "json option \<Rightarrow> string \<Rightarrow> json option" where
  "object_of (Some (JObject m)) = m"
| "object_of _ = Map.empty"

text \<open>What becomes of the value at a key of the target, given the patch's value there.\<close>

primrec merge_value :: "json \<Rightarrow> json option \<Rightarrow> json option" where
  "merge_value JNull old = None"
| "merge_value (JValue v) old = Some (JValue v)"
| "merge_value (JObject patch) old =
     Some (JObject (\<lambda>key. (case (map_option merge_value \<circ> patch) key of
                       None \<Rightarrow> object_of old key
                     | Some merge \<Rightarrow> merge (object_of old key))))"

definition mergePatch :: "(string \<Rightarrow> json option) \<Rightarrow> (string \<Rightarrow> json option) \<Rightarrow> string \<Rightarrow> json option" where
  "mergePatch target patch key =
     (case patch key of None \<Rightarrow> target key | Some v \<Rightarrow> merge_value v (target key))"

section \<open>Tags\<close>

text \<open>The candidates of \<open>for index := 2; used[tag]; index++\<close>.\<close>

definition numbered :: "string \<Rightarrow> nat \<Rightarrow> string" where
  "numbered base index = base @ '' #'' @ dec index"

lemma numbered_inj: "numbered base i = numbered base j \<Longrightarrow> i = j"
  by (auto simp: numbered_def intro: dec_inj)

lemma taken_finite: "finite {j. i \<le> j \<and> numbered base j \<in> set used}"
proof (rule finite_subset)
  show "finite (numbered base -` set used)" by (rule finite_vimageI) (auto intro: injI numbered_inj)
qed auto

lemma taken_Suc:
  "card {j. i \<le> j \<and> numbered base j \<in> set used} =
   card {j. Suc i \<le> j \<and> numbered base j \<in> set used} + (if numbered base i \<in> set used then 1 else 0)"
proof -
  have "{j. i \<le> j \<and> numbered base j \<in> set used} =
      {j. Suc i \<le> j \<and> numbered base j \<in> set used} \<union> (if numbered base i \<in> set used then {i} else {})"
    by (auto simp: Suc_le_eq order_less_le)
  then show ?thesis using taken_finite [of "Suc i"] by simp
qed

function free_tag :: "string list \<Rightarrow> string \<Rightarrow> nat \<Rightarrow> string \<Rightarrow> string" where
  "free_tag used base index tag =
     (if tag \<in> set used then free_tag used base (Suc index) (numbered base index) else tag)"
  by pat_completeness auto
termination
proof (relation "measure (\<lambda>(used, base, index, tag). 2 * card {j. index \<le> j \<and> numbered base j \<in> set used} +
    (if tag \<in> set used then 1 else 0))", goal_cases)
  case (2 used base index tag)
  then show ?case using taken_Suc [of index base used] by simp
qed simp

declare free_tag.simps [simp del]

text \<open>The first loop of \<open>normalizeOutboundTags\<close> gives the new tags and where the old ones went.\<close>

definition new_tag :: "(string \<Rightarrow> string) option \<Rightarrow> override option \<Rightarrow> nat \<Rightarrow> string \<Rightarrow> string" where
  "new_tag removeEmojis tagOverride index originalTag =
     (let tag = ApplyTag tagOverride (case removeEmojis of None \<Rightarrow> originalTag | Some f \<Rightarrow> f originalTag) in
      if tag = [] then ''Node #'' @ dec (index + 1) else tag)"

fun tag_loop :: "(string \<Rightarrow> string) option \<Rightarrow> override option \<Rightarrow> nat \<Rightarrow> outbound list \<Rightarrow> string list \<Rightarrow> (string \<rightharpoonup> string) \<Rightarrow>
    outbound list \<times> (string \<rightharpoonup> string)" where
  "tag_loop removeEmojis tagOverride index [] used tags = ([], tags)"
| "tag_loop removeEmojis tagOverride index (opt # opts) used tags =
     (let originalTag = ob_Tag opt;
          base = new_tag removeEmojis tagOverride index originalTag;
          tag = free_tag used base 2 base;
          tags1 = (if originalTag \<noteq> [] \<and> tags originalTag = None then tags(originalTag \<mapsto> tag) else tags);
          (opts', tags') = tag_loop removeEmojis tagOverride (Suc index) opts (tag # used) tags1 in
      (opt\<lparr>ob_Tag := tag\<rparr> # opts', tags'))"

definition normalizeOutboundTags :: "outbound list \<Rightarrow> (string \<Rightarrow> string) option \<Rightarrow> override option \<Rightarrow> outbound list" where
  "normalizeOutboundTags opts removeEmojis tagOverride =
     (case tag_loop removeEmojis tagOverride 0 opts [] Map.empty of (opts', tags) \<Rightarrow>
        map (\<lambda>o'. o'\<lparr>ob_Options := fst (rewriteOutboundReferences tags (ob_Options o'))\<rparr>) opts')"

section \<open>Filters\<close>

definition filterOutboundTypes :: "string list \<Rightarrow> outbound list \<Rightarrow> outbound list \<times> (string \<rightharpoonup> bool)" where
  "filterOutboundTypes excludeTypes opts =
     (if excludeTypes = [] then (opts, Map.empty)
      else (filter (\<lambda>o'. to_lower (ob_Type o') \<notin> set excludeTypes) opts,
            fold (\<lambda>o' m. if to_lower (ob_Type o') \<in> set excludeTypes \<and> ob_Tag o' \<noteq> [] then m(ob_Tag o' \<mapsto> True) else m)
              opts Map.empty))"

definition override_dialer :: "dialer option \<Rightarrow> outbound \<Rightarrow> outbound" where
  "override_dialer overrideDialerOptions o' =
     (case overrideDialerOptions of
        None \<Rightarrow> o'
      | Some d \<Rightarrow>
          if o_Dialer (ob_Options o') = None then o'
          else o'\<lparr>ob_Options := (ob_Options o')\<lparr>o_Dialer := Some d\<rparr>\<rparr>)"

text \<open>\<open>ApplyOptions\<close> is a parameter: the patched outbound or the text of the error.\<close>

fun patch_loop :: "dialer option \<Rightarrow> (outbound \<Rightarrow> string + outbound) \<Rightarrow> outbound list \<Rightarrow> provider_error + outbound list" where
  "patch_loop overrideDialerOptions ApplyOptions [] = Inr []"
| "patch_loop overrideDialerOptions ApplyOptions (o' # os) =
     (case ApplyOptions (override_dialer overrideDialerOptions o') of
        Inl e \<Rightarrow> Inl (PatchFailed (ob_Tag o'))
      | Inr patched \<Rightarrow>
          (case patch_loop overrideDialerOptions ApplyOptions os of
             Inl e \<Rightarrow> Inl e
           | Inr rest \<Rightarrow> Inr (patched # rest)))"

record adapter =
  ad_excludeTypes :: "string list"
  ad_overrideDialerOptions :: "dialer option"
  ad_override :: "override option"
  ad_removeEmojis :: "(string \<Rightarrow> string) option"
  ad_filterCandidates :: "string list"

definition named_out :: "(string \<Rightarrow> bool) option \<Rightarrow> (string \<Rightarrow> bool) option \<Rightarrow> outbound \<Rightarrow> bool" where
  "named_out exclude include o' =
     ((case exclude of None \<Rightarrow> False | Some matches \<Rightarrow> matches (ob_Tag o')) \<or>
      (case include of None \<Rightarrow> False | Some matches \<Rightarrow> \<not> matches (ob_Tag o')))"

definition filter_names :: "(string \<Rightarrow> bool) option \<Rightarrow> (string \<Rightarrow> bool) option \<Rightarrow> outbound list \<Rightarrow> outbound list option" where
  "filter_names exclude include opts =
     (if Option.is_none exclude \<and> Option.is_none include then Some opts
      else
        let filteredTags = fold (\<lambda>o' m. if named_out exclude include o' then m(ob_Tag o' \<mapsto> True) else m) opts Map.empty;
            kept = filter (\<lambda>o'. \<not> named_out exclude include o') opts in
        FilterInvalidOutbounds kept filteredTags)"

definition FilterOutbounds :: "adapter \<Rightarrow> (outbound \<Rightarrow> string + outbound) \<Rightarrow> outbound list \<Rightarrow> (string \<Rightarrow> bool) option \<Rightarrow>
    (string \<Rightarrow> bool) option \<Rightarrow> ((provider_error + outbound list) \<times> adapter) option" where
  "FilterOutbounds a ApplyOptions opts0 exclude include =
     (case filterOutboundTypes (ad_excludeTypes a) opts0 of (opts1, excludedTags) \<Rightarrow>
        (case FilterInvalidOutbounds opts1 excludedTags of
           None \<Rightarrow> None
         | Some opts2 \<Rightarrow>
             (case patch_loop (ad_overrideDialerOptions a) ApplyOptions opts2 of
                Inl e \<Rightarrow> Some (Inl e, a)
              | Inr opts3 \<Rightarrow>
                  let opts = normalizeOutboundTags opts3 (ad_removeEmojis a) (ad_override a);
                      a' = a\<lparr>ad_filterCandidates := map ob_Tag opts\<rparr> in
                  map_option (\<lambda>result. (Inr result, a')) (filter_names exclude include opts))))"

end
