(* ===== verification/Provider_Chains.thy ===== *)
theory Provider_Chains
  imports Provider_Order Provider_Tags "HOL-Library.Multiset"
begin

text \<open>
  From the import of a subscription to the order of creation: the tags \<open>normalizeOutboundTags\<close> gives are all
  different, what \<open>FilterInvalidOutbounds\<close> leaves can be put in order, and a merge patch is applied once for all.
\<close>

section \<open>Tags\<close>

lemma free_tag_free: "free_tag used base index tag \<notin> set used"
proof (induction used base index tag rule: free_tag.induct)
  case (1 used base index tag)
  then show ?case by (cases "tag \<in> set used") (simp_all add: free_tag.simps [of used base index tag])
qed

lemma free_tag_not_empty: "tag \<noteq> [] \<Longrightarrow> free_tag used base index tag \<noteq> []"
proof (induction used base index tag rule: free_tag.induct)
  case (1 used base index tag)
  then show ?case by (cases "tag \<in> set used") (simp_all add: free_tag.simps [of used base index tag] numbered_def)
qed

lemma free_tag_unused: "tag \<notin> set used \<Longrightarrow> free_tag used base index tag = tag"
  by (simp add: free_tag.simps)

lemma new_tag_not_empty: "new_tag removeEmojis tagOverride index originalTag \<noteq> []"
  by (simp add: new_tag_def Let_def)

lemma tag_loop_tags:
  assumes "tag_loop removeEmojis tagOverride index opts used tags = (opts', tags')"
  shows "distinct (map ob_Tag opts') \<and> set (map ob_Tag opts') \<inter> set used = {} \<and> [] \<notin> set (map ob_Tag opts')"
  using assms
proof (induction removeEmojis tagOverride index opts used tags arbitrary: opts' rule: tag_loop.induct)
  case (2 removeEmojis tagOverride index opt opts used tags)
  let ?base = "new_tag removeEmojis tagOverride index (ob_Tag opt)"
  let ?tag = "free_tag used ?base 2 ?base"
  obtain os ts where r: "tag_loop removeEmojis tagOverride (Suc index) opts (?tag # used)
      (if ob_Tag opt \<noteq> [] \<and> tags (ob_Tag opt) = None then tags(ob_Tag opt \<mapsto> ?tag) else tags) = (os, ts)" by fastforce
  then have o: "opts' = opt\<lparr>ob_Tag := ?tag\<rparr> # os" "tags' = ts" using 2(2) by (simp_all add: Let_def del: fun_upd_apply)
  have "distinct (map ob_Tag os) \<and> set (map ob_Tag os) \<inter> set (?tag # used) = {} \<and> [] \<notin> set (map ob_Tag os)"
    by (rule 2(1) [OF refl refl refl refl]) (use r o(2) in blast)
  moreover have "?tag \<notin> set used" "?tag \<noteq> []" by (rule free_tag_free, rule free_tag_not_empty [OF new_tag_not_empty])
  ultimately show ?case using o(1) by auto
qed simp

lemma normalized_tags:
  "distinct (map ob_Tag (normalizeOutboundTags opts removeEmojis tagOverride))"
  "[] \<notin> set (map ob_Tag (normalizeOutboundTags opts removeEmojis tagOverride))"
proof -
  obtain opts' tags where "tag_loop removeEmojis tagOverride 0 opts [] Map.empty = (opts', tags)" by fastforce
  moreover from tag_loop_tags [OF this] have "distinct (map ob_Tag opts')" "[] \<notin> set (map ob_Tag opts')" by auto
  ultimately show "distinct (map ob_Tag (normalizeOutboundTags opts removeEmojis tagOverride))"
    "[] \<notin> set (map ob_Tag (normalizeOutboundTags opts removeEmojis tagOverride))"
    by (simp_all add: normalizeOutboundTags_def comp_def)
qed

section \<open>Chains in order\<close>

text \<open>The position of an outbound under tags that are all different.\<close>

lemma by_tag_nth:
  assumes "distinct (map ob_Tag os)" "i < length os" "ob_Tag (os ! i) \<noteq> []"
  shows "by_tag 0 os Map.empty (ob_Tag (os ! i)) = Some i"
proof -
  have "ob_Tag (os ! i) \<in> ob_Tag ` set os" using assms(2) by simp
  then have "by_tag 0 os Map.empty (ob_Tag (os ! i)) \<noteq> None" using assms(3) by (simp add: by_tag_None)
  then obtain j where j: "by_tag 0 os Map.empty (ob_Tag (os ! i)) = Some j" by blast
  from by_tag_Some [OF j] have "j < length os" "ob_Tag (os ! j) = ob_Tag (os ! i)" by auto
  then have "j = i" using assms(1,2) by (metis length_map nth_eq_iff_index_eq nth_map)
  with j show ?thesis by simp
qed

lemma prepare_one_tag:
  assumes "o' \<in> set os" "ob_Tag o' \<noteq> []"
  shows "pr_tag (prepare_one p (qualify p os) detour i o') = p @ ''/'' @ ob_Tag o'"
  using assms by (auto simp: prepare_one_def Let_def qualify_eq case_prod_beta)

lemma prepare_one_deps:
  "d \<in> set (pr_dependencies (prepare_one p (qualify p os) [] i o')) \<longleftrightarrow>
   (\<exists>r\<in>set (refs (ob_Options o')). r \<noteq> [] \<and> r \<in> ob_Tag ` set os \<and> d = p @ ''/'' @ r)"
  by (auto simp: prepare_one_def Let_def case_prod_beta rewrite_deps qualify_eq applyDefaultDetour_def split: if_splits)

lemma prepared_all_source: "map pr_source (prepared_all p os detour) = os"
proof -
  have "pr_source \<circ> (\<lambda>(i, o'). prepare_one p (qualify p os) detour i o') = snd"
    by (auto simp: prepare_one_def Let_def case_prod_beta fun_eq_iff)
  then show ?thesis by (simp add: prepared_all_def)
qed

lemma prepared_all_tags:
  assumes "[] \<notin> set (map ob_Tag os)"
  shows "map pr_tag (prepared_all p os detour) = map (\<lambda>o'. p @ ''/'' @ ob_Tag o') os"
proof (rule nth_equalityI)
  fix i assume "i < length (map pr_tag (prepared_all p os detour))"
  then have i: "i < length os" by (simp add: prepared_all_def)
  then have "os ! i \<in> set os" "ob_Tag (os ! i) \<noteq> []" using assms by (auto, metis image_eqI nth_mem)
  then show "map pr_tag (prepared_all p os detour) ! i = map (\<lambda>o'. p @ ''/'' @ ob_Tag o') os ! i"
    using i by (simp add: prepared_all_def nth_enumerate_eq prepare_one_tag)
qed (simp add: prepared_all_def)

lemma sorted_as_mset:
  assumes "sorted_as xs result" "distinct (map pr_tag xs)"
  shows "mset result = mset xs"
proof -
  have "set result \<subseteq> set xs" using assms(1) prepared_by_tag_Some by (fastforce simp: sorted_as_def)
  moreover have "x \<in> set result" if x: "x \<in> set xs" for x
  proof -
    have "pr_tag x \<in> tags_of result" using assms(1) x by (simp add: sorted_as_def tags_of_def)
    then obtain y where y: "y \<in> set result" "pr_tag y = pr_tag x" by (auto simp: tags_of_def)
    then have "y \<in> set xs" using \<open>set result \<subseteq> set xs\<close> by blast
    then have "y = x" using assms(2) x y(2) by (auto simp: distinct_map dest: inj_onD)
    with y(1) show ?thesis by simp
  qed
  ultimately have "set result = set xs" by blast
  moreover have "distinct result" "distinct xs" using assms by (auto simp: sorted_as_def distinct_map)
  ultimately show ?thesis by (simp add: set_eq_iff_mset_eq_distinct)
qed

lemma dial_edge:
  assumes "distinct (map ob_Tag os)" "[] \<notin> set (map ob_Tag os)"
    and "(u, v) \<in> sort_edges (prepared_by_tag (prepared_all p (nths os {i. usable os invalid i}) []))"
  obtains i j where "i < length os" "j < length os" "usable os invalid i" "u = p @ ''/'' @ ob_Tag (os ! i)"
    "v = p @ ''/'' @ ob_Tag (os ! j)" "(i, j) \<in> dial_edges os"
proof -
  let ?kept = "nths os {i. usable os invalid i}"
  from assms(3) obtain x where x: "prepared_by_tag (prepared_all p ?kept []) u = Some x" "v \<in> set (pr_dependencies x)"
    by (auto simp: sort_edges_def)
  then have "x \<in> set (prepared_all p ?kept [])" "pr_tag x = u" using prepared_by_tag_Some by auto
  then obtain n o' where o: "o' \<in> set ?kept" "x = prepare_one p (qualify p ?kept) [] n o'" "pr_tag x = u"
    by (force simp: prepared_all_def in_set_enumerate_eq)
  obtain i where i: "i < length os" "usable os invalid i" "o' = os ! i" using o(1) by (auto simp: set_nths)
  have nonempty: "ob_Tag (os ! k) \<noteq> []" if "k < length os" for k using assms(2) that by (metis in_set_conv_nth length_map nth_map)
  have u: "u = p @ ''/'' @ ob_Tag (os ! i)" using prepare_one_tag [OF o(1)] o(2,3) i nonempty by simp
  from x(2) obtain r where r: "r \<in> set (refs (ob_Options (os ! i)))" "r \<in> ob_Tag ` set ?kept" "v = p @ ''/'' @ r"
    unfolding o(2) prepare_one_deps i(3) by blast
  then obtain j where j: "j < length os" "r = ob_Tag (os ! j)" by (auto simp: set_nths)
  have "(i, j) \<in> dial_edges os" using i(1) r(1) j by_tag_nth [OF assms(1) j(1) nonempty [OF j(1)]] by (auto simp: dial_edges_def)
  with that i j r(3) u show ?thesis by blast
qed

lemma dial_path:
  assumes "distinct (map ob_Tag os)" "[] \<notin> set (map ob_Tag os)"
    and "(u, v) \<in> (sort_edges (prepared_by_tag (prepared_all p (nths os {i. usable os invalid i}) [])))\<^sup>+"
  shows "\<exists>i j. i < length os \<and> j < length os \<and> usable os invalid i \<and> u = p @ ''/'' @ ob_Tag (os ! i) \<and>
    v = p @ ''/'' @ ob_Tag (os ! j) \<and> (i, j) \<in> (dial_edges os)\<^sup>+"
  using assms(3)
proof (induction rule: trancl_induct)
  case (base v)
  from dial_edge [OF assms(1,2) base] show ?case by (metis r_into_trancl)
next
  case (step v w)
  then obtain i j where ij: "i < length os" "j < length os" "usable os invalid i" "u = p @ ''/'' @ ob_Tag (os ! i)"
    "v = p @ ''/'' @ ob_Tag (os ! j)" "(i, j) \<in> (dial_edges os)\<^sup>+" by blast
  obtain j' k where jk: "j' < length os" "k < length os" "v = p @ ''/'' @ ob_Tag (os ! j')" "w = p @ ''/'' @ ob_Tag (os ! k)"
    "(j', k) \<in> dial_edges os" using dial_edge [OF assms(1,2) step(2)] by metis
  have "j' = j" using ij(2,5) jk(1,3) assms(1) by (metis length_map nth_eq_iff_index_eq nth_map same_append_eq)
  then have "(i, k) \<in> (dial_edges os)\<^sup>+" using ij(6) jk(5) by (blast intro: trancl_into_trancl)
  with ij(1,3,4) jk(2,4) show ?case by blast
qed

lemma filtered_subset:
  assumes "FilterInvalidOutbounds os invalid = Some kept" "distinct (map ob_Tag os)" "[] \<notin> set (map ob_Tag os)"
  shows "distinct (map ob_Tag kept)" "[] \<notin> set (map ob_Tag kept)" "set kept \<subseteq> set os"
proof -
  have kept: "kept = nths os {i. usable os invalid i}"
    using assms(1) by (simp add: FilterInvalidOutbounds_def filter_decided)
  then show sub: "set kept \<subseteq> set os" by (simp add: set_nths_subset)
  then show "[] \<notin> set (map ob_Tag kept)" using assms(3) by auto
  show "distinct (map ob_Tag kept)" using assms(2) by (simp add: kept nths_map [symmetric] distinct_nthsI)
qed

lemma filtered_in_order:
  assumes "distinct (map ob_Tag os)" "[] \<notin> set (map ob_Tag os)" "FilterInvalidOutbounds os invalid = Some kept"
  shows "\<exists>result. prepareOutbounds p kept [] = Some (Inr result) \<and> sorted_as (prepared_all p kept []) result \<and>
    mset (map pr_source result) = mset kept"
proof -
  have kept: "kept = nths os {i. usable os invalid i}"
    using assms(3) by (simp add: FilterInvalidOutbounds_def filter_decided)
  have "(u, u) \<notin> (sort_edges (prepared_by_tag (prepared_all p kept [])))\<^sup>+" for u
  proof
    assume "(u, u) \<in> (sort_edges (prepared_by_tag (prepared_all p kept [])))\<^sup>+"
    from dial_path [OF assms(1,2) this [unfolded kept]] obtain i j where ij: "i < length os" "j < length os"
      "usable os invalid i" "ob_Tag (os ! i) = ob_Tag (os ! j)" "(i, j) \<in> (dial_edges os)\<^sup>+" by auto
    then have "i = j" using assms(1) by (metis length_map nth_eq_iff_index_eq nth_map)
    with ij(3,5) grounded_acyclic show False unfolding usable_def by metis
  qed
  with sort_sorted [of "prepared_all p kept []"] obtain result where
    r: "prepareOutbounds p kept [] = Some (Inr result)" "sorted_as (prepared_all p kept []) result"
    unfolding prepareOutbounds_def by blast
  note tags = filtered_subset [OF assms(3,1,2)]
  have "map pr_tag (prepared_all p kept []) = map (\<lambda>t. p @ ''/'' @ t) (map ob_Tag kept)"
    by (simp add: prepared_all_tags [OF tags(2)])
  moreover have "inj_on (\<lambda>t. p @ ''/'' @ t) (set (map ob_Tag kept))" by (simp add: inj_on_def)
  ultimately have "distinct (map pr_tag (prepared_all p kept []))" using tags(1) by (simp only: distinct_map)
  from sorted_as_mset [OF r(2) this] have "mset (map pr_source result) = mset kept"
    by (metis mset_map prepared_all_source)
  with r show ?thesis by blast
qed

section \<open>Filters\<close>

lemma filtered_returns: "\<exists>kept. FilterInvalidOutbounds os invalid = Some kept"
  by (simp add: FilterInvalidOutbounds_def filter_decided)

lemma filter_names_kept:
  assumes "filter_names exclude include opts = Some result" "distinct (map ob_Tag opts)" "[] \<notin> set (map ob_Tag opts)"
  shows "distinct (map ob_Tag result) \<and> [] \<notin> set (map ob_Tag result) \<and> (\<forall>o'\<in>set result. \<not> named_out exclude include o')"
proof (cases "Option.is_none exclude \<and> Option.is_none include")
  case True
  then show ?thesis using assms by (auto simp: filter_names_def named_out_def Option.is_none_def)
next
  case False
  let ?kept = "filter (\<lambda>o'. \<not> named_out exclude include o') opts"
  have "distinct (map ob_Tag ?kept)" "[] \<notin> set (map ob_Tag ?kept)" using assms(2,3) by (auto simp: distinct_map_filter)
  moreover obtain invalid where "FilterInvalidOutbounds ?kept invalid = Some result"
    using assms(1) False by (auto simp: filter_names_def Let_def)
  ultimately show ?thesis using filtered_subset [of ?kept invalid result] by auto
qed

lemma FilterOutbounds_returns: "FilterOutbounds a ApplyOptions opts exclude include \<noteq> None"
proof -
  obtain opts1 excluded where "filterOutboundTypes (ad_excludeTypes a) opts = (opts1, excluded)" by fastforce
  moreover obtain opts2 where "FilterInvalidOutbounds opts1 excluded = Some opts2" using filtered_returns by blast
  ultimately show ?thesis
    using filtered_returns by (auto simp: FilterOutbounds_def filter_names_def Let_def split: sum.splits)
qed

lemma FilterOutbounds_names:
  assumes "FilterOutbounds a ApplyOptions opts exclude include = Some (Inr result, a')"
  obtains opts3 where "filter_names exclude include (normalizeOutboundTags opts3 (ad_removeEmojis a) (ad_override a)) = Some result"
proof -
  from assms show ?thesis
    by (cases "filterOutboundTypes (ad_excludeTypes a) opts")
      (auto simp: FilterOutbounds_def Let_def split: option.splits sum.splits intro: that)
qed

lemma FilterOutbounds_tags:
  assumes "FilterOutbounds a ApplyOptions opts exclude include = Some (Inr result, a')"
  shows "distinct (map ob_Tag result) \<and> [] \<notin> set (map ob_Tag result) \<and> (\<forall>o'\<in>set result. \<not> named_out exclude include o')"
  using FilterOutbounds_names [OF assms] filter_names_kept normalized_tags by metis

section \<open>Patches\<close>

lemma merge_value_idem: "merge_value v (merge_value v old) = merge_value v old"
proof (induction v arbitrary: old)
  case (JObject patch)
  have "merge_value w (merge_value w y) = merge_value w y" if "patch key = Some w" for key w y
    using JObject [of "Some w" w y] that by (metis option.set_intros rangeI)
  then show ?case by (auto simp: fun_eq_iff split: option.split)
qed simp_all

lemma mergePatch_idem: "mergePatch (mergePatch target patch) patch = mergePatch target patch"
  by (auto simp: mergePatch_def fun_eq_iff merge_value_idem split: option.split)

end
