(* ===== verification/Spec2Isabelle.thy ===== *)
theory Spec2Isabelle
  imports FakeIP_Properties Rule_Properties Provider_Properties
begin

text \<open>
  A verification of parts of sing-box, a proxy platform written in Go, under \<open>src/\<close>.

  \<^bold>\<open>FakeIP\<close> (\<open>dns/transport/fakeip\<close>, \<open>experimental/cachefile/fakeip.go\<close>,
  \<open>adapter/fakeip_metadata.go\<close>). The DNS transport \<open>fakeip\<close> answers a query for a domain with
  an address of a private range; a connection to the address is led back to the domain.
  \<open>Store\<close> keeps the table of addresses in memory, gives out free ones in the order of a ring,
  removes unused ones and saves the table into the cache file.

  \<^item> \<open>Netip\<close>: addresses and prefixes of the package \<open>net/netip\<close>, with their binary forms.
  \<^item> \<open>FakeIP_Pool\<close>, \<open>FakeIP_Alloc\<close>: the type \<open>pool\<close>, one range; offsets and addresses; the search
    for a free offset and what it finds. Go pointers to records are numbers into a heap.
  \<^item> \<open>Cache_FakeIP\<close>: the binary form of the position, the buckets of the cache file and its
    transactions, which commit, fail or break the file.
  \<^item> \<open>FakeIP_Store\<close>: the critical sections of \<open>Store\<close>; \<open>FakeIP_Inv\<close>: the invariant each of them
    keeps.
  \<^item> \<open>FakeIP_System\<close>: the functions of \<open>Store\<close> for one caller together with the file, the transport's
    \<open>Exchange\<close>, and the relation \<open>step\<close> in which all callers interleave.
  \<^item> \<open>FakeIP_Service\<close>: domains and addresses as a user sees them; \<open>FakeIP_Save\<close>, \<open>FakeIP_Books\<close>: what
    a save collects and commits, and that no change is overlooked; \<open>FakeIP_Live\<close>: \<open>Create\<close> returns;
    \<open>FakeIP_Durable\<close>, \<open>FakeIP_Restart\<close>: file and memory agree, also after a restart;
    \<open>FakeIP_Runs\<close>: the functions of one caller are runs of \<open>step\<close>.
  \<^item> \<open>FakeIP_Properties\<close>: the properties, applied to a small configuration, and what a query for the
    root name does.

  Bounds: machine integers have their width (\<open>u32\<close> offsets and ticks, \<open>u64\<close> stamps and generations).
  The loops of \<open>Create\<close>, of the search for an address and of the saving goroutine are partial
  functions; that they return is proved. The number of a recreated cache file is assumed not to come
  round (\<open>2 ^ 64\<close> recreations).

  Not modelled of FakeIP: logging, the hooks of the tests, the timers of the goroutine, the bbolt
  database below the transactions and the building of DNS messages.

  \<^bold>\<open>Rules\<close> (\<open>route/rule\<close>, with \<open>adapter/inbound.go\<close>, \<open>option/rule.go\<close>, \<open>option/rule_dns.go\<close> and
  \<open>option/rule_set.go\<close>). A rule tells which connections or DNS queries an action applies to. It is a
  tree: default rules with groups of items, logical rules over others, and references to rule sets,
  lists of rules loaded from files. DNS rules are matched twice: early, before the response and so
  the addresses are known, and again with the response.

  \<^item> \<open>Rule_Context\<close>: \<open>InboundContext\<close> as far as the items read it, the rule cache in it that a match
    writes, DNS responses, and as \<open>world\<close> the services and functions of other packages.
  \<^item> \<open>Rule_Items\<close>: the items, one \<open>Match\<close> and \<open>String\<close> each, and their constructors.
  \<^item> \<open>Rule_Match\<close>: \<open>evaluateGroups\<close>, \<open>matchInner\<close>, \<open>matchWithOuterGroups\<close>, \<open>matchAnyHeadlessRule\<close>, the \<open>Match\<close>
    of default and logical rules, \<open>LegacyPreMatch\<close> and \<open>MatchAddressLimit\<close> of DNS rules. A rule that is
    called through an interface is a function from contexts to a verdict and a context.
  \<^item> \<open>Rule_Semantics\<close>, \<open>Rule_Sound\<close>: rules as formulas, and that the match decides them, also early with
    what it puts off. \<open>Rule_Verdict\<close>: the same as an interface (\<open>rule_interface\<close>) for those who call rules.
  \<^item> \<open>Rule_Options\<close>, \<open>Rule_Build\<close>, \<open>Rule_Made\<close>: options, their validity, the constructors as lists of
    steps, the metadata of rule sets, and what holds of the rules made.
  \<^item> \<open>Rule_Sets\<close>: the reference counts of rule sets. \<open>Rule_Text\<close>: decimal numbers, port ranges and
    hardware addresses as texts.
  \<^item> \<open>Rule_Ranges\<close>, \<open>Rule_Export\<close>: the export of a rule set's addresses for a packet filter
    (\<open>rule_set_export.go\<close>): clauses, their combination, scopes, port ranges. \<open>Rule_Export_Sound\<close>: what is
    exported is matched by the rule set. \<open>Rule_Export_Complete\<close>: what is matched is exported, unless the
    export says that it skipped something. The export relies on the IP sets of another package only as
    \<open>builds_sets\<close> and \<open>tells_empty\<close> say.
  \<^item> \<open>Rule_Actions\<close>: the checks of the actions of DNS rules.
  \<^item> \<open>Rule_Properties\<close>: the properties, applied to a small configuration.

  Bounds: ports and match states have their width (\<open>u16\<close>, \<open>u8\<close>), the comparison of neighbouring ranges
  is made at \<open>u32\<close> as in the code. All functions on rules are total.

  Not modelled of rules: the loading of rule sets, the actions, the JSON forms of options, the digest of
  an export, and the IP sets, domain matchers and regular expressions of other packages, which are
  parameters.

  \<^bold>\<open>Providers\<close> (\<open>adapter/provider/graph.go\<close>, \<open>adapter.go\<close>, \<open>override.go\<close>). A provider imports the outbounds of a
  subscription. An outbound may dial through others, so chains are removed with the outbounds they need,
  outbounds are created behind the ones they dial through, and an update replaces whatever a change reaches.

  \<^item> \<open>Provider_Graph\<close>: the references of an outbound and their rewriting, \<open>FilterInvalidOutbounds\<close>,
    \<open>prepareOutbounds\<close> with \<open>sortOutbounds\<close>, \<open>affectedOutbounds\<close>.
  \<^item> \<open>Provider_Tags\<close>: overrides, the JSON merge patch, \<open>normalizeOutboundTags\<close>, \<open>FilterOutbounds\<close>.
  \<^item> \<open>Provider_Sound\<close>, \<open>Provider_Order\<close>: the two searches return and decide what chains end and what order
    there is; the loop of \<open>affectedOutbounds\<close> computes a closure. \<open>Provider_Chains\<close>: tags are different, and
    what an import leaves can be put in order.
  \<^item> \<open>Provider_Properties\<close>: the properties, applied to a small subscription.

  Bounds: the depth of both searches is limited to one more than the number of outbounds, and every
  nested call marks one of them, so the limit is never reached. The other loops are total functions.

  Not modelled of providers: starting, closing and publishing of outbounds, health checks, the removal of
  emojis from tags and the JSON forms of outbounds, which are parameters. White space is that of ASCII.

  \<^bold>\<open>Not modelled\<close>: the DNS router and client, the routing of connections, protocols and transports,
  outbound groups, the download and the parsers of subscriptions, TLS, the APIs and the command line.
  They are mostly network and system calls with timers, or translations by third-party packages.
\<close>

end
